(* ===== verification/Prelude.thy ===== *)
theory Prelude
  imports Main "HOL-Library.Word"
begin

text \<open>
  Shared vocabulary of the development: names for the machine integers of the C++ code,
  the byte-array helpers every component uses (element-wise exclusive or, \<open>memcpy\<close>,
  reading and writing a flat memory), the collection \<open>seceval\<close> of facts that evaluate
  ground terms, and generic lemmas on words and lists.
\<close>

unbundle bit_operations_syntax

type_synonym u8 = "8 word"
type_synonym u16 = "16 word"
type_synonym u32 = "32 word"
type_synonym u64 = "64 word"

named_theorems seceval \<open>facts that evaluate ground terms\<close>

section \<open>Integer conversions\<close>

abbreviation u8_of :: "'a::len word \<Rightarrow> u8" where "u8_of x \<equiv> ucast x"
abbreviation u16_of :: "'a::len word \<Rightarrow> u16" where "u16_of x \<equiv> ucast x"
abbreviation u32_of :: "'a::len word \<Rightarrow> u32" where "u32_of x \<equiv> ucast x"
abbreviation u64_of :: "'a::len word \<Rightarrow> u64" where "u64_of x \<equiv> ucast x"

abbreviation shl :: "'a::len word \<Rightarrow> nat \<Rightarrow> 'a word" where "shl x n \<equiv> push_bit n x"
abbreviation shr :: "'a::len word \<Rightarrow> nat \<Rightarrow> 'a word" where "shr x n \<equiv> drop_bit n x"

section \<open>Byte arrays\<close>

text \<open>Element-wise exclusive or of two arrays: the result has the length of the shorter one.\<close>

definition xor_bytes :: "'a::len word list \<Rightarrow> 'a word list \<Rightarrow> 'a word list" where
  "xor_bytes xs ys = map2 (XOR) xs ys"

text \<open>\<open>memcpy (dst, src, n)\<close> on arrays that hold at least \<open>n\<close> elements.\<close>

definition copy_n :: "nat \<Rightarrow> 'a list \<Rightarrow> 'a list \<Rightarrow> 'a list" where
  "copy_n n src dst = take n src @ drop n dst"

lemma length_xor_bytes [simp]: "length (xor_bytes xs ys) = min (length xs) (length ys)"
  by (simp add: xor_bytes_def)

lemma nth_xor_bytes [simp]:
  "i < length xs \<Longrightarrow> i < length ys \<Longrightarrow> xor_bytes xs ys ! i = xs ! i XOR ys ! i"
  by (simp add: xor_bytes_def)

lemma xor_bytes_Nil [simp]: "xor_bytes [] ys = []" "xor_bytes xs [] = []"
  by (simp_all add: xor_bytes_def)

lemma xor_bytes_Cons [simp]: "xor_bytes (x # xs) (y # ys) = (x XOR y) # xor_bytes xs ys"
  by (simp add: xor_bytes_def)

lemma xor_bytes_commute: "xor_bytes xs ys = xor_bytes ys xs"
  by (rule nth_equalityI) (auto simp: xor.commute)

lemma xor_bytes_cancel [simp]:
  "length xs \<le> length ks \<Longrightarrow> xor_bytes (xor_bytes xs ks) ks = xs"
  by (rule nth_equalityI) (auto simp: xor.assoc)

lemma xor_bytes_inject:
  assumes "length xs = length ks" "length ys = length ks"
    and "xor_bytes xs ks = xor_bytes ys ks"
  shows "xs = ys"
  using assms xor_bytes_cancel by (metis order_refl)

lemma length_copy_n [simp]:
  "n \<le> length src \<Longrightarrow> n \<le> length dst \<Longrightarrow> length (copy_n n src dst) = length dst"
  by (simp add: copy_n_def)

lemma copy_n_all [simp]: "length src = n \<Longrightarrow> length dst = n \<Longrightarrow> copy_n n src dst = src"
  by (simp add: copy_n_def)

lemma nth_copy_n:
  "n \<le> length src \<Longrightarrow> i < length dst \<Longrightarrow> n \<le> length dst \<Longrightarrow>
   copy_n n src dst ! i = (if i < n then src ! i else dst ! i)"
  by (simp add: copy_n_def nth_append)

section \<open>Flat memory\<close>

text \<open>
  A byte memory addressed by integers. Reading \<open>n\<close> bytes from an address and writing an
  array at an address are what \<open>memcpy\<close> and the pointer accesses of the code do.
\<close>

type_synonym mem = "int \<Rightarrow> u8"

definition read_mem :: "mem \<Rightarrow> int \<Rightarrow> nat \<Rightarrow> u8 list" where
  "read_mem m a n = map (\<lambda>i. m (a + int i)) [0..<n]"

primrec write_mem :: "mem \<Rightarrow> int \<Rightarrow> u8 list \<Rightarrow> mem" where
  "write_mem m a [] = m"
| "write_mem m a (b # bs) = write_mem (m(a := b)) (a + 1) bs"

lemma length_read_mem [simp]: "length (read_mem m a n) = n"
  by (simp add: read_mem_def)

lemma nth_read_mem [simp]: "i < n \<Longrightarrow> read_mem m a n ! i = m (a + int i)"
  by (simp add: read_mem_def)

lemma read_mem_0 [simp]: "read_mem m a 0 = []"
  by (simp add: read_mem_def)

lemma read_mem_Suc: "read_mem m a (Suc n) = m a # read_mem m (a + 1) n"
  by (rule nth_equalityI) (auto simp: nth_Cons algebra_simps split: nat.splits)

lemma read_mem_add: "read_mem m a (n + k) = read_mem m a n @ read_mem m (a + int n) k"
  by (rule nth_equalityI) (auto simp: nth_append)

lemma write_mem_apply:
  "write_mem m a bs x =
     (if a \<le> x \<and> x < a + int (length bs) then bs ! nat (x - a) else m x)"
proof (induction bs arbitrary: m a)
  case Nil
  then show ?case by auto
next
  case (Cons b bs)
  show ?case
  proof (cases "a \<le> x \<and> x \<noteq> a")
    case True
    then have "nat (x - a) = Suc (nat (x - (a + 1)))" by linarith
    with Cons.IH True show ?thesis by (auto simp: algebra_simps)
  next
    case False
    with Cons.IH show ?thesis by (auto simp: algebra_simps)
  qed
qed

lemma read_write_same [simp]: "length bs = n \<Longrightarrow> read_mem (write_mem m a bs) a n = bs"
  by (rule nth_equalityI) (auto simp: write_mem_apply)

lemma read_write_before:
  "a + int n \<le> b \<Longrightarrow> read_mem (write_mem m b bs) a n = read_mem m a n"
  by (rule nth_equalityI) (auto simp: write_mem_apply)

lemma read_write_after:
  "b + int (length bs) \<le> a \<Longrightarrow> read_mem (write_mem m b bs) a n = read_mem m a n"
  by (rule nth_equalityI) (auto simp: write_mem_apply)

lemmas read_write_other = read_write_before read_write_after

section \<open>Words\<close>

lemma unat_and_mask: "unat (x AND mask n) = unat x mod 2 ^ n"
  by (metis take_bit_eq_mask take_bit_eq_mod unsigned_take_bit_eq)

lemma unat_shr: "unat (shr x k) = unat x div 2 ^ k" for x :: "'a::len word"
  by (metis drop_bit_eq_div unsigned_drop_bit_eq take_bit_word_eq_self unat_drop_bit_eq)

lemma unat_shl: "unat (shl x k) = unat x * 2 ^ k mod 2 ^ LENGTH('a)" for x :: "'a::len word"
  by (metis unsigned_push_bit_eq push_bit_eq_mult take_bit_eq_mod)

lemma unat_or: "unat (x OR y) = unat x OR unat y" for x y :: "'a::len word"
  by (simp add: unsigned_or_eq)

text \<open>A number below \<open>2 ^ k\<close> or-ed to a multiple of \<open>2 ^ k\<close> is added to it.\<close>

lemma nat_or_concat:
  assumes "(y :: nat) < 2 ^ k"
  shows "x * 2 ^ k OR y = x * 2 ^ k + y"
proof -
  from assms have t: "take_bit k y = y" by (simp add: take_bit_nat_eq_self)
  have "push_bit k x AND y = 0"
    by (subst t [symmetric], rule bit_eqI) (auto simp: bit_simps)
  then show ?thesis by (simp add: disjunctive_add_eq_or push_bit_eq_mult)
qed

lemma unat_u32_less: "unat (x :: u32) < 2 ^ 32"
  by (rule order_less_le_trans [OF unsigned_less]) simp

lemma unat_of_nat_u32: "n < 2 ^ 32 \<Longrightarrow> unat (of_nat n :: u32) = n"
  by (simp add: unat_of_nat)

lemma unat_u16_of: "unat x < 2 ^ 16 \<Longrightarrow> unat (u16_of x) = unat x" for x :: u32
  by (simp add: unsigned_ucast_eq take_bit_nat_eq_self)

lemma unat_u32_of_u16: "unat (u32_of x) = unat x" for x :: u16
proof -
  have "unat x < 2 ^ 16" by (rule order_less_le_trans [OF unsigned_less]) simp
  then show ?thesis by (simp add: unsigned_ucast_eq take_bit_nat_eq_self)
qed

end
