(* ===== verification/Common.thy ===== *)
theory Common
  imports Prelude
begin

text \<open>
  The shared data types of the stack: \<open>byte_buffer_t\<close> (\<open>lib/include/srslte/common/common.h\<close>),
  a fixed array with a message pointer that moves to make room for headers, and the
  big-endian conversions of \<open>lib/include/srslte/common/int_helpers.h\<close>. The TTI macros of
  \<open>common.h\<close> are here too. The buffer is a flat memory and the message pointer an offset
  into it: a pointer that leaves the array is not trapped, as in the code, and
  \<open>buffer_ok\<close> states that it has not.
\<close>

section \<open>Big-endian conversions\<close>

definition uint8_to_uint32 :: "u8 list \<Rightarrow> u32" where
  "uint8_to_uint32 buf =
     shl (u32_of (buf ! 0)) 24 OR shl (u32_of (buf ! 1)) 16 OR shl (u32_of (buf ! 2)) 8 OR u32_of (buf ! 3)"

definition uint32_to_uint8 :: "u32 \<Rightarrow> u8 list" where
  "uint32_to_uint8 i =
     [u8_of (shr i 24 AND 0xFF), u8_of (shr i 16 AND 0xFF), u8_of (shr i 8 AND 0xFF), u8_of (i AND 0xFF)]"

definition uint8_to_uint16 :: "u8 list \<Rightarrow> u16" where
  "uint8_to_uint16 buf = u16_of (shl (u32_of (buf ! 0)) 8 OR u32_of (buf ! 1))"

definition uint16_to_uint8 :: "u16 \<Rightarrow> u8 list" where
  "uint16_to_uint8 i = [u8_of (shr i 8 AND 0xFF), u8_of (i AND 0xFF)]"

definition uint8_to_uint24 :: "u8 list \<Rightarrow> u32" where
  "uint8_to_uint24 buf = shl (u32_of (buf ! 0)) 16 OR shl (u32_of (buf ! 1)) 8 OR u32_of (buf ! 2)"

definition uint24_to_uint8 :: "u32 \<Rightarrow> u8 list" where
  "uint24_to_uint8 i = [u8_of (shr i 16 AND 0xFF), u8_of (shr i 8 AND 0xFF), u8_of (i AND 0xFF)]"

lemma length_uint_to_uint8 [simp]:
  "length (uint32_to_uint8 i) = 4" "length (uint16_to_uint8 j) = 2" "length (uint24_to_uint8 i) = 3"
  by (simp_all add: uint32_to_uint8_def uint16_to_uint8_def uint24_to_uint8_def)

text \<open>
  \<open>byte_masks\<close> turns the masks of the code into truncations, \<open>word_bits\<close> truncations and
  shifts into bit tests.
\<close>

lemma and_0xFF: "x AND 0xFF = take_bit 8 x" for x :: "'a::len word"
  by (simp add: take_bit_eq_mask mask_eq_exp_minus_1)
lemma and_0x7F: "x AND 0x7F = take_bit 7 x" for x :: "'a::len word"
  by (simp add: take_bit_eq_mask mask_eq_exp_minus_1)
lemma and_0x1F: "x AND 0x1F = take_bit 5 x" for x :: "'a::len word"
  by (simp add: take_bit_eq_mask mask_eq_exp_minus_1)
lemma and_0x0F: "x AND 0x0F = take_bit 4 x" for x :: "'a::len word"
  by (simp add: take_bit_eq_mask mask_eq_exp_minus_1)
lemma and_0xFFF: "x AND 0xFFF = take_bit 12 x" for x :: "'a::len word"
  by (simp add: take_bit_eq_mask mask_eq_exp_minus_1)
lemma and_0xFFFF: "x AND 0xFFFF = take_bit 16 x" for x :: "'a::len word"
  by (simp add: take_bit_eq_mask mask_eq_exp_minus_1)
lemma and_0xFFFFFF: "x AND 0xFFFFFF = take_bit 24 x" for x :: "'a::len word"
  by (simp add: take_bit_eq_mask mask_eq_exp_minus_1)
lemma and_0x7FFFFFFF: "x AND 0x7FFFFFFF = take_bit 31 x" for x :: "'a::len word"
  by (simp add: take_bit_eq_mask mask_eq_exp_minus_1)

lemmas byte_masks =
  and_0xFF and_0x7F and_0x1F and_0x0F and_0xFFF and_0xFFFF and_0xFFFFFF and_0x7FFFFFFF

lemma bit_add_diff: "bit x (k + (n - k)) = (if k \<le> n then bit x n else bit x k)"
  by simp

lemmas word_bits = bit_simps byte_masks bit_add_diff

lemma uint32_roundtrip [simp]: "uint8_to_uint32 (uint32_to_uint8 i) = i"
  by (rule bit_word_eqI) (auto simp: uint8_to_uint32_def uint32_to_uint8_def word_bits)

lemma uint16_roundtrip [simp]: "uint8_to_uint16 (uint16_to_uint8 i) = i"
  by (rule bit_word_eqI) (auto simp: uint8_to_uint16_def uint16_to_uint8_def word_bits)

lemma uint24_roundtrip: "uint8_to_uint24 (uint24_to_uint8 i) = i AND 0xFFFFFF"
  by (rule bit_word_eqI) (auto simp: uint8_to_uint24_def uint24_to_uint8_def word_bits)

text \<open>Bit \<open>p\<close> of a byte string, most significant bit of each byte first.\<close>

definition msg_bit :: "u8 list \<Rightarrow> nat \<Rightarrow> bool" where
  "msg_bit data p = bit (data ! (p div 8)) (7 - p mod 8)"

section \<open>The byte buffer\<close>

definition SRSLTE_MAX_TBSIZE_BITS :: int where "SRSLTE_MAX_TBSIZE_BITS = 97896"
definition SRSLTE_BUFFER_HEADER_OFFSET :: int where "SRSLTE_BUFFER_HEADER_OFFSET = 1020"
definition SRSLTE_MAX_BUFFER_SIZE_BYTES :: int where
  "SRSLTE_MAX_BUFFER_SIZE_BYTES = SRSLTE_MAX_TBSIZE_BITS div 8 + SRSLTE_BUFFER_HEADER_OFFSET"

lemmas buffer_size_defs =
  SRSLTE_MAX_BUFFER_SIZE_BYTES_def SRSLTE_MAX_TBSIZE_BITS_def SRSLTE_BUFFER_HEADER_OFFSET_def

record byte_buffer =
  N_bytes :: u32
  buf_mem :: mem
  msg_ptr :: int

definition new_byte_buffer :: byte_buffer where
  "new_byte_buffer = \<lparr>N_bytes = 0, buf_mem = (\<lambda>_. 0), msg_ptr = SRSLTE_BUFFER_HEADER_OFFSET\<rparr>"

text \<open>The bytes of the message: \<open>N_bytes\<close> bytes from the message pointer.\<close>

definition bytes :: "byte_buffer \<Rightarrow> u8 list" where
  "bytes b = read_mem (buf_mem b) (msg_ptr b) (unat (N_bytes b))"

definition byte_buffer_copy :: "byte_buffer \<Rightarrow> byte_buffer" where
  "byte_buffer_copy buf =
     \<lparr>N_bytes = N_bytes buf,
      buf_mem = write_mem (\<lambda>_. 0) SRSLTE_BUFFER_HEADER_OFFSET (read_mem (buf_mem buf) (msg_ptr buf) (unat (N_bytes buf))),
      msg_ptr = SRSLTE_BUFFER_HEADER_OFFSET\<rparr>"

definition byte_buffer_clear :: "byte_buffer \<Rightarrow> byte_buffer" where
  "byte_buffer_clear b = b\<lparr>msg_ptr := SRSLTE_BUFFER_HEADER_OFFSET, N_bytes := 0\<rparr>"

definition get_headroom :: "byte_buffer \<Rightarrow> u32" where
  "get_headroom b = word_of_int (msg_ptr b)"

definition get_tailroom :: "byte_buffer \<Rightarrow> u32" where
  "get_tailroom b = word_of_int (SRSLTE_MAX_BUFFER_SIZE_BYTES - msg_ptr b) - N_bytes b"

definition append_bytes :: "byte_buffer \<Rightarrow> u8 list \<Rightarrow> u32 \<Rightarrow> byte_buffer" where
  "append_bytes b buf n =
     b\<lparr>buf_mem := write_mem (buf_mem b) (msg_ptr b + uint (N_bytes b)) (take (unat n) buf),
       N_bytes := N_bytes b + n\<rparr>"

text \<open>\<open>msg[i]\<close>, and \<open>n\<close> bytes from \<open>&msg[i]\<close>, read and written.\<close>

definition buf_get :: "byte_buffer \<Rightarrow> int \<Rightarrow> u8" where
  "buf_get b i = buf_mem b (msg_ptr b + i)"

definition buf_set :: "byte_buffer \<Rightarrow> int \<Rightarrow> u8 \<Rightarrow> byte_buffer" where
  "buf_set b i v = b\<lparr>buf_mem := (buf_mem b)(msg_ptr b + i := v)\<rparr>"

definition buf_read :: "byte_buffer \<Rightarrow> int \<Rightarrow> nat \<Rightarrow> u8 list" where
  "buf_read b i n = read_mem (buf_mem b) (msg_ptr b + i) n"

definition buf_write :: "byte_buffer \<Rightarrow> int \<Rightarrow> u8 list \<Rightarrow> byte_buffer" where
  "buf_write b i bs = b\<lparr>buf_mem := write_mem (buf_mem b) (msg_ptr b + i) bs\<rparr>"

text \<open>The message lies inside the array.\<close>

definition buffer_ok :: "byte_buffer \<Rightarrow> bool" where
  "buffer_ok b \<longleftrightarrow> 0 \<le> msg_ptr b \<and> msg_ptr b + uint (N_bytes b) \<le> SRSLTE_MAX_BUFFER_SIZE_BYTES"

text \<open>A message of given bytes at the default offset, as the upper layers hand it over.\<close>

definition buffer_of :: "u8 list \<Rightarrow> byte_buffer" where
  "buffer_of bs = append_bytes new_byte_buffer bs (of_nat (length bs))"

section \<open>TTI arithmetic\<close>

definition TTI_SUB :: "u32 \<Rightarrow> u32 \<Rightarrow> u32" where "TTI_SUB a b = (a + 10240 - b) mod 10240"
definition TTI_ADD :: "u32 \<Rightarrow> u32 \<Rightarrow> u32" where "TTI_ADD a b = (a + b) mod 10240"

section \<open>Lemmas\<close>

lemma length_bytes [simp]: "length (bytes b) = unat (N_bytes b)"
  by (simp add: bytes_def)

lemma bytes_copy [simp]: "bytes (byte_buffer_copy b) = bytes b"
  by (simp add: bytes_def byte_buffer_copy_def)

lemma buffer_ok_clear [simp]: "buffer_ok (byte_buffer_clear b)"
  by (simp add: buffer_ok_def byte_buffer_clear_def buffer_size_defs)

lemma bytes_append_bytes:
  assumes "unat k = length bs" and "unat (N_bytes b) + length bs < 2 ^ 32"
  shows "bytes (append_bytes b bs k) = bytes b @ bs"
proof -
  let ?m = "write_mem (buf_mem b) (msg_ptr b + int (unat (N_bytes b))) bs"
  have n: "unat (N_bytes b + k) = unat (N_bytes b) + length bs"
    using assms by (simp add: unat_word_ariths)
  have "bytes (append_bytes b bs k) = read_mem ?m (msg_ptr b) (unat (N_bytes b) + length bs)"
    by (simp add: bytes_def append_bytes_def n assms(1))
  also have "\<dots> = read_mem ?m (msg_ptr b) (unat (N_bytes b)) @ bs"
    by (simp only: read_mem_add read_write_same)
  also have "read_mem ?m (msg_ptr b) (unat (N_bytes b)) = bytes b"
    by (simp only: read_write_before bytes_def)
  finally show ?thesis .
qed

lemma bytes_buffer_of [simp]:
  assumes "length bs < 2 ^ 32"
  shows "bytes (buffer_of bs) = bs"
proof -
  have "unat (of_nat (length bs) :: u32) = length bs"
    using assms by (simp add: unat_of_nat)
  then have "bytes (buffer_of bs) = bytes new_byte_buffer @ bs"
    unfolding buffer_of_def using assms
    by (intro bytes_append_bytes) (simp_all add: new_byte_buffer_def)
  then show ?thesis by (simp add: bytes_def new_byte_buffer_def)
qed

lemma buf_fields [simp]:
  "N_bytes (buf_set b i v) = N_bytes b" "msg_ptr (buf_set b i v) = msg_ptr b"
  "N_bytes (buf_write b i bs) = N_bytes b" "msg_ptr (buf_write b i bs) = msg_ptr b"
  by (simp_all add: buf_set_def buf_write_def)

lemma length_buf_read [simp]: "length (buf_read b i n) = n"
  by (simp add: buf_read_def)

lemma nth_bytes: "i < unat (N_bytes b) \<Longrightarrow> bytes b ! i = buf_get b (int i)"
  by (simp add: bytes_def buf_get_def)

lemma bytes_eqI:
  assumes "length xs = unat (N_bytes b)" "\<And>i. i < length xs \<Longrightarrow> buf_get b (int i) = xs ! i"
  shows "bytes b = xs"
  using assms by (intro nth_equalityI) (simp_all add: nth_bytes)

lemma buf_read_bytes:
  "i + n \<le> unat (N_bytes b) \<Longrightarrow> buf_read b (int i) n = take n (drop i (bytes b))"
  by (intro nth_equalityI) (simp_all add: buf_read_def nth_bytes buf_get_def add.assoc)

lemma buf_get_set [simp]: "buf_get (buf_set b i v) j = (if j = i then v else buf_get b j)"
  by (simp add: buf_get_def buf_set_def)

lemma buf_get_write:
  "buf_get (buf_write b i bs) j = (if i \<le> j \<and> j < i + int (length bs) then bs ! nat (j - i) else buf_get b j)"
proof -
  have "msg_ptr b + j - (msg_ptr b + i) = j - i" by simp
  then show ?thesis by (simp add: buf_get_def buf_write_def write_mem_apply)
qed

lemma bytes_buf_write:
  assumes "i + length bs \<le> unat (N_bytes b)"
  shows "bytes (buf_write b (int i) bs) = take i (bytes b) @ bs @ drop (i + length bs) (bytes b)"
proof (rule bytes_eqI)
  fix j
  assume "j < length (take i (bytes b) @ bs @ drop (i + length bs) (bytes b))"
  then have j: "j < unat (N_bytes b)" using assms by simp
  consider "j < i" | "i \<le> j" "j < i + length bs" | "i + length bs \<le> j" by linarith
  then show "buf_get (buf_write b (int i) bs) (int j) = (take i (bytes b) @ bs @ drop (i + length bs) (bytes b)) ! j"
  proof cases
    case 2
    then have "nat (int j - int i) = j - i" "j - i < length bs" by linarith+
    with 2 assms j show ?thesis by (simp add: buf_get_write nth_append)
  qed (use assms j in \<open>auto simp: buf_get_write nth_append nth_bytes\<close>)
qed (use assms in simp)

lemma TTI_ADD_SUB:
  assumes "a < 10240" and "b < 10240"
  shows "TTI_SUB (TTI_ADD a b) b = a"
proof -
  have "unat a < 10240" "unat b < 10240"
    using assms by (simp_all add: word_less_nat_alt)
  then have "((unat a + unat b) mod 10240 + 10240 - unat b) mod 10240 = unat a"
    by (cases "unat a + unat b < 10240") (auto simp: le_mod_geq mod_if)
  then show ?thesis
    using \<open>unat a < 10240\<close> \<open>unat b < 10240\<close>
    by (intro word_unat_eq_iff [THEN iffD2])
       (simp add: TTI_SUB_def TTI_ADD_def unat_mod_distrib unat_word_ariths unat_sub_if')
qed

end
