(* ===== verification/Snow3g.thy ===== *)
theory Snow3g
  imports Common
begin

text \<open>
  The SNOW 3G generator of \<open>lib/src/common/snow_3g.cc\<close> and the confidentiality and integrity
  functions built on it. The file-level registers \<open>LFSR_S0\<close> to \<open>LFSR_S15\<close> and
  \<open>FSM_R1\<close> to \<open>FSM_R3\<close> are the record \<open>snow3g_state\<close>; every function that reads or
  writes them takes and returns it. \<open>snow3g_f8\<close> writes in place at a pointer, so its data
  is a flat memory and an address; \<open>snow3g_f9\<close> only reads its data, a byte list.
\<close>

section \<open>Registers and tables\<close>

record snow3g_state =
  LFSR_S0 :: u32
  LFSR_S1 :: u32
  LFSR_S2 :: u32
  LFSR_S3 :: u32
  LFSR_S4 :: u32
  LFSR_S5 :: u32
  LFSR_S6 :: u32
  LFSR_S7 :: u32
  LFSR_S8 :: u32
  LFSR_S9 :: u32
  LFSR_S10 :: u32
  LFSR_S11 :: u32
  LFSR_S12 :: u32
  LFSR_S13 :: u32
  LFSR_S14 :: u32
  LFSR_S15 :: u32
  FSM_R1 :: u32
  FSM_R2 :: u32
  FSM_R3 :: u32

definition SR :: "u8 list" where
  "SR = [
    0x63, 0x7C, 0x77, 0x7B, 0xF2, 0x6B, 0x6F, 0xC5, 0x30, 0x01, 0x67, 0x2B, 0xFE, 0xD7, 0xAB, 0x76,
    0xCA, 0x82, 0xC9, 0x7D, 0xFA, 0x59, 0x47, 0xF0, 0xAD, 0xD4, 0xA2, 0xAF, 0x9C, 0xA4, 0x72, 0xC0,
    0xB7, 0xFD, 0x93, 0x26, 0x36, 0x3F, 0xF7, 0xCC, 0x34, 0xA5, 0xE5, 0xF1, 0x71, 0xD8, 0x31, 0x15,
    0x04, 0xC7, 0x23, 0xC3, 0x18, 0x96, 0x05, 0x9A, 0x07, 0x12, 0x80, 0xE2, 0xEB, 0x27, 0xB2, 0x75,
    0x09, 0x83, 0x2C, 0x1A, 0x1B, 0x6E, 0x5A, 0xA0, 0x52, 0x3B, 0xD6, 0xB3, 0x29, 0xE3, 0x2F, 0x84,
    0x53, 0xD1, 0x00, 0xED, 0x20, 0xFC, 0xB1, 0x5B, 0x6A, 0xCB, 0xBE, 0x39, 0x4A, 0x4C, 0x58, 0xCF,
    0xD0, 0xEF, 0xAA, 0xFB, 0x43, 0x4D, 0x33, 0x85, 0x45, 0xF9, 0x02, 0x7F, 0x50, 0x3C, 0x9F, 0xA8,
    0x51, 0xA3, 0x40, 0x8F, 0x92, 0x9D, 0x38, 0xF5, 0xBC, 0xB6, 0xDA, 0x21, 0x10, 0xFF, 0xF3, 0xD2,
    0xCD, 0x0C, 0x13, 0xEC, 0x5F, 0x97, 0x44, 0x17, 0xC4, 0xA7, 0x7E, 0x3D, 0x64, 0x5D, 0x19, 0x73,
    0x60, 0x81, 0x4F, 0xDC, 0x22, 0x2A, 0x90, 0x88, 0x46, 0xEE, 0xB8, 0x14, 0xDE, 0x5E, 0x0B, 0xDB,
    0xE0, 0x32, 0x3A, 0x0A, 0x49, 0x06, 0x24, 0x5C, 0xC2, 0xD3, 0xAC, 0x62, 0x91, 0x95, 0xE4, 0x79,
    0xE7, 0xC8, 0x37, 0x6D, 0x8D, 0xD5, 0x4E, 0xA9, 0x6C, 0x56, 0xF4, 0xEA, 0x65, 0x7A, 0xAE, 0x08,
    0xBA, 0x78, 0x25, 0x2E, 0x1C, 0xA6, 0xB4, 0xC6, 0xE8, 0xDD, 0x74, 0x1F, 0x4B, 0xBD, 0x8B, 0x8A,
    0x70, 0x3E, 0xB5, 0x66, 0x48, 0x03, 0xF6, 0x0E, 0x61, 0x35, 0x57, 0xB9, 0x86, 0xC1, 0x1D, 0x9E,
    0xE1, 0xF8, 0x98, 0x11, 0x69, 0xD9, 0x8E, 0x94, 0x9B, 0x1E, 0x87, 0xE9, 0xCE, 0x55, 0x28, 0xDF,
    0x8C, 0xA1, 0x89, 0x0D, 0xBF, 0xE6, 0x42, 0x68, 0x41, 0x99, 0x2D, 0x0F, 0xB0, 0x54, 0xBB, 0x16]"

definition SQ :: "u8 list" where
  "SQ = [
    0x25, 0x24, 0x73, 0x67, 0xD7, 0xAE, 0x5C, 0x30, 0xA4, 0xEE, 0x6E, 0xCB, 0x7D, 0xB5, 0x82, 0xDB,
    0xE4, 0x8E, 0x48, 0x49, 0x4F, 0x5D, 0x6A, 0x78, 0x70, 0x88, 0xE8, 0x5F, 0x5E, 0x84, 0x65, 0xE2,
    0xD8, 0xE9, 0xCC, 0xED, 0x40, 0x2F, 0x11, 0x28, 0x57, 0xD2, 0xAC, 0xE3, 0x4A, 0x15, 0x1B, 0xB9,
    0xB2, 0x80, 0x85, 0xA6, 0x2E, 0x02, 0x47, 0x29, 0x07, 0x4B, 0x0E, 0xC1, 0x51, 0xAA, 0x89, 0xD4,
    0xCA, 0x01, 0x46, 0xB3, 0xEF, 0xDD, 0x44, 0x7B, 0xC2, 0x7F, 0xBE, 0xC3, 0x9F, 0x20, 0x4C, 0x64,
    0x83, 0xA2, 0x68, 0x42, 0x13, 0xB4, 0x41, 0xCD, 0xBA, 0xC6, 0xBB, 0x6D, 0x4D, 0x71, 0x21, 0xF4,
    0x8D, 0xB0, 0xE5, 0x93, 0xFE, 0x8F, 0xE6, 0xCF, 0x43, 0x45, 0x31, 0x22, 0x37, 0x36, 0x96, 0xFA,
    0xBC, 0x0F, 0x08, 0x52, 0x1D, 0x55, 0x1A, 0xC5, 0x4E, 0x23, 0x69, 0x7A, 0x92, 0xFF, 0x5B, 0x5A,
    0xEB, 0x9A, 0x1C, 0xA9, 0xD1, 0x7E, 0x0D, 0xFC, 0x50, 0x8A, 0xB6, 0x62, 0xF5, 0x0A, 0xF8, 0xDC,
    0x03, 0x3C, 0x0C, 0x39, 0xF1, 0xB8, 0xF3, 0x3D, 0xF2, 0xD5, 0x97, 0x66, 0x81, 0x32, 0xA0, 0x00,
    0x06, 0xCE, 0xF6, 0xEA, 0xB7, 0x17, 0xF7, 0x8C, 0x79, 0xD6, 0xA7, 0xBF, 0x8B, 0x3F, 0x1F, 0x53,
    0x63, 0x75, 0x35, 0x2C, 0x60, 0xFD, 0x27, 0xD3, 0x94, 0xA5, 0x7C, 0xA1, 0x05, 0x58, 0x2D, 0xBD,
    0xD9, 0xC7, 0xAF, 0x6B, 0x54, 0x0B, 0xE0, 0x38, 0x04, 0xC8, 0x9D, 0xE7, 0x14, 0xB1, 0x87, 0x9C,
    0xDF, 0x6F, 0xF9, 0xDA, 0x2A, 0xC4, 0x59, 0x16, 0x74, 0x91, 0xAB, 0x26, 0x61, 0x76, 0x34, 0x2B,
    0xAD, 0x99, 0xFB, 0x72, 0xEC, 0x33, 0x12, 0xDE, 0x98, 0x3B, 0xC0, 0x9B, 0x3E, 0x18, 0x10, 0x3A,
    0x56, 0xE1, 0x77, 0xC9, 0x1E, 0x9E, 0x95, 0xA3, 0x90, 0x19, 0xA8, 0x6C, 0x09, 0xD0, 0xF0, 0x86]"

section \<open>Field arithmetic and S-boxes\<close>

definition MULx :: "u8 \<Rightarrow> u8 \<Rightarrow> u8" where
  "MULx V c = (if V AND 0x80 \<noteq> 0 then shl V 1 XOR c else shl V 1)"

function MULxPOW :: "u8 \<Rightarrow> u8 \<Rightarrow> u8 \<Rightarrow> u8" where
  "MULxPOW V i c = (if i = 0 then V else MULx (MULxPOW V (i - 1) c) c)"
  by pat_completeness auto
termination
  by (relation "measure (\<lambda>(V, i, c). unat i)") (auto simp: unat_minus_one unat_gt_0)

declare MULxPOW.simps [simp del]

definition MULalpha :: "u8 \<Rightarrow> u32" where
  "MULalpha c =
     shl (u32_of (MULxPOW c 23 0xa9)) 24 OR shl (u32_of (MULxPOW c 245 0xa9)) 16 OR
     shl (u32_of (MULxPOW c 48 0xa9)) 8 OR u32_of (MULxPOW c 239 0xa9)"

definition DIValpha :: "u8 \<Rightarrow> u32" where
  "DIValpha c =
     shl (u32_of (MULxPOW c 16 0xa9)) 24 OR shl (u32_of (MULxPOW c 39 0xa9)) 16 OR
     shl (u32_of (MULxPOW c 6 0xa9)) 8 OR u32_of (MULxPOW c 64 0xa9)"

definition S1 :: "u32 \<Rightarrow> u32" where
  "S1 w =
     (let srw0 = SR ! unat (u8_of (shr w 24 AND 0xff));
          srw1 = SR ! unat (u8_of (shr w 16 AND 0xff));
          srw2 = SR ! unat (u8_of (shr w 8 AND 0xff));
          srw3 = SR ! unat (u8_of (w AND 0xff));
          r0 = MULx srw0 0x1b XOR srw1 XOR srw2 XOR (MULx srw3 0x1b XOR srw3);
          r1 = (MULx srw0 0x1b XOR srw0) XOR MULx srw1 0x1b XOR srw2 XOR srw3;
          r2 = srw0 XOR (MULx srw1 0x1b XOR srw1) XOR MULx srw2 0x1b XOR srw3;
          r3 = srw0 XOR srw1 XOR (MULx srw2 0x1b XOR srw2) XOR MULx srw3 0x1b
      in shl (u32_of r0) 24 OR shl (u32_of r1) 16 OR shl (u32_of r2) 8 OR u32_of r3)"

definition S2 :: "u32 \<Rightarrow> u32" where
  "S2 w =
     (let sqw0 = SQ ! unat (u8_of (shr w 24 AND 0xff));
          sqw1 = SQ ! unat (u8_of (shr w 16 AND 0xff));
          sqw2 = SQ ! unat (u8_of (shr w 8 AND 0xff));
          sqw3 = SQ ! unat (u8_of (w AND 0xff));
          r0 = MULx sqw0 0x69 XOR sqw1 XOR sqw2 XOR (MULx sqw3 0x69 XOR sqw3);
          r1 = (MULx sqw0 0x69 XOR sqw0) XOR MULx sqw1 0x69 XOR sqw2 XOR sqw3;
          r2 = sqw0 XOR (MULx sqw1 0x69 XOR sqw1) XOR MULx sqw2 0x69 XOR sqw3;
          r3 = sqw0 XOR sqw1 XOR (MULx sqw2 0x69 XOR sqw2) XOR MULx sqw3 0x69
      in shl (u32_of r0) 24 OR shl (u32_of r1) 16 OR shl (u32_of r2) 8 OR u32_of r3)"

section \<open>Clocking\<close>

definition ClockLFSRInitializationMode :: "u32 \<Rightarrow> snow3g_state \<Rightarrow> snow3g_state" where
  "ClockLFSRInitializationMode F st =
     (let v = (shl (LFSR_S0 st) 8 AND 0xffffff00) XOR MULalpha (u8_of (shr (LFSR_S0 st) 24 AND 0xff)) XOR
              LFSR_S2 st XOR (shr (LFSR_S11 st) 8 AND 0x00ffffff) XOR
              DIValpha (u8_of (LFSR_S11 st AND 0xff)) XOR F
      in st\<lparr>LFSR_S0 := LFSR_S1 st,
       LFSR_S1 := LFSR_S2 st,
       LFSR_S2 := LFSR_S3 st,
       LFSR_S3 := LFSR_S4 st,
       LFSR_S4 := LFSR_S5 st,
       LFSR_S5 := LFSR_S6 st,
       LFSR_S6 := LFSR_S7 st,
       LFSR_S7 := LFSR_S8 st,
       LFSR_S8 := LFSR_S9 st,
       LFSR_S9 := LFSR_S10 st,
       LFSR_S10 := LFSR_S11 st,
       LFSR_S11 := LFSR_S12 st,
       LFSR_S12 := LFSR_S13 st,
       LFSR_S13 := LFSR_S14 st,
       LFSR_S14 := LFSR_S15 st,
       LFSR_S15 := v\<rparr>)"

definition ClockLFSRKeyStreamMode :: "snow3g_state \<Rightarrow> snow3g_state" where
  "ClockLFSRKeyStreamMode st =
     (let v = (shl (LFSR_S0 st) 8 AND 0xffffff00) XOR MULalpha (u8_of (shr (LFSR_S0 st) 24 AND 0xff)) XOR
              LFSR_S2 st XOR (shr (LFSR_S11 st) 8 AND 0x00ffffff) XOR
              DIValpha (u8_of (LFSR_S11 st AND 0xff))
      in st\<lparr>LFSR_S0 := LFSR_S1 st,
       LFSR_S1 := LFSR_S2 st,
       LFSR_S2 := LFSR_S3 st,
       LFSR_S3 := LFSR_S4 st,
       LFSR_S4 := LFSR_S5 st,
       LFSR_S5 := LFSR_S6 st,
       LFSR_S6 := LFSR_S7 st,
       LFSR_S7 := LFSR_S8 st,
       LFSR_S8 := LFSR_S9 st,
       LFSR_S9 := LFSR_S10 st,
       LFSR_S10 := LFSR_S11 st,
       LFSR_S11 := LFSR_S12 st,
       LFSR_S12 := LFSR_S13 st,
       LFSR_S13 := LFSR_S14 st,
       LFSR_S14 := LFSR_S15 st,
       LFSR_S15 := v\<rparr>)"

definition ClockFSM :: "snow3g_state \<Rightarrow> u32 \<times> snow3g_state" where
  "ClockFSM st =
     (let F = ((LFSR_S15 st + FSM_R1 st) AND 0xffffffff) XOR FSM_R2 st;
          r = (FSM_R2 st + (FSM_R3 st XOR LFSR_S5 st)) AND 0xffffffff
      in (F, st\<lparr>FSM_R3 := S2 (FSM_R2 st), FSM_R2 := S1 (FSM_R1 st), FSM_R1 := r\<rparr>))"

section \<open>Initialisation and keystream\<close>

definition snow3g_load :: "u32 list \<Rightarrow> u32 list \<Rightarrow> snow3g_state" where
  "snow3g_load k IV =
     \<lparr>LFSR_S0 = k ! 0 XOR 0xffffffff, LFSR_S1 = k ! 1 XOR 0xffffffff, LFSR_S2 = k ! 2 XOR 0xffffffff,
      LFSR_S3 = k ! 3 XOR 0xffffffff, LFSR_S4 = k ! 0, LFSR_S5 = k ! 1, LFSR_S6 = k ! 2, LFSR_S7 = k ! 3,
      LFSR_S8 = k ! 0 XOR 0xffffffff, LFSR_S9 = k ! 1 XOR 0xffffffff XOR IV ! 3,
      LFSR_S10 = k ! 2 XOR 0xffffffff XOR IV ! 2, LFSR_S11 = k ! 3 XOR 0xffffffff,
      LFSR_S12 = k ! 0 XOR IV ! 1, LFSR_S13 = k ! 1, LFSR_S14 = k ! 2, LFSR_S15 = k ! 3 XOR IV ! 0,
      FSM_R1 = 0x0, FSM_R2 = 0x0, FSM_R3 = 0x0\<rparr>"

text \<open>The \<open>n\<close> remaining rounds of the initialisation loop.\<close>

primrec snow3g_init_rounds :: "nat \<Rightarrow> snow3g_state \<Rightarrow> snow3g_state" where
  "snow3g_init_rounds 0 st = st"
| "snow3g_init_rounds (Suc n) st =
     (let (F, st') = ClockFSM st in snow3g_init_rounds n (ClockLFSRInitializationMode F st'))"

definition snow3g_initialize :: "u32 list \<Rightarrow> u32 list \<Rightarrow> snow3g_state" where
  "snow3g_initialize k IV = snow3g_init_rounds 32 (snow3g_load k IV)"

text \<open>The \<open>n\<close> remaining words of the keystream loop.\<close>

primrec snow3g_ks_rounds :: "nat \<Rightarrow> snow3g_state \<Rightarrow> u32 list \<times> snow3g_state" where
  "snow3g_ks_rounds 0 st = ([], st)"
| "snow3g_ks_rounds (Suc n) st =
     (let (F, st') = ClockFSM st;
          z = F XOR LFSR_S0 st';
          (zs, st'') = snow3g_ks_rounds n (ClockLFSRKeyStreamMode st')
      in (z # zs, st''))"

definition snow3g_generate_keystream :: "u32 \<Rightarrow> snow3g_state \<Rightarrow> u32 list \<times> snow3g_state" where
  "snow3g_generate_keystream n st =
     (let (_, st') = ClockFSM st in snow3g_ks_rounds (unat n) (ClockLFSRKeyStreamMode st'))"

section \<open>f8\<close>

text \<open>Bytes \<open>4 * i\<close> to \<open>4 * i + 3\<close> of a key, most significant first.\<close>

definition snow3g_key_word :: "u8 list \<Rightarrow> nat \<Rightarrow> u32" where
  "snow3g_key_word key i =
     shl (u32_of (key ! (4 * i))) 24 XOR shl (u32_of (key ! (4 * i + 1))) 16 XOR
     shl (u32_of (key ! (4 * i + 2))) 8 XOR u32_of (key ! (4 * i + 3))"

definition snow3g_load_key :: "u8 list \<Rightarrow> u32 list" where
  "snow3g_load_key key = map (\<lambda>j. snow3g_key_word key (3 - j)) [0..<4]"

definition snow3g_f8 :: "u8 list \<Rightarrow> u32 \<Rightarrow> u32 \<Rightarrow> u32 \<Rightarrow> mem \<Rightarrow> int \<Rightarrow> u32 \<Rightarrow> mem" where
  "snow3g_f8 key count bearer dir m data len =
     (let n = (len + 31) div 32;
          lastbits = (8 - len mod 8) mod 8;
          iv3 = count;
          iv2 = shl bearer 27 OR shl (dir AND 0x1) 26;
          (KS, _) = snow3g_generate_keystream n (snow3g_initialize (snow3g_load_key key) [iv2, iv3, iv2, iv3]);
          m' = foldl (\<lambda>m i.
                 let a = data + 4 * int i; w = KS ! i in
                 m(a := m a XOR (u8_of (shr w 24) AND 0xff),
                   a + 1 := m (a + 1) XOR (u8_of (shr w 16) AND 0xff),
                   a + 2 := m (a + 2) XOR (u8_of (shr w 8) AND 0xff),
                   a + 3 := m (a + 3) XOR (u8_of w AND 0xff))) m [0..<unat n];
          last = data + uint (len div 8)
      in if lastbits \<noteq> 0 then m'(last := m' last AND u8_of (256 - shl 1 (unat lastbits) :: u32)) else m')"

section \<open>f9\<close>

definition MUL64x :: "u64 \<Rightarrow> u64 \<Rightarrow> u64" where
  "MUL64x V c = (if V AND 0x8000000000000000 \<noteq> 0 then shl V 1 XOR c else shl V 1)"

function MUL64xPOW :: "u64 \<Rightarrow> u8 \<Rightarrow> u64 \<Rightarrow> u64" where
  "MUL64xPOW V i c = (if i = 0 then V else MUL64x (MUL64xPOW V (i - 1) c) c)"
  by pat_completeness auto
termination
  by (relation "measure (\<lambda>(V, i, c). unat i)") (auto simp: unat_minus_one unat_gt_0)

declare MUL64xPOW.simps [simp del]

definition MUL64 :: "u64 \<Rightarrow> u64 \<Rightarrow> u64 \<Rightarrow> u64" where
  "MUL64 V P c =
     foldl (\<lambda>result i. if shr P i AND 0x1 \<noteq> 0 then result XOR MUL64xPOW V (of_nat i) c else result) 0 [0..<64]"

definition mask8bit :: "nat \<Rightarrow> u8" where
  "mask8bit n = u8_of (0xFF XOR (shl 1 (8 - n) - 1) :: u32)"

text \<open>The eight bytes from index \<open>j\<close>, most significant first.\<close>

definition f9_block :: "u8 list \<Rightarrow> nat \<Rightarrow> u64" where
  "f9_block data j =
     shl (u64_of (data ! j)) 56 OR shl (u64_of (data ! (j + 1))) 48 OR
     shl (u64_of (data ! (j + 2))) 40 OR shl (u64_of (data ! (j + 3))) 32 OR
     shl (u64_of (data ! (j + 4))) 24 OR shl (u64_of (data ! (j + 5))) 16 OR
     shl (u64_of (data ! (j + 6))) 8 OR u64_of (data ! (j + 7))"

text \<open>The \<open>while\<close> loop over the whole bytes of the last block, and the masked rest.\<close>

function f9_tail :: "u8 list \<Rightarrow> nat \<Rightarrow> nat \<Rightarrow> nat \<Rightarrow> u64 \<Rightarrow> u64" where
  "f9_tail data base rem_bits i M =
     (if rem_bits > 7
      then f9_tail data base (rem_bits - 8) (i + 1) (M OR shl (u64_of (data ! (base + i))) (8 * (7 - i)))
      else if rem_bits > 0
      then M OR shl (u64_of (data ! (base + i) AND mask8bit rem_bits)) (8 * (7 - i))
      else M)"
  by pat_completeness auto
termination
  by (relation "measure (\<lambda>(data, base, rem_bits, i, M). rem_bits)") auto

declare f9_tail.simps [simp del]

text \<open>
  The universal hash of \<open>snow3g_f9\<close> for the keystream words \<open>P\<close> and \<open>Q\<close>: the loop over the whole
  blocks, the last block, the length.
\<close>

definition f9_eval :: "u64 \<Rightarrow> u64 \<Rightarrow> u8 list \<Rightarrow> u64 \<Rightarrow> u64" where
  "f9_eval P Q data len =
     (let D = (if len mod 64 = 0 then u32_of (shr len 6 + 1) else u32_of (shr len 6 + 2));
          c = 0x1b;
          EVAL = foldl (\<lambda>E i. MUL64 (E XOR f9_block data (8 * i)) P c) 0 [0..<unat (D - 2)];
          rem_bits = (if len mod 64 = 0 then 64 else unat (len mod 64));
          M_D_2 = f9_tail data (8 * unat (D - 2)) rem_bits 0 0;
          EVAL = MUL64 (EVAL XOR M_D_2) P c;
          EVAL = EVAL XOR len
      in MUL64 EVAL Q c)"

text \<open>
  A length of 0 gives \<open>D = 1\<close>, and the loop bound \<open>D - 2\<close> wraps: the code leaves the array.
  From \<open>2 ^ 32\<close> bits on the index \<open>8 * i\<close> would have to be taken modulo \<open>2 ^ 32\<close>;
  the callers pass \<open>msg_len * 8\<close> computed in 32 bits, so such lengths do not occur.
\<close>

definition snow3g_f9 :: "u8 list \<Rightarrow> u32 \<Rightarrow> u32 \<Rightarrow> u32 \<Rightarrow> u8 list \<Rightarrow> u64 \<Rightarrow> u8 list option" where
  "snow3g_f9 key count fresh dir data len =
     (if len = 0 \<or> unat len \<ge> 2 ^ 32 \<or> length data < (unat len + 7) div 8 \<or> length key < 16 then None
      else
        let IV = [fresh XOR shl dir 15, count XOR shl dir 31, fresh, count];
            (z, _) = snow3g_generate_keystream 5 (snow3g_initialize (snow3g_load_key key) IV);
            P = shl (u64_of (z ! 0)) 32 OR u64_of (z ! 1);
            Q = shl (u64_of (z ! 2)) 32 OR u64_of (z ! 3);
            EVAL = f9_eval P Q data len
        in Some (map (\<lambda>i. u8_of ((shr EVAL (56 - i * 8) XOR u64_of (shr (z ! 4) (24 - i * 8))) AND 0xff)) [0..<4]))"

section \<open>Lemmas\<close>

lemma length_SR [simp]: "length SR = 256" and length_SQ [simp]: "length SQ = 256"
  by (simp_all add: SR_def SQ_def)

lemma MULxPOW_0 [simp]: "MULxPOW V 0 c = V"
  by (simp add: MULxPOW.simps)

text \<open>\<open>MULxPOW\<close> is the \<open>i\<close>-fold iteration of \<open>MULx\<close>.\<close>

lemma MULxPOW_iter: "MULxPOW V i c = ((\<lambda>v. MULx v c) ^^ unat i) V"
proof (induction V i c rule: MULxPOW.induct)
  case (1 V i c)
  show ?case
  proof (cases "i = 0")
    case True
    then show ?thesis by (simp add: MULxPOW.simps)
  next
    case False
    then have "unat i = Suc (unat (i - 1))"
      by (simp add: unat_minus_one unat_gt_0)
    with False 1 show ?thesis by (simp add: MULxPOW.simps [of V i c])
  qed
qed

text \<open>Multiplication by \<open>x\<close> in the field is additive.\<close>

lemma MULx_xor: "MULx (a XOR b) c = MULx a c XOR MULx b c"
proof -
  have m: "x AND 0x80 \<noteq> 0 \<longleftrightarrow> bit x 7" for x :: u8
    using and_exp_eq_0_iff_not_bit [of x 7] by simp
  show ?thesis
    by (simp add: MULx_def m bit_xor_iff) (simp add: push_bit_xor xor.assoc xor.left_commute xor.commute)
qed

lemma MULx_0 [simp]: "MULx 0 c = 0"
  by (simp add: MULx_def)

lemma MUL64x_xor: "MUL64x (a XOR b) c = MUL64x a c XOR MUL64x b c"
proof -
  have m: "x AND 0x8000000000000000 \<noteq> 0 \<longleftrightarrow> bit x 63" for x :: u64
    using and_exp_eq_0_iff_not_bit [of x 63] by simp
  show ?thesis
    by (simp add: MUL64x_def m bit_xor_iff) (simp add: push_bit_xor xor.assoc xor.left_commute xor.commute)
qed

lemma MUL64xPOW_0 [simp]: "MUL64xPOW V 0 c = V"
  by (simp add: MUL64xPOW.simps)

lemma MUL64xPOW_xor: "MUL64xPOW (a XOR b) i c = MUL64xPOW a i c XOR MUL64xPOW b i c"
proof (induction a i c rule: MUL64xPOW.induct)
  case (1 a i c)
  then show ?case
    by (cases "i = 0") (simp, simp add: MUL64xPOW.simps [of _ i] MUL64x_xor)
qed

lemma length_snow3g_ks_rounds [simp]: "length (fst (snow3g_ks_rounds n st)) = n"
proof (induction n arbitrary: st)
  case (Suc n)
  show ?case
    using Suc.IH [of "ClockLFSRKeyStreamMode (snd (ClockFSM st))"]
    by (simp add: case_prod_unfold Let_def)
qed simp

lemma length_snow3g_keystream [simp]: "length (fst (snow3g_generate_keystream n st)) = unat n"
  by (simp add: snow3g_generate_keystream_def split: prod.splits)

section \<open>f9 is a polynomial hash of the message bits\<close>

text \<open>
  The specification of the hash: the message is a bit string, cut into blocks of 64 bits, the
  last one padded with zeros; each block is added to the accumulator, which is then multiplied by
  \<open>P\<close>; the length is added and the sum multiplied by \<open>Q\<close>.
\<close>

definition uia2_block :: "(nat \<Rightarrow> bool) \<Rightarrow> nat \<Rightarrow> nat \<Rightarrow> u64" where
  "uia2_block b len i =
     horner_sum of_bool 2 (map (\<lambda>n. 64 * i + (63 - n) < len \<and> b (64 * i + (63 - n))) [0..<64])"

text \<open>
  The product in GF(2^64) with the polynomial \<open>x^64 + x^4 + x^3 + x + 1\<close>: multiplication by \<open>x\<close> drops the
  coefficient of \<open>x^63\<close> and adds the rest of the polynomial for it; the product runs through the coefficients of
  the second factor from the highest, by Horner's rule.
\<close>

definition gf64_x :: "u64 \<Rightarrow> u64" where
  "gf64_x V = (if bit V 63 then shl V 1 XOR 0x1b else shl V 1)"

primrec gf64_horner :: "u64 \<Rightarrow> u64 \<Rightarrow> nat \<Rightarrow> u64" where
  "gf64_horner V P 0 = 0"
| "gf64_horner V P (Suc n) = gf64_x (gf64_horner V P n) XOR (if bit P (63 - n) then V else 0)"

definition gf64_mul :: "u64 \<Rightarrow> u64 \<Rightarrow> u64" where
  "gf64_mul V P = gf64_horner V P 64"

definition uia2_hash :: "u64 \<Rightarrow> u64 \<Rightarrow> (nat \<Rightarrow> bool) \<Rightarrow> nat \<Rightarrow> u64" where
  "uia2_hash P Q b len =
     gf64_mul (foldl (\<lambda>E B. gf64_mul (E XOR B) P) 0 (map (uia2_block b len) [0..<(len + 63) div 64]) XOR of_nat len) Q"

text \<open>The table-free product of the code, a sum of powers from the lowest coefficient, is the product in the field.\<close>

lemma MUL64x_gf64: "MUL64x V 0x1b = gf64_x V"
proof -
  have "x AND 0x8000000000000000 \<noteq> 0 \<longleftrightarrow> bit x 63" for x :: u64
    using and_exp_eq_0_iff_not_bit [of x 63] by simp
  then show ?thesis by (simp add: MUL64x_def gf64_x_def)
qed

lemma gf64_x_xor: "gf64_x (a XOR b) = gf64_x a XOR gf64_x b"
  by (simp only: MUL64x_xor flip: MUL64x_gf64)

lemma gf64_x_0 [simp]: "gf64_x 0 = 0"
  by (simp add: gf64_x_def)

lemma MUL64xPOW_gf64: "MUL64xPOW V i 0x1b = (gf64_x ^^ unat i) V"
proof (induction V i "0x1b :: u64" rule: MUL64xPOW.induct)
  case (1 V i)
  show ?case
  proof (cases "i = 0")
    case False
    then have "unat i = Suc (unat (i - 1))" by (simp add: unat_minus_one unat_gt_0)
    with False 1 show ?thesis by (simp add: MUL64xPOW.simps [of V i] MUL64x_gf64)
  qed simp
qed

lemma foldl_gf64_x:
  "foldl (\<lambda>r i. if p i then r XOR gf64_x (w i) else r) (c XOR gf64_x a) is =
     c XOR gf64_x (foldl (\<lambda>r i. if p i then r XOR w i else r) a is)"
  by (induction "is" arbitrary: a) (simp_all add: xor.assoc flip: gf64_x_xor)

lemma funpow_gf64_x_Suc: "(gf64_x ^^ Suc i) V = gf64_x ((gf64_x ^^ i) V)"
  by simp

lemma gf64_horner_powers:
  "n \<le> 64 \<Longrightarrow>
   gf64_horner V P n = foldl (\<lambda>r i. if bit P (64 - n + i) then r XOR (gf64_x ^^ i) V else r) 0 [0..<n]"
proof (induction n)
  case (Suc n)
  let ?g = "\<lambda>r i. if bit P (64 - n + i) then r XOR (gf64_x ^^ i) V else r"
  let ?c = "if bit P (63 - n) then V else 0"
  have s: "64 - Suc n + Suc i = 64 - n + i" for i using Suc.prems by simp
  have u: "[0..<Suc n] = 0 # map Suc [0..<n]" by (simp add: upt_conv_Cons map_Suc_upt del: upt_Suc)
  have "foldl (\<lambda>r i. if bit P (64 - Suc n + i) then r XOR (gf64_x ^^ i) V else r) 0 [0..<Suc n] =
      foldl (\<lambda>r i. if bit P (64 - n + i) then r XOR gf64_x ((gf64_x ^^ i) V) else r) (?c XOR gf64_x 0) [0..<n]"
    unfolding u foldl_map foldl.simps s funpow_gf64_x_Suc by simp
  also have "\<dots> = ?c XOR gf64_x (foldl ?g 0 [0..<n])" by (rule foldl_gf64_x)
  also have "\<dots> = gf64_horner V P (Suc n)" using Suc by (simp add: xor.commute del: upt_Suc)
  finally show ?case by simp
qed simp

lemma MUL64_gf64: "MUL64 V P 0x1b = gf64_mul V P"
proof -
  have "shr P i AND 1 \<noteq> 0 \<longleftrightarrow> bit P i" for i
    by (simp add: and_one_eq bit_iff_odd_drop_bit mod_2_eq_odd)
  moreover have "unat (of_nat i :: u8) = i" if "i \<in> set [0..<64]" for i
    using that by (simp add: unat_of_nat)
  ultimately show ?thesis
    unfolding MUL64_def gf64_mul_def by (subst gf64_horner_powers) (simp, rule foldl_cong, simp_all add: MUL64xPOW_gf64)
qed

lemma uia2_hash_MUL64:
  "uia2_hash P Q b len =
     MUL64 (foldl (\<lambda>E B. MUL64 (E XOR B) P 0x1b) 0 (map (uia2_block b len) [0..<(len + 63) div 64]) XOR of_nat len)
       Q 0x1b"
  by (simp only: uia2_hash_def MUL64_gf64)

lemma bit_uia2_block:
  "bit (uia2_block b len i) n \<longleftrightarrow> n < 64 \<and> 64 * i + (63 - n) < len \<and> b (64 * i + (63 - n))"
  by (auto simp: uia2_block_def bit_horner_sum_bit_word_iff)

lemma bit_byte_at:
  assumes "k < 8"
  shows "bit (shl (u64_of (a :: u8)) (8 * k)) n \<longleftrightarrow> n div 8 = k \<and> bit a (n mod 8)"
proof (cases "n div 8 = k")
  case True
  then have "n - 8 * k = n mod 8" "8 * k \<le> n" "n < 64" "n mod 8 < 64"
    using assms by (auto simp: minus_mult_div_eq_mod [symmetric])
  with True show ?thesis by (simp add: bit_push_bit_iff bit_ucast_iff)
next
  case False
  have "\<not> (8 * k \<le> n \<and> n - 8 * k < 8)"
  proof
    assume "8 * k \<le> n \<and> n - 8 * k < 8"
    then have "8 * k \<le> n" "n < 8 * k + 8" by linarith+
    then have "n div 8 = k" by (intro div_nat_eqI) simp_all
    with False show False by simp
  qed
  with False show ?thesis
    by (auto simp: bit_push_bit_iff bit_ucast_iff dest: bit_imp_le_length)
qed

lemma block_bit_index:
  assumes "(n :: nat) < 64"
  shows "(64 * i + (63 - n)) div 8 = 8 * i + (7 - n div 8)" "7 - (64 * i + (63 - n)) mod 8 = n mod 8"
proof -
  define q t where "q = n div 8" and "t = n mod 8"
  have "q < 8" "t < 8" "n = 8 * q + t" using assms by (simp_all add: q_def t_def)
  then have "64 * i + (63 - n) = 8 * (8 * i + (7 - q)) + (7 - t)" by arith
  then have e: "64 * i + (63 - n) = 8 * (8 * i + (7 - n div 8)) + (7 - n mod 8)" by (simp only: q_def t_def)
  have g: "(8 * a + b) div 8 = a" "(8 * a + b) mod 8 = b" if "b < 8" for a b :: nat
    using that by simp_all
  have b: "7 - n mod 8 < 8" by simp
  show "(64 * i + (63 - n)) div 8 = 8 * i + (7 - n div 8)" by (simp only: e g [OF b])
  have "n mod 8 < 8" by simp
  then have "7 - (7 - n mod 8) = n mod 8" by linarith
  then show "7 - (64 * i + (63 - n)) mod 8 = n mod 8" by (simp only: e g [OF b])
qed

lemma bit_f9_block:
  assumes "n < 64"
  shows "bit (f9_block data (8 * i)) n \<longleftrightarrow> msg_bit data (64 * i + (63 - n))"
proof -
  note d = block_bit_index [OF assms]
  have "n div 8 < 8" using assms by simp
  then consider "n div 8 = 0" | "n div 8 = 1" | "n div 8 = 2" | "n div 8 = 3" | "n div 8 = 4"
    | "n div 8 = 5" | "n div 8 = 6" | "n div 8 = 7" by linarith
  then show ?thesis
    unfolding msg_bit_def d f9_block_def
    using bit_byte_at [of 7 _ n] bit_byte_at [of 6 _ n] bit_byte_at [of 5 _ n] bit_byte_at [of 4 _ n]
      bit_byte_at [of 3 _ n] bit_byte_at [of 2 _ n] bit_byte_at [of 1 _ n] bit_byte_at [of 0 _ n]
    by cases (simp_all add: bit_or_iff add.commute)
qed

lemma bit_mask8bit:
  assumes "0 < r" "r < 8"
  shows "bit (mask8bit r) j \<longleftrightarrow> j < 8 \<and> 8 - r \<le> j"
proof -
  have "mask8bit r = NOT (mask (8 - r))"
  proof -
    consider "r = 1" | "r = 2" | "r = 3" | "r = 4" | "r = 5" | "r = 6" | "r = 7"
      using assms by linarith
    then show ?thesis by cases (simp_all add: mask8bit_def mask_eq_exp_minus_1 not_eq_complement)
  qed
  then show ?thesis by (auto simp: bit_not_iff bit_mask_iff)
qed

lemma bit_f9_tail:
  assumes "r + 8 * i \<le> 64" "n < 64"
  shows "bit (f9_tail data base r i M) n \<longleftrightarrow>
    bit M n \<or> i \<le> 7 - n div 8 \<and> 8 * (7 - n div 8 - i) + (7 - n mod 8) < r \<and>
      bit (data ! (base + (7 - n div 8))) (n mod 8)"
  using assms
proof (induction data base r i M rule: f9_tail.induct)
  case (1 data base r i M)
  define q t where "q = 7 - n div 8" and "t = n mod 8"
  have q: "n div 8 = 7 - q" "q < 8" "t < 8" using 1(3) by (auto simp: q_def t_def)
  have at: "bit (shl (u64_of a) (8 * (7 - i))) n \<longleftrightarrow> q = i \<and> bit a t" if "i < 8" for a :: u8
    using bit_byte_at [of "7 - i" a n] q that by (auto simp: t_def [symmetric])
  consider "7 < r" | "0 < r" "r < 8" | "r = 0" by linarith
  then show ?case
  proof cases
    case 1
    then have i: "i < 8" "\<not> r = 0" using "1.prems"(1) by linarith+
    have IH: "bit (f9_tail data base (r - 8) (Suc i) (M OR shl (u64_of (data ! (base + i))) (8 * (7 - i)))) n \<longleftrightarrow>
        (bit M n \<or> q = i \<and> bit (data ! (base + i)) t) \<or>
        i + 1 \<le> q \<and> 8 * (q - (i + 1)) + (7 - t) < r - 8 \<and> bit (data ! (base + q)) t"
      using "1.IH" [OF 1] "1.prems" 1 i by (simp add: bit_or_iff at q_def t_def)
    have "i + 1 \<le> q \<and> 8 * (q - (i + 1)) + (7 - t) < r - 8 \<longleftrightarrow> q \<noteq> i \<and> i \<le> q \<and> 8 * (q - i) + (7 - t) < r"
      using 1 by (cases "i + 1 \<le> q") auto
    moreover have "7 - t < r" using 1 by linarith
    ultimately show ?thesis
      using 1 unfolding f9_tail.simps [of data base r] by (auto simp: IH q_def [symmetric] t_def [symmetric])
  next
    case 2
    then have i: "i < 8" using "1.prems"(1) by linarith
    have "8 * (q - i) + (7 - t) < r \<and> i \<le> q \<longleftrightarrow> q = i \<and> 7 - t < r" using 2 by (cases "q = i") auto
    moreover have "7 - t < r \<longleftrightarrow> 8 - r \<le> t" using 2 q by linarith
    ultimately show ?thesis
      using 2 i q unfolding f9_tail.simps [of data base r]
      by (auto simp: bit_or_iff at bit_and_iff bit_mask8bit q_def [symmetric] t_def [symmetric])
  qed (simp add: f9_tail.simps)
qed

lemma f9_tail_uia2:
  assumes "0 < r" "r \<le> 64" "len = 64 * i + r"
  shows "f9_tail data (8 * i) r 0 0 = uia2_block (msg_bit data) len i"
proof (rule bit_word_eqI)
  fix n
  assume "n < LENGTH(64)"
  then have n: "n < 64" by simp
  have "8 * (7 - n div 8) + (7 - n mod 8) = 63 - n"
  proof -
    define q t where "q = n div 8" and "t = n mod 8"
    have "q < 8" "t < 8" "n = 8 * q + t" using n by (simp_all add: q_def t_def)
    then have "8 * (7 - q) + (7 - t) = 63 - n" by arith
    then show ?thesis by (simp only: q_def t_def)
  qed
  then show "bit (f9_tail data (8 * i) r 0 0) n = bit (uia2_block (msg_bit data) len i) n"
    using bit_f9_tail [of r 0 n data "8 * i" 0] assms n
    by (simp only: bit_uia2_block msg_bit_def block_bit_index [OF n])
      (simp only: bit_0_eq bot_apply bot_bool_def diff_zero mult_0_right add_0_right le0 simp_thms nat_add_left_cancel_less)
qed

lemma f9_block_uia2:
  assumes "64 * i + 64 \<le> len"
  shows "f9_block data (8 * i) = uia2_block (msg_bit data) len i"
  by (rule bit_word_eqI) (use assms in \<open>auto simp: bit_f9_block bit_uia2_block\<close>)

lemma f9_block_count:
  assumes "0 < unat (len :: u64)" "unat len < 2 ^ 32"
  defines "D \<equiv> if len mod 64 = 0 then u32_of (shr len 6 + 1) else u32_of (shr len 6 + 2)"
    and "r \<equiv> if len mod 64 = 0 then 64 else unat (len mod 64)"
  shows "Suc (unat (D - 2)) = (unat len + 63) div 64" "0 < r" "r \<le> 64" "unat len = 64 * unat (D - 2) + r"
proof -
  let ?l = "unat len"
  have m: "unat (len mod 64) = ?l mod 64" by (simp add: unat_mod_distrib)
  then have z: "len mod 64 = 0 \<longleftrightarrow> ?l mod 64 = 0" by (metis unat_0 unat_eq_zero)
  have q: "unat (shr len 6) = ?l div 64" by (simp add: unat_shr)
  have b: "?l div 64 < 2 ^ 26" using assms(2) by (simp add: div_less_iff_less_mult)
  have u: "unat (u32_of (shr len 6 + k)) = ?l div 64 + unat k" if "unat k \<le> 2" for k :: u64
    using b that q by (simp add: unat_word_ariths unsigned_ucast_eq take_bit_eq_mod)
  have D: "unat D = (if ?l mod 64 = 0 then ?l div 64 + 1 else ?l div 64 + 2)"
    unfolding D_def z using u [of 1] u [of 2] by simp
  have "2 \<le> unat D"
    using D assms(1) by (auto split: if_splits)
  then have "2 \<le> D" by (simp add: word_le_nat_alt)
  then have D2: "unat (D - 2) = unat D - 2" by (simp add: unat_sub)
  show "Suc (unat (D - 2)) = (?l + 63) div 64"
  proof (cases "?l mod 64 = 0")
    case True
    then obtain k where k: "?l = 64 * k" by (auto simp: mod_eq_0_iff_dvd dvd_def)
    have "(64 * k + 63) div 64 = k" by (simp add: div_add1_eq)
    with k True assms(1) show ?thesis unfolding D2 D by simp
  next
    case False
    define q t where "q = ?l div 64" and "t = ?l mod 64"
    have "0 < t" "?l = 64 * q + t" using False by (simp_all add: q_def t_def)
    then have "?l + 63 = 64 * (q + 1) + (t - 1)" by arith
    then have "?l + 63 = 64 * (?l div 64 + 1) + (?l mod 64 - 1)" by (simp only: q_def t_def)
    moreover have "?l mod 64 - 1 < 64" using mod_less_divisor [of 64 ?l] by linarith
    ultimately have "(?l + 63) div 64 = ?l div 64 + 1" by simp
    with False show ?thesis unfolding D2 D by simp
  qed
  show "0 < r" "r \<le> 64"
    using m by (auto simp: r_def z)
  show "?l = 64 * unat (D - 2) + r"
    unfolding D2 D r_def z m using assms(1) by auto
qed

lemma f9_eval_uia2:
  assumes "0 < unat len" "unat len < 2 ^ 32"
  shows "f9_eval P Q data len = uia2_hash P Q (msg_bit data) (unat len)"
proof -
  define D where "D = (if len mod 64 = 0 then u32_of (shr len 6 + 1) else u32_of (shr len 6 + 2))"
  define r where "r = (if len mod 64 = 0 then 64 else unat (len mod 64))"
  let ?n = "unat (D - 2)" and ?B = "uia2_block (msg_bit data) (unat len)"
  note c = f9_block_count [OF assms, folded D_def r_def]
  have "foldl (\<lambda>E i. MUL64 (E XOR f9_block data (8 * i)) P 0x1b) 0 [0..<?n] =
      foldl (\<lambda>E B. MUL64 (E XOR B) P 0x1b) 0 (map ?B [0..<?n])"
    unfolding foldl_map
  proof (rule foldl_cong)
    fix a i
    assume "i \<in> set [0..<?n]"
    then have "64 * i + 64 \<le> unat len" using c(4) by simp
    then show "MUL64 (a XOR f9_block data (8 * i)) P 0x1b = MUL64 (a XOR ?B i) P 0x1b"
      by (simp only: f9_block_uia2)
  qed simp_all
  moreover have "f9_tail data (8 * ?n) r 0 0 = ?B ?n"
    by (rule f9_tail_uia2 [OF c(2-4)])
  moreover have "[0..<(unat len + 63) div 64] = [0..<?n] @ [?n]"
    by (simp add: c(1) [symmetric])
  ultimately show ?thesis
    by (simp add: f9_eval_def uia2_hash_MUL64 Let_def D_def [symmetric] r_def [symmetric])
qed

text \<open>The hash is additive in the message: every step of it is.\<close>

lemma MUL64_xor: "MUL64 (a XOR b) P c = MUL64 a P c XOR MUL64 b P c"
proof -
  let ?s = "\<lambda>V result i. if shr P i AND 0x1 \<noteq> 0 then result XOR MUL64xPOW V (of_nat i) c else result"
  have "foldl (?s (a XOR b)) (x XOR y) is = foldl (?s a) x is XOR foldl (?s b) y is" for x y "is"
  proof (induction "is" arbitrary: x y)
    case (Cons i "is")
    have "?s (a XOR b) (x XOR y) i = ?s a x i XOR ?s b y i"
      by (simp add: MUL64xPOW_xor xor.assoc xor.left_commute)
    with Cons show ?case by simp
  qed simp
  from this [of 0 0] show ?thesis by (simp add: MUL64_def)
qed

lemma MUL64_0 [simp]: "MUL64 0 P c = 0"
  using MUL64_xor [of 0 0 P c] by simp

lemma foldl_hash_xor:
  "length xs = length ys \<Longrightarrow>
   foldl (\<lambda>E B. MUL64 (E XOR B) P c) (e XOR f) (map2 (XOR) xs ys) =
     foldl (\<lambda>E B. MUL64 (E XOR B) P c) e xs XOR foldl (\<lambda>E B. MUL64 (E XOR B) P c) f ys"
proof (induction xs ys arbitrary: e f rule: list_induct2)
  case (Cons x xs y ys)
  have "MUL64 ((e XOR f) XOR (x XOR y)) P c = MUL64 (e XOR x) P c XOR MUL64 (f XOR y) P c"
    by (simp only: flip: MUL64_xor) (simp add: xor.assoc xor.left_commute)
  with Cons.IH show ?case by simp
qed simp

lemma uia2_block_xor:
  "uia2_block (\<lambda>p. b p \<noteq> b' p) len i = uia2_block b len i XOR uia2_block b' len i"
  by (rule bit_word_eqI) (auto simp: bit_uia2_block bit_xor_iff)

text \<open>The difference of two hashes depends on the difference of the messages only.\<close>

lemma uia2_hash_xor:
  "uia2_hash P Q (\<lambda>p. b p \<noteq> b' p) len XOR uia2_hash P Q (\<lambda>_. False) len =
     uia2_hash P Q b len XOR uia2_hash P Q b' len"
proof -
  let ?F = "\<lambda>b. foldl (\<lambda>E B. MUL64 (E XOR B) P 0x1b) 0 (map (uia2_block b len) [0..<(len + 63) div 64])"
  have b0: "uia2_block (\<lambda>_. False) len i = 0" for i
    by (rule bit_word_eqI) (simp add: bit_uia2_block)
  have "foldl (\<lambda>E B. MUL64 (E XOR B) P 0x1b) 0 (map (uia2_block (\<lambda>_. False) len) is) = 0" for "is"
    by (induction "is") (simp_all add: b0)
  then have z: "?F (\<lambda>_. False) = 0" .
  have "map (uia2_block (\<lambda>p. b p \<noteq> b' p) len) is =
      map2 (XOR) (map (uia2_block b len) is) (map (uia2_block b' len) is)" for "is"
    by (induction "is") (simp_all add: uia2_block_xor [simplified])
  then have "?F (\<lambda>p. b p \<noteq> b' p) = ?F b XOR ?F b'"
    using foldl_hash_xor [of "map (uia2_block b len) [0..<(len + 63) div 64]"
        "map (uia2_block b' len) [0..<(len + 63) div 64]" P "0x1b" 0 0] by simp
  with z show ?thesis
    unfolding uia2_hash_MUL64 by (simp add: MUL64_xor xor.assoc xor.left_commute xor.commute)
qed

lemma xor_bytes_msg_bit:
  assumes "length a = length b" "p < 8 * length a"
  shows "msg_bit (xor_bytes a b) p \<longleftrightarrow> msg_bit a p \<noteq> msg_bit b p"
proof -
  have "p div 8 < length a" using assms(2) by (simp add: div_less_iff_less_mult mult.commute)
  with assms(1) show ?thesis by (simp add: msg_bit_def bit_xor_iff)
qed

lemma uia2_hash_cong:
  assumes "\<And>p. p < len \<Longrightarrow> b p = b' p"
  shows "uia2_hash P Q b len = uia2_hash P Q b' len"
proof -
  have "uia2_block b len = uia2_block b' len"
    by (intro ext bit_word_eqI) (use assms in \<open>auto simp: bit_uia2_block\<close>)
  then show ?thesis by (simp add: uia2_hash_def)
qed

section \<open>Properties\<close>

text \<open>C19. The integrity function \<open>snow3g_f9\<close>, with its shift-and-add multiplication, its block loop, its byte-wise
  last block and its wrap-around block counter, computes for every length from 1 to 2^32 - 1 bits the
  polynomial hash of UIA2 over GF(2^64) on the message bits, keyed by the first four keystream words and folded
  with the fifth. The bits after the given length do not count.\<close>

theorem snow3g_f9_is_uia2:
  assumes "0 < unat len" "unat len < 2 ^ 32" "(unat len + 7) div 8 \<le> length data" "16 \<le> length key"
    and "z = fst (snow3g_generate_keystream 5 (snow3g_initialize (snow3g_load_key key)
               [fresh XOR shl dir 15, count XOR shl dir 31, fresh, count]))"
  shows "snow3g_f9 key count fresh dir data len =
    Some (map (\<lambda>i. u8_of ((shr (uia2_hash (shl (u64_of (z ! 0)) 32 OR u64_of (z ! 1))
                                   (shl (u64_of (z ! 2)) 32 OR u64_of (z ! 3)) (msg_bit data) (unat len)) (56 - i * 8)
                          XOR u64_of (shr (z ! 4) (24 - i * 8))) AND 0xff)) [0..<4])"
proof -
  have "len \<noteq> 0" using assms(1) by auto
  with assms show ?thesis
    by (simp add: snow3g_f9_def Let_def case_prod_unfold f9_eval_uia2 del: upt_Suc)
qed

lemma snow3g_f9_is_uia2_witness:
  "snow3g_f9 (replicate 16 7) 5 3 1 [1, 2, 0xF0] 20 =
    Some (map (\<lambda>i. u8_of ((shr (uia2_hash
      (shl (u64_of (fst (snow3g_generate_keystream 5 (snow3g_initialize (snow3g_load_key (replicate 16 7))
          [3 XOR shl 1 15, 5 XOR shl 1 31, 3, 5])) ! 0)) 32 OR
       u64_of (fst (snow3g_generate_keystream 5 (snow3g_initialize (snow3g_load_key (replicate 16 7))
          [3 XOR shl 1 15, 5 XOR shl 1 31, 3, 5])) ! 1))
      (shl (u64_of (fst (snow3g_generate_keystream 5 (snow3g_initialize (snow3g_load_key (replicate 16 7))
          [3 XOR shl 1 15, 5 XOR shl 1 31, 3, 5])) ! 2)) 32 OR
       u64_of (fst (snow3g_generate_keystream 5 (snow3g_initialize (snow3g_load_key (replicate 16 7))
          [3 XOR shl 1 15, 5 XOR shl 1 31, 3, 5])) ! 3))
      (msg_bit [1, 2, 0xF0]) (unat (20 :: u64))) (56 - i * 8)
      XOR u64_of (shr (fst (snow3g_generate_keystream 5 (snow3g_initialize (snow3g_load_key (replicate 16 7))
          [3 XOR shl 1 15, 5 XOR shl 1 31, 3, 5])) ! 4) (24 - i * 8))) AND 0xff)) [0..<4])"
  by (rule snow3g_f9_is_uia2) simp_all

text \<open>For one key, COUNT, FRESH and direction the hash of \<open>snow3g_f9\<close> is affine in the message: the
  sum of the hashes of two messages of one length is the hash of their sum plus the hash of the zero
  message. The MAC protects because of the keystream word added to it, not by itself.\<close>

theorem f9_hash_affine:
  assumes "0 < unat len" "unat len < 2 ^ 32" "unat len \<le> 8 * length a" "length a = length b"
  shows "f9_eval P Q a len XOR f9_eval P Q b len =
    f9_eval P Q (xor_bytes a b) len XOR f9_eval P Q (replicate (length a) 0) len"
proof -
  have "uia2_hash P Q (msg_bit (xor_bytes a b)) (unat len) = uia2_hash P Q (\<lambda>p. msg_bit a p \<noteq> msg_bit b p) (unat len)"
    by (rule uia2_hash_cong) (use assms in \<open>simp add: xor_bytes_msg_bit\<close>)
  moreover have "uia2_hash P Q (msg_bit (replicate (length a) 0)) (unat len) = uia2_hash P Q (\<lambda>_. False) (unat len)"
  proof (rule uia2_hash_cong)
    fix p
    assume "p < unat len"
    then have "p div 8 < length a" using assms(3) by (simp add: div_less_iff_less_mult mult.commute)
    then show "msg_bit (replicate (length a) 0) p = False" by (simp add: msg_bit_def)
  qed
  ultimately show ?thesis
    using uia2_hash_xor [of P Q "msg_bit a" "msg_bit b" "unat len"]
    by (simp only: f9_eval_uia2 [OF assms(1,2)])
qed

lemma f9_hash_affine_witness:
  "f9_eval 3 5 [1, 2, 3] 24 XOR f9_eval 3 5 [7, 8, 9] 24 =
    f9_eval 3 5 (xor_bytes [1, 2, 3] [7, 8, 9]) 24 XOR f9_eval 3 5 (replicate (length [1 :: u8, 2, 3]) 0) 24"
  by (rule f9_hash_affine) simp_all

end
