(* ===== verification/Liblte_Stream.thy ===== *)
theory Liblte_Stream
  imports Common "HOL-Library.Monad_Syntax"
begin

text \<open>
  What the stream ciphers of \<open>lib/src/common/liblte_security.cc\<close> share: the error codes,
  the loops that combine a message with 32-bit keystream words, and \<open>zero_tailing_bits\<close>.

  Pointers that the code compares with \<open>NULL\<close> are of type \<open>u8 list option\<close>, \<open>None\<close> being
  \<open>NULL\<close>. The result of a routine that indexes arrays is an option whose \<open>None\<close> stands for
  an access outside an array: the code has no value then. The locale \<open>xor_cipher\<close> states
  what the layers above rely on.
\<close>

datatype LIBLTE_ERROR_ENUM =
    LIBLTE_SUCCESS | LIBLTE_ERROR_INVALID_INPUTS | LIBLTE_ERROR_ENCODE_FAIL
  | LIBLTE_ERROR_DECODE_FAIL | LIBLTE_ERROR_INVALID_CRC

section \<open>Combining a message with the keystream\<close>

definition xor_full_blocks :: "u8 list \<Rightarrow> u32 list \<Rightarrow> nat \<Rightarrow> u8 list \<Rightarrow> u8 list" where
  "xor_full_blocks msg ks n out =
     foldl (\<lambda>out i. out[4 * i + 0 := msg ! (4 * i + 0) XOR u8_of (shr (ks ! i) 24 AND 0xFF),
                       4 * i + 1 := msg ! (4 * i + 1) XOR u8_of (shr (ks ! i) 16 AND 0xFF),
                       4 * i + 2 := msg ! (4 * i + 2) XOR u8_of (shr (ks ! i) 8 AND 0xFF),
                       4 * i + 3 := msg ! (4 * i + 3) XOR u8_of (ks ! i AND 0xFF)]) out [0..<n]"

definition xor_last_bytes :: "u8 list \<Rightarrow> u32 list \<Rightarrow> nat \<Rightarrow> nat \<Rightarrow> u8 list \<Rightarrow> u8 list" where
  "xor_last_bytes msg ks first n out =
     foldl (\<lambda>out i. out[i := msg ! i XOR u8_of (shr (ks ! (i div 4)) ((3 - i mod 4) * 8) AND 0xFF)])
       out [first..<n]"

definition zero_tailing_bits :: "u8 list \<Rightarrow> u32 \<Rightarrow> u8 list option" where
  "zero_tailing_bits data length_bits =
     (let bits = u8_of ((8 - (length_bits AND 0x07)) AND 0x07);
          i = unat ((length_bits + 7) div 8 - 1)
      in if i < length data then Some (data[i := data ! i AND u8_of (shl 0xFF (unat bits) :: u32)]) else None)"

text \<open>
  The common tail of the stream ciphers: both loops, then the cleared bits. For a message of
  no bits the second loop of the code starts at index -4, outside the arrays.
\<close>

definition apply_keystream :: "u8 list \<Rightarrow> u32 list \<Rightarrow> u32 \<Rightarrow> u8 list \<Rightarrow> u8 list option" where
  "apply_keystream msg ks msg_len out =
     (let n8 = unat ((msg_len + 7) div 8); n32 = unat ((msg_len + 31) div 32)
      in if n32 = 0 \<or> length msg < n8 \<or> length out < n8 \<or> length ks < n32 then None
         else zero_tailing_bits
                (xor_last_bytes msg ks (4 * (n32 - 1)) n8 (xor_full_blocks msg ks (n32 - 1) out)) msg_len)"

section \<open>Keystream bytes\<close>

definition ks_byte :: "u32 list \<Rightarrow> nat \<Rightarrow> u8" where
  "ks_byte ks i = u8_of (shr (ks ! (i div 4)) ((3 - i mod 4) * 8) AND 0xFF)"

definition ks_bytes :: "u32 list \<Rightarrow> nat \<Rightarrow> u8 list" where
  "ks_bytes ks n = map (ks_byte ks) [0..<n]"

lemma length_ks_bytes [simp]: "length (ks_bytes ks n) = n"
  by (simp add: ks_bytes_def)

lemma nth_ks_bytes [simp]: "i < n \<Longrightarrow> ks_bytes ks n ! i = ks_byte ks i"
  by (simp add: ks_bytes_def)

lemma length_xor_full_blocks [simp]: "length (xor_full_blocks msg ks n out) = length out"
  unfolding xor_full_blocks_def by (induction n) auto

lemma length_xor_last_bytes [simp]: "length (xor_last_bytes msg ks k n out) = length out"
  unfolding xor_last_bytes_def by (induction n) auto

lemma xor_full_blocks_Suc:
  "xor_full_blocks msg ks (Suc n) out =
     (xor_full_blocks msg ks n out)
       [4 * n := msg ! (4 * n) XOR ks_byte ks (4 * n),
        4 * n + 1 := msg ! (4 * n + 1) XOR ks_byte ks (4 * n + 1),
        4 * n + 2 := msg ! (4 * n + 2) XOR ks_byte ks (4 * n + 2),
        4 * n + 3 := msg ! (4 * n + 3) XOR ks_byte ks (4 * n + 3)]"
proof -
  have "(4 * n + 1) div 4 = n" "(4 * n + 2) div 4 = n" "(4 * n + 3) div 4 = n"
    "(4 * n + 1) mod 4 = 1" "(4 * n + 2) mod 4 = 2" "(4 * n + 3) mod 4 = 3"
    by presburger+
  then show ?thesis by (simp add: xor_full_blocks_def ks_byte_def)
qed

lemma nth_xor_full_blocks:
  assumes "4 * n \<le> length out" and "i < length out"
  shows "xor_full_blocks msg ks n out ! i = (if i < 4 * n then msg ! i XOR ks_byte ks i else out ! i)"
  using assms(1)
proof (induction n)
  case 0
  then show ?case by (simp add: xor_full_blocks_def)
next
  case (Suc n)
  then have IH: "xor_full_blocks msg ks n out ! i = (if i < 4 * n then msg ! i XOR ks_byte ks i else out ! i)"
    by simp
  consider "i < 4 * n" | "i = 4 * n" | "i = 4 * n + 1" | "i = 4 * n + 2" | "i = 4 * n + 3" | "4 * n + 4 \<le> i"
    by linarith
  then show ?case
    using assms(2) Suc.prems by cases (simp_all add: xor_full_blocks_Suc nth_list_update IH)
qed

lemma nth_xor_last_bytes:
  assumes "n \<le> length out" and "i < length out"
  shows "xor_last_bytes msg ks k n out ! i = (if k \<le> i \<and> i < n then msg ! i XOR ks_byte ks i else out ! i)"
  using assms(1)
proof (induction n)
  case 0
  then show ?case by (simp add: xor_last_bytes_def)
next
  case (Suc n)
  show ?case
  proof (cases "k \<le> n")
    case True
    then have "xor_last_bytes msg ks k (Suc n) out =
        (xor_last_bytes msg ks k n out)[n := msg ! n XOR ks_byte ks n]"
      by (simp add: xor_last_bytes_def ks_byte_def)
    then show ?thesis
      using Suc assms(2) True by (auto simp: nth_list_update less_Suc_eq)
  next
    case False
    then show ?thesis by (auto simp: xor_last_bytes_def)
  qed
qed

text \<open>Word arithmetic of the block counts, as numbers.\<close>

lemma block_counts:
  assumes "unat (l :: u32) + 31 < 2 ^ 32"
  shows "unat ((l + 7) div 8) = (unat l + 7) div 8" "unat ((l + 31) div 32) = (unat l + 31) div 32"
  using assms by (simp_all add: unat_div_distrib unat_word_ariths)

lemma and_0xFF_u8: "x AND 0xFF = (x :: u8)"
  by (rule bit_word_eqI) (simp add: word_bits)

lemma zero_tailing_bits_aligned:
  assumes l: "unat l = 8 * n" and n: "0 < n" "n \<le> length data" "8 * n + 7 < 2 ^ 32"
  shows "zero_tailing_bits data l = Some data"
proof -
  have "unat (l AND 0x07) = unat l mod 8"
    using unat_and_mask [of l 3] by (simp add: mask_eq_exp_minus_1)
  then have a: "l AND 0x07 = 0" using l by (simp add: unat_eq_0)
  have q: "unat ((l + 7) div 8) = n"
    using l n(3) by (simp add: unat_div_distrib unat_word_ariths)
  then have "unat ((l + 7) div 8 - 1) = n - 1"
    using n(1) by (simp add: unat_sub_if')
  then show ?thesis
    using n by (simp add: zero_tailing_bits_def Let_def a and_0xFF_u8)
qed

text \<open>
  For a whole number of bytes the output is the message combined with the keystream bytes;
  the rest of the output array is untouched.
\<close>

lemma apply_keystream_aligned:
  assumes l: "unat l = 8 * n" and n: "0 < n" "8 * n + 31 < 2 ^ 32"
    and len: "length msg = n" "n \<le> length out" "length ks = unat ((l + 31) div 32)"
  shows "apply_keystream msg ks l out = Some (xor_bytes msg (ks_bytes ks n) @ drop n out)"
proof -
  let ?n32 = "(8 * n + 31) div 32"
  let ?o = "xor_last_bytes msg ks (4 * (?n32 - 1)) n (xor_full_blocks msg ks (?n32 - 1) out)"
  have c: "unat ((l + 7) div 8) = n" "unat ((l + 31) div 32) = ?n32"
    using block_counts [of l] l n(2) by simp_all
  have p: "?n32 \<noteq> 0" "4 * (?n32 - 1) \<le> n" using n by linarith+
  have "?o = xor_bytes msg (ks_bytes ks n) @ drop n out"
    using p len n by (intro nth_equalityI) (auto simp: nth_xor_last_bytes nth_xor_full_blocks nth_append)
  moreover have "apply_keystream msg ks l out = zero_tailing_bits ?o l"
    using p len c by (simp add: apply_keystream_def Let_def)
  moreover have "zero_tailing_bits ?o l = Some ?o"
    using l n len by (intro zero_tailing_bits_aligned) auto
  ultimately show ?thesis by simp
qed

text \<open>For any number of bits the last byte is cut: the unused bits are zero.\<close>

definition clear_tail :: "u32 \<Rightarrow> u8 list \<Rightarrow> u8 list" where
  "clear_tail l bs =
     (let i = (unat l + 7) div 8 - 1; bits = u8_of ((8 - (l AND 0x07)) AND 0x07)
      in bs[i := bs ! i AND u8_of (shl 0xFF (unat bits) :: u32)])"

lemma length_clear_tail [simp]: "length (clear_tail l bs) = length bs"
  by (simp add: clear_tail_def Let_def)

lemma and_xor_and: "((a AND m) XOR b) AND m = (a XOR b) AND m" for a b m :: u8
  by (rule bit_word_eqI) (auto simp: bit_simps)

lemma clear_tail_xor:
  assumes "length bs = length ks" "(unat l + 7) div 8 = length bs"
  shows "clear_tail l (xor_bytes (clear_tail l (xor_bytes bs ks)) ks) = clear_tail l bs"
proof (rule nth_equalityI)
  fix i
  assume "i < length (clear_tail l (xor_bytes (clear_tail l (xor_bytes bs ks)) ks))"
  then have "i < length bs" using assms(1) by simp
  then show "clear_tail l (xor_bytes (clear_tail l (xor_bytes bs ks)) ks) ! i = clear_tail l bs ! i"
    using assms by (auto simp: clear_tail_def Let_def nth_list_update and_xor_and xor.assoc)
qed (use assms in simp)

lemma apply_keystream_bits:
  assumes l: "0 < unat l" "unat l + 31 < 2 ^ 32" "(unat l + 7) div 8 = n"
    and len: "n \<le> length msg" "n \<le> length out" "length ks = unat ((l + 31) div 32)"
  shows "apply_keystream msg ks l out = Some (clear_tail l (xor_bytes (take n msg) (ks_bytes ks n)) @ drop n out)"
proof -
  let ?n32 = "(unat l + 31) div 32"
  let ?o = "xor_last_bytes msg ks (4 * (?n32 - 1)) n (xor_full_blocks msg ks (?n32 - 1) out)"
  note c = block_counts [OF l(2)]
  have n: "0 < n" using l(1,3) by linarith
  have p: "?n32 \<noteq> 0" "4 * (?n32 - 1) \<le> n" using l(1,3) by linarith+
  have o: "?o = xor_bytes (take n msg) (ks_bytes ks n) @ drop n out"
    using p len by (intro nth_equalityI) (auto simp: nth_xor_last_bytes nth_xor_full_blocks nth_append)
  have i: "unat ((l + 7) div 8 - 1) = n - 1"
    using c(1) l(3) n by (subst unat_sub) (simp_all add: word_le_nat_alt)
  have "apply_keystream msg ks l out = zero_tailing_bits ?o l"
    using p len c l(3) by (simp add: apply_keystream_def Let_def)
  also have "\<dots> = Some (clear_tail l (xor_bytes (take n msg) (ks_bytes ks n)) @ drop n out)"
    unfolding o zero_tailing_bits_def Let_def i using n len
    by (simp add: clear_tail_def Let_def l(3) list_update_append nth_append)
  finally show ?thesis .
qed

section \<open>The interface of a stream cipher\<close>

text \<open>
  A cipher in the sense of the layers above: for a key, a COUNT, a bearer and a direction it
  combines the message with bytes that do not depend on the message.
\<close>

locale xor_cipher =
  fixes crypt :: "u8 list \<Rightarrow> u32 \<Rightarrow> u8 \<Rightarrow> u8 \<Rightarrow> u8 list \<Rightarrow> u8 list"
    and stream :: "u8 list \<Rightarrow> u32 \<Rightarrow> u8 \<Rightarrow> u8 \<Rightarrow> nat \<Rightarrow> u8 list"
  assumes crypt_stream: "crypt key count bearer dir msg = xor_bytes msg (stream key count bearer dir (length msg))"
    and length_stream: "length (stream key count bearer dir n) = n"
begin

lemma length_crypt [simp]: "length (crypt key count bearer dir msg) = length msg"
  by (simp add: crypt_stream length_stream)

lemma crypt_crypt [simp]: "crypt key count bearer dir (crypt key count bearer dir msg) = msg"
  by (simp add: crypt_stream length_stream)

lemma crypt_inject:
  assumes "length msg = length msg'" "crypt key count bearer dir msg = crypt key count bearer dir msg'"
  shows "msg = msg'"
  using assms crypt_crypt by metis

end

end
