(* ===== verification/S3g.thy ===== *)
theory S3g
  imports Snow3g Liblte_Stream Liblte_Tables
begin

text \<open>
  The second SNOW 3G implementation, the one of \<open>lib/src/common/liblte_security.cc\<close> that
  keeps its registers in arrays, and the ciphering algorithm 128-EEA1 built on it. The main
  lemma is that the two implementations produce the same keystream; \<open>eea1\<close> is then shown to
  be an \<open>xor_cipher\<close>.
\<close>

section \<open>The generator\<close>

record s3g_state =
  lfsr :: "u32 list"
  fsm :: "u32 list"

definition s3g_mul_x :: "u8 \<Rightarrow> u8 \<Rightarrow> u8" where
  "s3g_mul_x v c = (if v AND 0x80 \<noteq> 0 then shl v 1 XOR c else shl v 1)"

function s3g_mul_x_pow :: "u8 \<Rightarrow> u8 \<Rightarrow> u8 \<Rightarrow> u8" where
  "s3g_mul_x_pow v i c = (if i = 0 then v else s3g_mul_x (s3g_mul_x_pow v (i - 1) c) c)"
  by pat_completeness auto
termination
  by (relation "measure (\<lambda>(v, i, c). unat i)") (auto simp: unat_minus_one unat_gt_0)

declare s3g_mul_x_pow.simps [simp del]

definition s3g_mul_alpha :: "u8 \<Rightarrow> u32" where
  "s3g_mul_alpha c =
     shl (u32_of (s3g_mul_x_pow c 23 0xa9)) 24 OR shl (u32_of (s3g_mul_x_pow c 245 0xa9)) 16 OR
     shl (u32_of (s3g_mul_x_pow c 48 0xa9)) 8 OR u32_of (s3g_mul_x_pow c 239 0xa9)"

definition s3g_div_alpha :: "u8 \<Rightarrow> u32" where
  "s3g_div_alpha c =
     shl (u32_of (s3g_mul_x_pow c 16 0xa9)) 24 OR shl (u32_of (s3g_mul_x_pow c 39 0xa9)) 16 OR
     shl (u32_of (s3g_mul_x_pow c 6 0xa9)) 8 OR u32_of (s3g_mul_x_pow c 64 0xa9)"

definition s3g_s1 :: "u32 \<Rightarrow> u32" where
  "s3g_s1 w =
     (let srw0 = liblte_S ! unat (u8_of (shr w 24 AND 0xff));
          srw1 = liblte_S ! unat (u8_of (shr w 16 AND 0xff));
          srw2 = liblte_S ! unat (u8_of (shr w 8 AND 0xff));
          srw3 = liblte_S ! unat (u8_of (w AND 0xff));
          r0 = s3g_mul_x srw0 0x1b XOR srw1 XOR srw2 XOR (s3g_mul_x srw3 0x1b XOR srw3);
          r1 = (s3g_mul_x srw0 0x1b XOR srw0) XOR s3g_mul_x srw1 0x1b XOR srw2 XOR srw3;
          r2 = srw0 XOR (s3g_mul_x srw1 0x1b XOR srw1) XOR s3g_mul_x srw2 0x1b XOR srw3;
          r3 = srw0 XOR srw1 XOR (s3g_mul_x srw2 0x1b XOR srw2) XOR s3g_mul_x srw3 0x1b
      in shl (u32_of r0) 24 OR shl (u32_of r1) 16 OR shl (u32_of r2) 8 OR u32_of r3)"

definition s3g_s2 :: "u32 \<Rightarrow> u32" where
  "s3g_s2 w =
     (let sqw0 = liblte_SQ ! unat (u8_of (shr w 24 AND 0xff));
          sqw1 = liblte_SQ ! unat (u8_of (shr w 16 AND 0xff));
          sqw2 = liblte_SQ ! unat (u8_of (shr w 8 AND 0xff));
          sqw3 = liblte_SQ ! unat (u8_of (w AND 0xff));
          r0 = s3g_mul_x sqw0 0x69 XOR sqw1 XOR sqw2 XOR (s3g_mul_x sqw3 0x69 XOR sqw3);
          r1 = (s3g_mul_x sqw0 0x69 XOR sqw0) XOR s3g_mul_x sqw1 0x69 XOR sqw2 XOR sqw3;
          r2 = sqw0 XOR (s3g_mul_x sqw1 0x69 XOR sqw1) XOR s3g_mul_x sqw2 0x69 XOR sqw3;
          r3 = sqw0 XOR sqw1 XOR (s3g_mul_x sqw2 0x69 XOR sqw2) XOR s3g_mul_x sqw3 0x69
      in shl (u32_of r0) 24 OR shl (u32_of r1) 16 OR shl (u32_of r2) 8 OR u32_of r3)"

definition s3g_clock_lfsr :: "u32 \<Rightarrow> s3g_state \<Rightarrow> s3g_state" where
  "s3g_clock_lfsr f st =
     (let l = lfsr st;
          v = (shl (l ! 0) 8 AND 0xffffff00) XOR s3g_mul_alpha (u8_of (shr (l ! 0) 24 AND 0xff)) XOR
              l ! 2 XOR (shr (l ! 11) 8 AND 0x00ffffff) XOR
              s3g_div_alpha (u8_of (l ! 11 AND 0xff)) XOR f;
          l' = foldl (\<lambda>l i. l[i := l ! (i + 1)]) l [0..<15]
      in st\<lparr>lfsr := l'[15 := v]\<rparr>)"

definition s3g_clock_fsm :: "s3g_state \<Rightarrow> u32 \<times> s3g_state" where
  "s3g_clock_fsm st =
     (let f = ((lfsr st ! 15 + fsm st ! 0) AND 0xffffffff) XOR fsm st ! 1;
          r = (fsm st ! 1 + (fsm st ! 2 XOR lfsr st ! 5)) AND 0xffffffff;
          m = (fsm st)[2 := s3g_s2 (fsm st ! 1)];
          m = m[1 := s3g_s1 (m ! 0)];
          m = m[0 := r]
      in (f, st\<lparr>fsm := m\<rparr>))"

definition s3g_load :: "u32 list \<Rightarrow> u32 list \<Rightarrow> s3g_state" where
  "s3g_load k iv =
     \<lparr>lfsr = [k ! 0 XOR 0xffffffff, k ! 1 XOR 0xffffffff, k ! 2 XOR 0xffffffff, k ! 3 XOR 0xffffffff,
              k ! 0, k ! 1, k ! 2, k ! 3,
              k ! 0 XOR 0xffffffff, k ! 1 XOR 0xffffffff XOR iv ! 3,
              k ! 2 XOR 0xffffffff XOR iv ! 2, k ! 3 XOR 0xffffffff,
              k ! 0 XOR iv ! 1, k ! 1, k ! 2, k ! 3 XOR iv ! 0],
      fsm = [0x0, 0x0, 0x0]\<rparr>"

primrec s3g_init_rounds :: "nat \<Rightarrow> s3g_state \<Rightarrow> s3g_state" where
  "s3g_init_rounds 0 st = st"
| "s3g_init_rounds (Suc n) st = (let (f, st') = s3g_clock_fsm st in s3g_init_rounds n (s3g_clock_lfsr f st'))"

definition s3g_initialize :: "u32 list \<Rightarrow> u32 list \<Rightarrow> s3g_state" where
  "s3g_initialize k iv = s3g_init_rounds 32 (s3g_load k iv)"

primrec s3g_ks_rounds :: "nat \<Rightarrow> s3g_state \<Rightarrow> u32 list \<times> s3g_state" where
  "s3g_ks_rounds 0 st = ([], st)"
| "s3g_ks_rounds (Suc n) st =
     (let (f, st') = s3g_clock_fsm st;
          z = f XOR lfsr st' ! 0;
          (zs, st'') = s3g_ks_rounds n (s3g_clock_lfsr 0x0 st')
      in (z # zs, st''))"

definition s3g_generate_keystream :: "u32 \<Rightarrow> s3g_state \<Rightarrow> u32 list \<times> s3g_state" where
  "s3g_generate_keystream n st =
     (let (_, st') = s3g_clock_fsm st in s3g_ks_rounds (unat n) (s3g_clock_lfsr 0x0 st'))"

section \<open>128-EEA1\<close>

definition eea1_key_word :: "u8 list \<Rightarrow> nat \<Rightarrow> u32" where
  "eea1_key_word key i =
     shl (u32_of (key ! (4 * (3 - i) + 0))) 24 OR shl (u32_of (key ! (4 * (3 - i) + 1))) 16 OR
     shl (u32_of (key ! (4 * (3 - i) + 2))) 8 OR u32_of (key ! (4 * (3 - i) + 3))"

definition eea1_iv :: "u32 \<Rightarrow> u8 \<Rightarrow> u8 \<Rightarrow> u32 list" where
  "eea1_iv count bearer direction =
     (let iv2 = shl (u32_of bearer AND 0x1F) 27 OR shl (u32_of direction AND 0x01) 26
      in [iv2, count, iv2, count])"

definition eea1_keystream :: "u8 list \<Rightarrow> u32 \<Rightarrow> u8 \<Rightarrow> u8 \<Rightarrow> u32 \<Rightarrow> u32 list" where
  "eea1_keystream key count bearer direction msg_len =
     fst (s3g_generate_keystream ((msg_len + 31) div 32)
            (s3g_initialize (map (eea1_key_word key) [0..<4]) (eea1_iv count bearer direction)))"

definition liblte_security_encryption_eea1 ::
    "u8 list option \<Rightarrow> u32 \<Rightarrow> u8 \<Rightarrow> u8 \<Rightarrow> u8 list option \<Rightarrow> u32 \<Rightarrow> u8 list option
     \<Rightarrow> (LIBLTE_ERROR_ENUM \<times> u8 list option) option" where
  "liblte_security_encryption_eea1 key count bearer direction msg msg_len out =
     (case (key, msg, out) of
        (Some key, Some msg, Some out) \<Rightarrow>
          map_option (\<lambda>out. (LIBLTE_SUCCESS, Some out))
            (apply_keystream msg (eea1_keystream key count bearer direction msg_len) msg_len out)
      | _ \<Rightarrow> Some (LIBLTE_ERROR_INVALID_INPUTS, out))"

definition liblte_security_decryption_eea1 ::
    "u8 list option \<Rightarrow> u32 \<Rightarrow> u8 \<Rightarrow> u8 \<Rightarrow> u8 list option \<Rightarrow> u32 \<Rightarrow> u8 list option
     \<Rightarrow> (LIBLTE_ERROR_ENUM \<times> u8 list option) option" where
  "liblte_security_decryption_eea1 key count bearer direction ct ct_len out =
     liblte_security_encryption_eea1 key count bearer direction ct ct_len out"

section \<open>The two generators agree\<close>

definition s3g_of :: "snow3g_state \<Rightarrow> s3g_state" where
  "s3g_of st =
     \<lparr>lfsr = [LFSR_S0 st, LFSR_S1 st, LFSR_S2 st, LFSR_S3 st, LFSR_S4 st, LFSR_S5 st, LFSR_S6 st, LFSR_S7 st,
              LFSR_S8 st, LFSR_S9 st, LFSR_S10 st, LFSR_S11 st, LFSR_S12 st, LFSR_S13 st, LFSR_S14 st, LFSR_S15 st],
      fsm = [FSM_R1 st, FSM_R2 st, FSM_R3 st]\<rparr>"

lemma SR_liblte_S: "SR = liblte_S" and SQ_liblte_SQ: "SQ = liblte_SQ"
  by (simp_all add: SR_def liblte_S_def SQ_def liblte_SQ_def)

lemma s3g_mul_x_eq: "s3g_mul_x v c = MULx v c"
  by (simp add: s3g_mul_x_def MULx_def)

lemma s3g_mul_x_pow_eq: "s3g_mul_x_pow v i c = MULxPOW v i c"
proof (induction v i c rule: MULxPOW.induct)
  case (1 v i c)
  then show ?case
    by (cases "i = 0")
      (simp add: s3g_mul_x_pow.simps, simp add: s3g_mul_x_pow.simps [of v i c] MULxPOW.simps [of v i c] s3g_mul_x_eq)
qed

lemmas s3g_field_eq = s3g_mul_x_eq s3g_mul_x_pow_eq

lemma s3g_boxes_eq:
  "s3g_mul_alpha = MULalpha" "s3g_div_alpha = DIValpha" "s3g_s1 = S1" "s3g_s2 = S2"
  by (simp_all add: fun_eq_iff s3g_mul_alpha_def MULalpha_def s3g_div_alpha_def DIValpha_def
      s3g_s1_def S1_def s3g_s2_def S2_def s3g_field_eq SR_liblte_S SQ_liblte_SQ)

lemma upt_15: "[0..<15] = [0, 1, 2, 3, 4, 5, 6, 7, 8, 9, 10, 11, 12, 13, 14]"
  by (simp add: upt_rec)

lemma s3g_clock_lfsr_init:
  "s3g_clock_lfsr F (s3g_of st) = s3g_of (ClockLFSRInitializationMode F st)"
  by (simp add: s3g_clock_lfsr_def ClockLFSRInitializationMode_def s3g_of_def Let_def upt_15 s3g_boxes_eq)

lemma s3g_clock_lfsr_ks:
  "s3g_clock_lfsr 0 (s3g_of st) = s3g_of (ClockLFSRKeyStreamMode st)"
  by (simp add: s3g_clock_lfsr_def ClockLFSRKeyStreamMode_def s3g_of_def Let_def upt_15 s3g_boxes_eq)

lemma s3g_clock_fsm_eq:
  "s3g_clock_fsm (s3g_of st) = (fst (ClockFSM st), s3g_of (snd (ClockFSM st)))"
  by (simp add: s3g_clock_fsm_def ClockFSM_def s3g_of_def Let_def s3g_boxes_eq)

lemma s3g_init_rounds_eq: "s3g_init_rounds n (s3g_of st) = s3g_of (snow3g_init_rounds n st)"
  by (induction n arbitrary: st) (simp_all add: s3g_clock_fsm_eq s3g_clock_lfsr_init case_prod_unfold Let_def)

lemma s3g_initialize_eq: "s3g_initialize k iv = s3g_of (snow3g_initialize k iv)"
proof -
  have "s3g_load k iv = s3g_of (snow3g_load k iv)"
    by (simp add: s3g_load_def snow3g_load_def s3g_of_def)
  then show ?thesis by (simp add: s3g_initialize_def snow3g_initialize_def s3g_init_rounds_eq)
qed

lemma s3g_ks_rounds_eq:
  "s3g_ks_rounds n (s3g_of st) = (fst (snow3g_ks_rounds n st), s3g_of (snd (snow3g_ks_rounds n st)))"
proof (induction n arbitrary: st)
  case (Suc n)
  have "lfsr (s3g_of st) ! 0 = LFSR_S0 st" for st by (simp add: s3g_of_def)
  with Suc show ?case by (simp add: s3g_clock_fsm_eq s3g_clock_lfsr_ks case_prod_unfold Let_def)
qed simp

lemma s3g_generate_keystream_eq:
  "s3g_generate_keystream n (s3g_of st) =
     (fst (snow3g_generate_keystream n st), s3g_of (snd (snow3g_generate_keystream n st)))"
  by (simp add: s3g_generate_keystream_def snow3g_generate_keystream_def s3g_clock_fsm_eq
      s3g_clock_lfsr_ks s3g_ks_rounds_eq case_prod_unfold)

lemma length_eea1_keystream [simp]:
  "length (eea1_keystream key count bearer direction msg_len) = unat ((msg_len + 31) div 32)"
  by (simp add: eea1_keystream_def s3g_initialize_eq s3g_generate_keystream_eq)

section \<open>128-EEA1 is a stream cipher\<close>

definition eea1_stream :: "u8 list \<Rightarrow> u32 \<Rightarrow> u8 \<Rightarrow> u8 \<Rightarrow> nat \<Rightarrow> u8 list" where
  "eea1_stream key count bearer direction n =
     ks_bytes (eea1_keystream key count bearer direction (of_nat (8 * n))) n"

definition eea1 :: "u8 list \<Rightarrow> u32 \<Rightarrow> u8 \<Rightarrow> u8 \<Rightarrow> u8 list \<Rightarrow> u8 list" where
  "eea1 key count bearer direction msg = xor_bytes msg (eea1_stream key count bearer direction (length msg))"

interpretation eea1: xor_cipher eea1 eea1_stream
  by unfold_locales (simp_all add: eea1_def eea1_stream_def)

lemma encryption_eea1_aligned:
  assumes "0 < length msg" "8 * length msg + 31 < 2 ^ 32" "length msg \<le> length out"
  shows "liblte_security_encryption_eea1 (Some key) count bearer direction (Some msg)
           (of_nat (8 * length msg)) (Some out)
         = Some (LIBLTE_SUCCESS, Some (eea1 key count bearer direction msg @ drop (length msg) out))"
proof -
  have "unat (of_nat (8 * length msg) :: u32) = 8 * length msg"
    using assms(2) by (simp only: unat_of_nat) simp
  with assms show ?thesis
    by (simp add: liblte_security_encryption_eea1_def apply_keystream_aligned eea1_def eea1_stream_def)
qed

section \<open>Properties\<close>

text \<open>C20. The two SNOW 3G generators of the repository, the register file of \<open>snow_3g.cc\<close> (integrity)
  and the arrays of \<open>liblte_security.cc\<close> (confidentiality), produce the same keystream from the same
  key and initialisation vector.\<close>

theorem snow3g_generators_agree:
  "fst (s3g_generate_keystream n (s3g_initialize k iv)) = fst (snow3g_generate_keystream n (snow3g_initialize k iv))"
  by (simp add: s3g_initialize_eq s3g_generate_keystream_eq)

text \<open>128-EEA1 is undone by \<open>liblte_security_decryption_eea1\<close> with the same key, COUNT, bearer and
  direction, for a message of any positive number of bits: what comes back is the message with the
  unused bits of its last byte cleared, and no byte of the output after it is touched.\<close>

theorem eea1_roundtrip:
  assumes "0 < unat l" "unat l + 31 < 2 ^ 32" "(unat l + 7) div 8 = n" "n \<le> length msg" "n \<le> length out" "n \<le> length out'"
  shows "\<exists>ct. liblte_security_encryption_eea1 (Some key) count bearer direction (Some msg) l (Some out) =
      Some (LIBLTE_SUCCESS, Some (ct @ drop n out)) \<and>
    liblte_security_decryption_eea1 (Some key) count bearer direction (Some (ct @ drop n out)) l (Some out') =
      Some (LIBLTE_SUCCESS, Some (clear_tail l (take n msg) @ drop n out'))"
proof -
  let ?ks = "eea1_keystream key count bearer direction l"
  let ?ct = "clear_tail l (xor_bytes (take n msg) (ks_bytes ?ks n))"
  have ct: "length ?ct = n" using assms(4) by simp
  have "apply_keystream msg ?ks l out = Some (?ct @ drop n out)"
    by (rule apply_keystream_bits) (use assms in simp_all)
  moreover have "apply_keystream (?ct @ drop n out) ?ks l out' =
      Some (clear_tail l (xor_bytes (take n (?ct @ drop n out)) (ks_bytes ?ks n)) @ drop n out')"
    by (rule apply_keystream_bits) (use assms ct in simp_all)
  moreover have "clear_tail l (xor_bytes (take n (?ct @ drop n out)) (ks_bytes ?ks n)) = clear_tail l (take n msg)"
    using ct assms(3,4) by (simp add: clear_tail_xor)
  ultimately show ?thesis
    by (auto simp: liblte_security_encryption_eea1_def liblte_security_decryption_eea1_def)
qed

lemma eea1_roundtrip_witness:
  "\<exists>ct. liblte_security_encryption_eea1 (Some (replicate 16 7)) 5 3 1 (Some [1, 2, 0xFF]) 20 (Some [0, 0, 0, 9]) =
      Some (LIBLTE_SUCCESS, Some (ct @ drop 3 [0, 0, 0, 9])) \<and>
    liblte_security_decryption_eea1 (Some (replicate 16 7)) 5 3 1 (Some (ct @ drop 3 [0, 0, 0, 9])) 20 (Some [0, 0, 0]) =
      Some (LIBLTE_SUCCESS, Some (clear_tail 20 (take 3 [1, 2, 0xFF]) @ drop 3 [0, 0, 0]))"
  by (rule eea1_roundtrip) simp_all

end
