(* ===== verification/Zuc.thy ===== *)
theory Zuc
  imports Liblte_Stream
begin

text \<open>
  The ZUC generator of \<open>lib/src/common/zuc.cc\<close> and the algorithms 128-EEA3 and 128-EIA3 of
  \<open>lib/src/common/liblte_security.cc\<close> that use it. The record \<open>zuc_state\<close> is
  \<open>zuc_state_t\<close>. The cells of the shift register hold residues modulo \<open>2 ^ 31 - 1\<close> in the
  range 1 to \<open>2 ^ 31 - 1\<close>; the lemmas show that every operation keeps that range and what the
  feedback computes modulo \<open>2 ^ 31 - 1\<close>.
\<close>

section \<open>State and tables\<close>

record zuc_state =
  ZUC_S0 :: u32
  ZUC_S1 :: u32
  ZUC_S2 :: u32
  ZUC_S3 :: u32
  ZUC_S4 :: u32
  ZUC_S5 :: u32
  ZUC_S6 :: u32
  ZUC_S7 :: u32
  ZUC_S8 :: u32
  ZUC_S9 :: u32
  ZUC_S10 :: u32
  ZUC_S11 :: u32
  ZUC_S12 :: u32
  ZUC_S13 :: u32
  ZUC_S14 :: u32
  ZUC_S15 :: u32
  F_R1 :: u32
  F_R2 :: u32
  BRC_X0 :: u32
  BRC_X1 :: u32
  BRC_X2 :: u32
  BRC_X3 :: u32

definition zuc_S0 :: "u8 list" where
  "zuc_S0 = [
    0x3E, 0x72, 0x5B, 0x47, 0xCA, 0xE0, 0x00, 0x33, 0x04, 0xD1, 0x54, 0x98, 0x09, 0xB9, 0x6D, 0xCB,
    0x7B, 0x1B, 0xF9, 0x32, 0xAF, 0x9D, 0x6A, 0xA5, 0xB8, 0x2D, 0xFC, 0x1D, 0x08, 0x53, 0x03, 0x90,
    0x4D, 0x4E, 0x84, 0x99, 0xE4, 0xCE, 0xD9, 0x91, 0xDD, 0xB6, 0x85, 0x48, 0x8B, 0x29, 0x6E, 0xAC,
    0xCD, 0xC1, 0xF8, 0x1E, 0x73, 0x43, 0x69, 0xC6, 0xB5, 0xBD, 0xFD, 0x39, 0x63, 0x20, 0xD4, 0x38,
    0x76, 0x7D, 0xB2, 0xA7, 0xCF, 0xED, 0x57, 0xC5, 0xF3, 0x2C, 0xBB, 0x14, 0x21, 0x06, 0x55, 0x9B,
    0xE3, 0xEF, 0x5E, 0x31, 0x4F, 0x7F, 0x5A, 0xA4, 0x0D, 0x82, 0x51, 0x49, 0x5F, 0xBA, 0x58, 0x1C,
    0x4A, 0x16, 0xD5, 0x17, 0xA8, 0x92, 0x24, 0x1F, 0x8C, 0xFF, 0xD8, 0xAE, 0x2E, 0x01, 0xD3, 0xAD,
    0x3B, 0x4B, 0xDA, 0x46, 0xEB, 0xC9, 0xDE, 0x9A, 0x8F, 0x87, 0xD7, 0x3A, 0x80, 0x6F, 0x2F, 0xC8,
    0xB1, 0xB4, 0x37, 0xF7, 0x0A, 0x22, 0x13, 0x28, 0x7C, 0xCC, 0x3C, 0x89, 0xC7, 0xC3, 0x96, 0x56,
    0x07, 0xBF, 0x7E, 0xF0, 0x0B, 0x2B, 0x97, 0x52, 0x35, 0x41, 0x79, 0x61, 0xA6, 0x4C, 0x10, 0xFE,
    0xBC, 0x26, 0x95, 0x88, 0x8A, 0xB0, 0xA3, 0xFB, 0xC0, 0x18, 0x94, 0xF2, 0xE1, 0xE5, 0xE9, 0x5D,
    0xD0, 0xDC, 0x11, 0x66, 0x64, 0x5C, 0xEC, 0x59, 0x42, 0x75, 0x12, 0xF5, 0x74, 0x9C, 0xAA, 0x23,
    0x0E, 0x86, 0xAB, 0xBE, 0x2A, 0x02, 0xE7, 0x67, 0xE6, 0x44, 0xA2, 0x6C, 0xC2, 0x93, 0x9F, 0xF1,
    0xF6, 0xFA, 0x36, 0xD2, 0x50, 0x68, 0x9E, 0x62, 0x71, 0x15, 0x3D, 0xD6, 0x40, 0xC4, 0xE2, 0x0F,
    0x8E, 0x83, 0x77, 0x6B, 0x25, 0x05, 0x3F, 0x0C, 0x30, 0xEA, 0x70, 0xB7, 0xA1, 0xE8, 0xA9, 0x65,
    0x8D, 0x27, 0x1A, 0xDB, 0x81, 0xB3, 0xA0, 0xF4, 0x45, 0x7A, 0x19, 0xDF, 0xEE, 0x78, 0x34, 0x60]"

definition zuc_S1 :: "u8 list" where
  "zuc_S1 = [
    0x55, 0xC2, 0x63, 0x71, 0x3B, 0xC8, 0x47, 0x86, 0x9F, 0x3C, 0xDA, 0x5B, 0x29, 0xAA, 0xFD, 0x77,
    0x8C, 0xC5, 0x94, 0x0C, 0xA6, 0x1A, 0x13, 0x00, 0xE3, 0xA8, 0x16, 0x72, 0x40, 0xF9, 0xF8, 0x42,
    0x44, 0x26, 0x68, 0x96, 0x81, 0xD9, 0x45, 0x3E, 0x10, 0x76, 0xC6, 0xA7, 0x8B, 0x39, 0x43, 0xE1,
    0x3A, 0xB5, 0x56, 0x2A, 0xC0, 0x6D, 0xB3, 0x05, 0x22, 0x66, 0xBF, 0xDC, 0x0B, 0xFA, 0x62, 0x48,
    0xDD, 0x20, 0x11, 0x06, 0x36, 0xC9, 0xC1, 0xCF, 0xF6, 0x27, 0x52, 0xBB, 0x69, 0xF5, 0xD4, 0x87,
    0x7F, 0x84, 0x4C, 0xD2, 0x9C, 0x57, 0xA4, 0xBC, 0x4F, 0x9A, 0xDF, 0xFE, 0xD6, 0x8D, 0x7A, 0xEB,
    0x2B, 0x53, 0xD8, 0x5C, 0xA1, 0x14, 0x17, 0xFB, 0x23, 0xD5, 0x7D, 0x30, 0x67, 0x73, 0x08, 0x09,
    0xEE, 0xB7, 0x70, 0x3F, 0x61, 0xB2, 0x19, 0x8E, 0x4E, 0xE5, 0x4B, 0x93, 0x8F, 0x5D, 0xDB, 0xA9,
    0xAD, 0xF1, 0xAE, 0x2E, 0xCB, 0x0D, 0xFC, 0xF4, 0x2D, 0x46, 0x6E, 0x1D, 0x97, 0xE8, 0xD1, 0xE9,
    0x4D, 0x37, 0xA5, 0x75, 0x5E, 0x83, 0x9E, 0xAB, 0x82, 0x9D, 0xB9, 0x1C, 0xE0, 0xCD, 0x49, 0x89,
    0x01, 0xB6, 0xBD, 0x58, 0x24, 0xA2, 0x5F, 0x38, 0x78, 0x99, 0x15, 0x90, 0x50, 0xB8, 0x95, 0xE4,
    0xD0, 0x91, 0xC7, 0xCE, 0xED, 0x0F, 0xB4, 0x6F, 0xA0, 0xCC, 0xF0, 0x02, 0x4A, 0x79, 0xC3, 0xDE,
    0xA3, 0xEF, 0xEA, 0x51, 0xE6, 0x6B, 0x18, 0xEC, 0x1B, 0x2C, 0x80, 0xF7, 0x74, 0xE7, 0xFF, 0x21,
    0x5A, 0x6A, 0x54, 0x1E, 0x41, 0x31, 0x92, 0x35, 0xC4, 0x33, 0x07, 0x0A, 0xBA, 0x7E, 0x0E, 0x34,
    0x88, 0xB1, 0x98, 0x7C, 0xF3, 0x3D, 0x60, 0x6C, 0x7B, 0xCA, 0xD3, 0x1F, 0x32, 0x65, 0x04, 0x28,
    0x64, 0xBE, 0x85, 0x9B, 0x2F, 0x59, 0x8A, 0xD7, 0xB0, 0x25, 0xAC, 0xAF, 0x12, 0x03, 0xE2, 0xF2]"

definition EK_d :: "u32 list" where
  "EK_d = [
    0x44D7, 0x26BC, 0x626B, 0x135E, 0x5789, 0x35E2, 0x7135, 0x9AF, 0x4D78, 0x2F13, 0x6BC4, 0x1AF1, 0x5E26, 0x3C4D, 0x789A, 0x47AC]"

section \<open>The generator\<close>

definition MAKEU32 :: "u8 \<Rightarrow> u8 \<Rightarrow> u8 \<Rightarrow> u8 \<Rightarrow> u32" where
  "MAKEU32 a b c d = shl (u32_of a) 24 OR shl (u32_of b) 16 OR shl (u32_of c) 8 OR u32_of d"

definition MulByPow2 :: "u32 \<Rightarrow> nat \<Rightarrow> u32" where
  "MulByPow2 x k = (shl x k OR shr x (31 - k)) AND 0x7FFFFFFF"

definition MAKEU31 :: "u8 \<Rightarrow> u32 \<Rightarrow> u8 \<Rightarrow> u32" where
  "MAKEU31 a b c = shl (u32_of a) 23 OR shl b 8 OR u32_of c"

definition ROT :: "u32 \<Rightarrow> nat \<Rightarrow> u32" where
  "ROT a k = shl a k OR shr a (32 - k)"

definition AddM :: "u32 \<Rightarrow> u32 \<Rightarrow> u32" where
  "AddM a b = (let c = a + b in (c AND 0x7FFFFFFF) + shr c 31)"

definition LFSRWithInitialisationMode :: "u32 \<Rightarrow> zuc_state \<Rightarrow> zuc_state" where
  "LFSRWithInitialisationMode u st =
     (let f = ZUC_S0 st;
          v = MulByPow2 (ZUC_S0 st) 8;
          f = AddM f v;
          v = MulByPow2 (ZUC_S4 st) 20;
          f = AddM f v;
          v = MulByPow2 (ZUC_S10 st) 21;
          f = AddM f v;
          v = MulByPow2 (ZUC_S13 st) 17;
          f = AddM f v;
          v = MulByPow2 (ZUC_S15 st) 15;
          f = AddM f v;
          f = AddM f u
      in st\<lparr>ZUC_S0 := ZUC_S1 st,
       ZUC_S1 := ZUC_S2 st,
       ZUC_S2 := ZUC_S3 st,
       ZUC_S3 := ZUC_S4 st,
       ZUC_S4 := ZUC_S5 st,
       ZUC_S5 := ZUC_S6 st,
       ZUC_S6 := ZUC_S7 st,
       ZUC_S7 := ZUC_S8 st,
       ZUC_S8 := ZUC_S9 st,
       ZUC_S9 := ZUC_S10 st,
       ZUC_S10 := ZUC_S11 st,
       ZUC_S11 := ZUC_S12 st,
       ZUC_S12 := ZUC_S13 st,
       ZUC_S13 := ZUC_S14 st,
       ZUC_S14 := ZUC_S15 st,
       ZUC_S15 := f\<rparr>)"

definition LFSRWithWorkMode :: "zuc_state \<Rightarrow> zuc_state" where
  "LFSRWithWorkMode st =
     (let f = ZUC_S0 st;
          v = MulByPow2 (ZUC_S0 st) 8;
          f = AddM f v;
          v = MulByPow2 (ZUC_S4 st) 20;
          f = AddM f v;
          v = MulByPow2 (ZUC_S10 st) 21;
          f = AddM f v;
          v = MulByPow2 (ZUC_S13 st) 17;
          f = AddM f v;
          v = MulByPow2 (ZUC_S15 st) 15;
          f = AddM f v
      in st\<lparr>ZUC_S0 := ZUC_S1 st,
       ZUC_S1 := ZUC_S2 st,
       ZUC_S2 := ZUC_S3 st,
       ZUC_S3 := ZUC_S4 st,
       ZUC_S4 := ZUC_S5 st,
       ZUC_S5 := ZUC_S6 st,
       ZUC_S6 := ZUC_S7 st,
       ZUC_S7 := ZUC_S8 st,
       ZUC_S8 := ZUC_S9 st,
       ZUC_S9 := ZUC_S10 st,
       ZUC_S10 := ZUC_S11 st,
       ZUC_S11 := ZUC_S12 st,
       ZUC_S12 := ZUC_S13 st,
       ZUC_S13 := ZUC_S14 st,
       ZUC_S14 := ZUC_S15 st,
       ZUC_S15 := f\<rparr>)"

definition BitReorganization :: "zuc_state \<Rightarrow> zuc_state" where
  "BitReorganization st =
     st\<lparr>BRC_X0 := shl (ZUC_S15 st AND 0x7FFF8000) 1 OR (ZUC_S14 st AND 0xFFFF),
       BRC_X1 := shl (ZUC_S11 st AND 0xFFFF) 16 OR shr (ZUC_S9 st) 15,
       BRC_X2 := shl (ZUC_S7 st AND 0xFFFF) 16 OR shr (ZUC_S5 st) 15,
       BRC_X3 := shl (ZUC_S2 st AND 0xFFFF) 16 OR shr (ZUC_S0 st) 15\<rparr>"

definition zuc_L1 :: "u32 \<Rightarrow> u32" where
  "zuc_L1 X = X XOR ROT X 2 XOR ROT X 10 XOR ROT X 18 XOR ROT X 24"

definition zuc_L2 :: "u32 \<Rightarrow> u32" where
  "zuc_L2 X = X XOR ROT X 8 XOR ROT X 14 XOR ROT X 22 XOR ROT X 30"

definition zuc_F :: "zuc_state \<Rightarrow> u32 \<times> zuc_state" where
  "zuc_F st =
     (let W = (BRC_X0 st XOR F_R1 st) + F_R2 st;
          W1 = F_R1 st + BRC_X1 st;
          W2 = F_R2 st XOR BRC_X2 st;
          u = zuc_L1 (shl W1 16 OR shr W2 16);
          v = zuc_L2 (shl W2 16 OR shr W1 16)
      in (W, st\<lparr>F_R1 := MAKEU32 (zuc_S0 ! unat (shr u 24)) (zuc_S1 ! unat (shr u 16 AND 0xFF))
                           (zuc_S0 ! unat (shr u 8 AND 0xFF)) (zuc_S1 ! unat (u AND 0xFF)),
               F_R2 := MAKEU32 (zuc_S0 ! unat (shr v 24)) (zuc_S1 ! unat (shr v 16 AND 0xFF))
                           (zuc_S0 ! unat (shr v 8 AND 0xFF)) (zuc_S1 ! unat (v AND 0xFF))\<rparr>))"

definition zuc_load :: "u8 list \<Rightarrow> u8 list \<Rightarrow> zuc_state" where
  "zuc_load k iv =
     \<lparr>ZUC_S0 = MAKEU31 (k ! 0) (EK_d ! 0) (iv ! 0),
      ZUC_S1 = MAKEU31 (k ! 1) (EK_d ! 1) (iv ! 1),
      ZUC_S2 = MAKEU31 (k ! 2) (EK_d ! 2) (iv ! 2),
      ZUC_S3 = MAKEU31 (k ! 3) (EK_d ! 3) (iv ! 3),
      ZUC_S4 = MAKEU31 (k ! 4) (EK_d ! 4) (iv ! 4),
      ZUC_S5 = MAKEU31 (k ! 5) (EK_d ! 5) (iv ! 5),
      ZUC_S6 = MAKEU31 (k ! 6) (EK_d ! 6) (iv ! 6),
      ZUC_S7 = MAKEU31 (k ! 7) (EK_d ! 7) (iv ! 7),
      ZUC_S8 = MAKEU31 (k ! 8) (EK_d ! 8) (iv ! 8),
      ZUC_S9 = MAKEU31 (k ! 9) (EK_d ! 9) (iv ! 9),
      ZUC_S10 = MAKEU31 (k ! 10) (EK_d ! 10) (iv ! 10),
      ZUC_S11 = MAKEU31 (k ! 11) (EK_d ! 11) (iv ! 11),
      ZUC_S12 = MAKEU31 (k ! 12) (EK_d ! 12) (iv ! 12),
      ZUC_S13 = MAKEU31 (k ! 13) (EK_d ! 13) (iv ! 13),
      ZUC_S14 = MAKEU31 (k ! 14) (EK_d ! 14) (iv ! 14),
      ZUC_S15 = MAKEU31 (k ! 15) (EK_d ! 15) (iv ! 15),
      F_R1 = 0, F_R2 = 0, BRC_X0 = 0, BRC_X1 = 0, BRC_X2 = 0, BRC_X3 = 0\<rparr>"

primrec zuc_init_rounds :: "nat \<Rightarrow> zuc_state \<Rightarrow> zuc_state" where
  "zuc_init_rounds 0 st = st"
| "zuc_init_rounds (Suc n) st =
     (let (w, st') = zuc_F (BitReorganization st)
      in zuc_init_rounds n (LFSRWithInitialisationMode (shr w 1) st'))"

definition zuc_initialize :: "u8 list \<Rightarrow> u8 list \<Rightarrow> zuc_state" where
  "zuc_initialize k iv = zuc_init_rounds 32 (zuc_load k iv)"

primrec zuc_ks_rounds :: "nat \<Rightarrow> zuc_state \<Rightarrow> u32 list \<times> zuc_state" where
  "zuc_ks_rounds 0 st = ([], st)"
| "zuc_ks_rounds (Suc n) st =
     (let (w, st') = zuc_F (BitReorganization st);
          z = w XOR BRC_X3 st';
          (zs, st'') = zuc_ks_rounds n (LFSRWithWorkMode st')
      in (z # zs, st''))"

definition zuc_generate_keystream :: "nat \<Rightarrow> zuc_state \<Rightarrow> u32 list \<times> zuc_state" where
  "zuc_generate_keystream key_stream_len st =
     (let (_, st') = zuc_F (BitReorganization st) in zuc_ks_rounds key_stream_len (LFSRWithWorkMode st'))"

section \<open>128-EEA3\<close>

definition eea3_iv :: "u32 \<Rightarrow> u8 \<Rightarrow> u8 \<Rightarrow> u8 list" where
  "eea3_iv count bearer direction =
     (let c = [u8_of (shr count 24 AND 0xFF), u8_of (shr count 16 AND 0xFF),
               u8_of (shr count 8 AND 0xFF), u8_of (count AND 0xFF),
               shl (bearer AND 0x1F) 3 OR shl (direction AND 0x01) 2, 0, 0, 0]
      in c @ c)"

definition eea3_keystream :: "u8 list \<Rightarrow> u32 \<Rightarrow> u8 \<Rightarrow> u8 \<Rightarrow> u32 \<Rightarrow> u32 list" where
  "eea3_keystream key count bearer direction msg_len =
     fst (zuc_generate_keystream (unat ((msg_len + 31) div 32))
            (zuc_initialize key (eea3_iv count bearer direction)))"

definition liblte_security_encryption_eea3 ::
    "u8 list option \<Rightarrow> u32 \<Rightarrow> u8 \<Rightarrow> u8 \<Rightarrow> u8 list option \<Rightarrow> u32 \<Rightarrow> u8 list option
     \<Rightarrow> (LIBLTE_ERROR_ENUM \<times> u8 list option) option" where
  "liblte_security_encryption_eea3 key count bearer direction msg msg_len out =
     (case (key, msg, out) of
        (Some key, Some msg, Some out) \<Rightarrow>
          map_option (\<lambda>out. (LIBLTE_SUCCESS, Some out))
            (apply_keystream msg (eea3_keystream key count bearer direction msg_len) msg_len out)
      | _ \<Rightarrow> Some (LIBLTE_ERROR_INVALID_INPUTS, out))"

definition liblte_security_decryption_eea3 ::
    "u8 list option \<Rightarrow> u32 \<Rightarrow> u8 \<Rightarrow> u8 \<Rightarrow> u8 list option \<Rightarrow> u32 \<Rightarrow> u8 list option
     \<Rightarrow> (LIBLTE_ERROR_ENUM \<times> u8 list option) option" where
  "liblte_security_decryption_eea3 key count bearer direction ct ct_len out =
     liblte_security_encryption_eea3 key count bearer direction ct ct_len out"

section \<open>128-EIA3\<close>

definition GET_WORD :: "u32 list \<Rightarrow> nat \<Rightarrow> u32" where
  "GET_WORD DATA i =
     (let ti = i mod 32
      in if ti = 0 then DATA ! (i div 32)
         else shl (DATA ! (i div 32)) ti OR shr (DATA ! (i div 32 + 1)) (32 - ti))"

definition GET_BIT :: "u8 list \<Rightarrow> nat \<Rightarrow> bool" where
  "GET_BIT DATA i = (DATA ! (i div 8) AND shl 1 (7 - i mod 8) \<noteq> 0)"

definition eia3_iv :: "u32 \<Rightarrow> u8 \<Rightarrow> u8 \<Rightarrow> u8 list" where
  "eia3_iv count bearer direction =
     (let c0 = u8_of (shr count 24 AND 0xFF); c1 = u8_of (shr count 16 AND 0xFF);
          c2 = u8_of (shr count 8 AND 0xFF); c3 = u8_of (count AND 0xFF);
          iv4 = shl bearer 3 AND 0xF8;
          d = shl (direction AND 1) 7
      in [c0, c1, c2, c3, iv4, 0, 0, 0, c0 XOR d, c1, c2, c3, iv4, 0, 0 XOR d, 0])"

text \<open>The universal hash of the message bits, folded with the keystream.\<close>

definition eia3_T :: "u32 list \<Rightarrow> u8 list \<Rightarrow> nat \<Rightarrow> u32" where
  "eia3_T ks msg n =
     foldl (\<lambda>T i. if GET_BIT msg i then T XOR GET_WORD ks i else T) 0 [0..<n] XOR GET_WORD ks n"

text \<open>
  The lengths \<open>N\<close> and \<open>L\<close> of the code are signed, so a message of \<open>2 ^ 31 - 95\<close> bits or more
  overflows them. The local \<open>err\<close> is never assigned after its initialisation.
\<close>

definition liblte_security_128_eia3 ::
    "u8 list option \<Rightarrow> u32 \<Rightarrow> u8 \<Rightarrow> u8 \<Rightarrow> u8 list option \<Rightarrow> u32 \<Rightarrow> u8 list option
     \<Rightarrow> (LIBLTE_ERROR_ENUM \<times> u8 list option) option" where
  "liblte_security_128_eia3 key count bearer direction msg msg_len mac =
     (let err = LIBLTE_ERROR_INVALID_INPUTS in
      case (key, msg, mac) of
        (Some key, Some msg, Some mac) \<Rightarrow>
          (if unat msg_len + 95 \<ge> 2 ^ 31 \<or> length msg < (unat msg_len + 7) div 8 \<or> length mac < 4 then None
           else
             let L = (unat msg_len + 95) div 32;
                 (ks, _) = zuc_generate_keystream L (zuc_initialize key (eia3_iv count bearer direction));
                 mac_tmp = eia3_T ks msg (unat msg_len) XOR ks ! (L - 1)
             in Some (err, Some (copy_n 4 [u8_of (shr mac_tmp 24 AND 0xFF), u8_of (shr mac_tmp 16 AND 0xFF),
                                           u8_of (shr mac_tmp 8 AND 0xFF), u8_of (mac_tmp AND 0xFF)] mac)))
      | _ \<Rightarrow> Some (err, mac))"

section \<open>Lemmas: keystream and EEA3\<close>

lemma length_zuc_tables [simp]: "length zuc_S0 = 256" "length zuc_S1 = 256" "length EK_d = 16"
  by (simp_all add: zuc_S0_def zuc_S1_def EK_d_def)

lemma length_zuc_ks_rounds [simp]: "length (fst (zuc_ks_rounds n st)) = n"
proof (induction n arbitrary: st)
  case (Suc n)
  show ?case
    using Suc.IH [of "LFSRWithWorkMode (snd (zuc_F (BitReorganization st)))"]
    by (simp add: case_prod_unfold Let_def)
qed simp

lemma length_zuc_keystream [simp]: "length (fst (zuc_generate_keystream n st)) = n"
  by (simp add: zuc_generate_keystream_def case_prod_unfold)

lemma length_eea3_keystream [simp]:
  "length (eea3_keystream key count bearer direction msg_len) = unat ((msg_len + 31) div 32)"
  by (simp add: eea3_keystream_def)

definition eea3_stream :: "u8 list \<Rightarrow> u32 \<Rightarrow> u8 \<Rightarrow> u8 \<Rightarrow> nat \<Rightarrow> u8 list" where
  "eea3_stream key count bearer direction n =
     ks_bytes (eea3_keystream key count bearer direction (of_nat (8 * n))) n"

definition eea3 :: "u8 list \<Rightarrow> u32 \<Rightarrow> u8 \<Rightarrow> u8 \<Rightarrow> u8 list \<Rightarrow> u8 list" where
  "eea3 key count bearer direction msg = xor_bytes msg (eea3_stream key count bearer direction (length msg))"

interpretation eea3: xor_cipher eea3 eea3_stream
  by unfold_locales (simp_all add: eea3_def eea3_stream_def)

lemma encryption_eea3_aligned:
  assumes "0 < length msg" "8 * length msg + 31 < 2 ^ 32" "length msg \<le> length out"
  shows "liblte_security_encryption_eea3 (Some key) count bearer direction (Some msg)
           (of_nat (8 * length msg)) (Some out)
         = Some (LIBLTE_SUCCESS, Some (eea3 key count bearer direction msg @ drop (length msg) out))"
proof -
  have "unat (of_nat (8 * length msg) :: u32) = 8 * length msg"
    using assms(2) by (simp only: unat_of_nat) simp
  with assms show ?thesis
    by (simp add: liblte_security_encryption_eea3_def apply_keystream_aligned eea3_def eea3_stream_def)
qed

section \<open>Lemmas: arithmetic modulo 2^31 - 1\<close>

definition m31 :: nat where "m31 = 2 ^ 31 - 1"

text \<open>A cell of the shift register.\<close>

definition cell :: "u32 \<Rightarrow> bool" where "cell x \<longleftrightarrow> 0 < unat x \<and> unat x \<le> m31"

lemma unat_mod_31: "unat (x AND 0x7FFFFFFF) = unat x mod 2 ^ 31" for x :: u32
  using unat_and_mask [of x 31] by (simp add: mask_eq_exp_minus_1)

lemma unat_AddM:
  assumes "unat a \<le> m31" "unat b \<le> m31"
  shows "unat (AddM a b) = (if unat a + unat b < 2 ^ 31 then unat a + unat b else unat a + unat b - m31)"
proof -
  have s: "unat (a + b) = unat a + unat b"
    using assms by (simp add: unat_word_ariths m31_def)
  let ?c = "unat a + unat b"
  have c: "?c \<le> 2 ^ 32 - 2" using assms by (simp add: m31_def)
  have "unat (AddM a b) = (?c mod 2 ^ 31 + ?c div 2 ^ 31) mod 2 ^ 32"
    by (simp add: AddM_def Let_def unat_word_ariths(1) [of "_ AND _"] unat_mod_31 unat_shr s)
  also have "\<dots> = ?c mod 2 ^ 31 + ?c div 2 ^ 31" using c by simp
  also have "\<dots> = (if ?c < 2 ^ 31 then ?c else ?c - m31)"
  proof (cases "?c < 2 ^ 31")
    case False
    then have "?c div 2 ^ 31 = 1" "?c mod 2 ^ 31 = ?c - 2 ^ 31"
      using c by (auto simp: le_mod_geq div_if)
    with False show ?thesis by (simp add: m31_def)
  qed simp
  finally show ?thesis .
qed

lemma AddM_cell: "cell a \<Longrightarrow> unat b \<le> m31 \<Longrightarrow> cell (AddM a b)"
  by (auto simp: cell_def unat_AddM) (auto simp: m31_def)

lemma AddM_mod:
  assumes "unat a \<le> m31" "unat b \<le> m31"
  shows "unat (AddM a b) mod m31 = (unat a + unat b) mod m31"
  using assms by (auto simp: unat_AddM le_mod_geq m31_def)

lemma unat_MulByPow2:
  assumes "unat x \<le> m31" "0 < k" "k \<le> 31"
  shows "unat (MulByPow2 x k) = unat x mod 2 ^ (31 - k) * 2 ^ k + unat x div 2 ^ (31 - k)"
proof -
  let ?X = "unat x"
  have X: "?X < 2 ^ 31" using assms(1) by (simp add: m31_def)
  have e: "(2 :: nat) ^ 31 = 2 ^ (31 - k) * 2 ^ k" using assms(3) by (simp flip: power_add)
  then have d: "?X div 2 ^ (31 - k) < 2 ^ k" using X by (simp add: div_less_iff_less_mult mult.commute)
  have k31: "(2 :: nat) ^ k \<le> 2 ^ 31" using assms(3) by (rule power_increasing) simp
  have "unat (MulByPow2 x k) = (?X * 2 ^ k mod 2 ^ 32 OR ?X div 2 ^ (31 - k)) mod 2 ^ 31"
    by (simp add: MulByPow2_def unat_mod_31 unat_or unat_shl unat_shr)
  also have "\<dots> = ?X * 2 ^ k mod 2 ^ 32 mod 2 ^ 31 OR ?X div 2 ^ (31 - k) mod 2 ^ 31"
    by (simp only: take_bit_or flip: take_bit_eq_mod)
  also have "?X * 2 ^ k mod 2 ^ 32 mod 2 ^ 31 = ?X * 2 ^ k mod 2 ^ 31"
    by (rule mod_mod_cancel) simp
  also have "?X * 2 ^ k mod 2 ^ 31 = ?X mod 2 ^ (31 - k) * 2 ^ k"
    unfolding e by (rule mult_mod_left [symmetric])
  also have "?X div 2 ^ (31 - k) mod 2 ^ 31 = ?X div 2 ^ (31 - k)"
    using d k31 by (simp del: div_less_iff_less_mult)
  also have "?X mod 2 ^ (31 - k) * 2 ^ k OR ?X div 2 ^ (31 - k) =
      ?X mod 2 ^ (31 - k) * 2 ^ k + ?X div 2 ^ (31 - k)"
    by (rule nat_or_concat [OF d])
  finally show ?thesis .
qed

text \<open>A rotation of 31 bits is a multiplication modulo \<open>2 ^ 31 - 1\<close>, and never gives 0.\<close>

lemma MulByPow2_mod:
  assumes "unat x \<le> m31" "0 < k" "k \<le> 31"
  shows "unat (MulByPow2 x k) mod m31 = unat x * 2 ^ k mod m31"
proof -
  let ?q = "unat x div 2 ^ (31 - k)" and ?r = "unat x mod 2 ^ (31 - k)"
  have e: "(2 :: nat) ^ (31 - k) * 2 ^ k = m31 + 1"
    using assms(3) by (simp add: m31_def flip: power_add)
  have "unat x * 2 ^ k = (?q * 2 ^ (31 - k) + ?r) * 2 ^ k" by (simp only: div_mult_mod_eq)
  also have "\<dots> = ?q * (2 ^ (31 - k) * 2 ^ k) + ?r * 2 ^ k" by algebra
  also have "\<dots> = ?q * m31 + (?r * 2 ^ k + ?q)" by (simp add: e)
  finally show ?thesis using unat_MulByPow2 [OF assms] by simp
qed

lemma MulByPow2_cell:
  assumes "cell x" "0 < k" "k \<le> 31"
  shows "cell (MulByPow2 x k)"
proof -
  let ?q = "unat x div 2 ^ (31 - k)" and ?r = "unat x mod 2 ^ (31 - k)"
  have X: "unat x \<le> m31" "0 < unat x" using assms(1) by (simp_all add: cell_def)
  have e: "(2 :: nat) ^ (31 - k) * 2 ^ k = m31 + 1"
    using assms(3) by (simp add: m31_def flip: power_add)
  have q: "?q < 2 ^ k"
    using X e by (simp add: div_less_iff_less_mult mult.commute)
  have "?r < 2 ^ (31 - k)" by (rule mod_less_divisor) simp
  then have r: "?r \<le> 2 ^ (31 - k) - 1" by linarith
  have "?r * 2 ^ k \<le> (2 ^ (31 - k) - 1) * 2 ^ k" using r by (rule mult_le_mono1)
  also have "\<dots> = m31 + 1 - 2 ^ k" by (simp add: diff_mult_distrib e)
  finally have rb: "?r * 2 ^ k \<le> m31 + 1 - 2 ^ k" .
  have "1 * 2 ^ k \<le> (2 :: nat) ^ (31 - k) * 2 ^ k" by (rule mult_le_mono1) simp
  then have kb: "2 ^ k \<le> m31 + 1" by (simp add: e)
  have "?r * 2 ^ k + ?q \<le> m31" using rb kb q by linarith
  moreover have "0 < ?r * 2 ^ k + ?q"
  proof (rule ccontr)
    assume "\<not> ?thesis"
    then have "?r = 0" "?q = 0" by simp_all
    then have "unat x = 0" by (metis div_mult_mod_eq mult_0 add_0)
    with X show False by simp
  qed
  ultimately show ?thesis
    using unat_MulByPow2 [OF X(1) assms(2,3)] by (simp add: cell_def)
qed

lemma AddM_acc:
  assumes "cell f" "cell v"
  shows "cell (AddM f v)" "unat (AddM f v) mod m31 = (unat f mod m31 + unat v mod m31) mod m31"
  using assms AddM_cell [of f v] AddM_mod [of f v] by (simp_all add: cell_def mod_add_eq)

section \<open>Lemmas: the shift register\<close>

definition zuc_cells :: "zuc_state \<Rightarrow> u32 list" where
  "zuc_cells st =
     [ZUC_S0 st, ZUC_S1 st, ZUC_S2 st, ZUC_S3 st, ZUC_S4 st, ZUC_S5 st, ZUC_S6 st, ZUC_S7 st, ZUC_S8 st, ZUC_S9 st, ZUC_S10 st, ZUC_S11 st, ZUC_S12 st, ZUC_S13 st, ZUC_S14 st, ZUC_S15 st]"

definition zuc_ok :: "zuc_state \<Rightarrow> bool" where
  "zuc_ok st \<longleftrightarrow> list_all cell (zuc_cells st)"

text \<open>The feedback polynomial of the ZUC specification, over the integers.\<close>

definition zuc_feedback :: "zuc_state \<Rightarrow> nat" where
  "zuc_feedback st =
     unat (ZUC_S0 st) + unat (ZUC_S0 st) * 2 ^ 8 + unat (ZUC_S4 st) * 2 ^ 20 +
     unat (ZUC_S10 st) * 2 ^ 21 + unat (ZUC_S13 st) * 2 ^ 17 + unat (ZUC_S15 st) * 2 ^ 15"

lemma AddM_MulByPow2:
  assumes "cell f" "unat f mod m31 = n mod m31" "cell x" "0 < k" "k \<le> 31"
  shows "cell (AddM f (MulByPow2 x k))" "unat (AddM f (MulByPow2 x k)) mod m31 = (n + unat x * 2 ^ k) mod m31"
proof -
  have c: "cell (MulByPow2 x k)" by (rule MulByPow2_cell [OF assms(3-5)])
  have m: "unat (MulByPow2 x k) mod m31 = unat x * 2 ^ k mod m31"
    using assms(3-5) by (intro MulByPow2_mod) (simp_all add: cell_def)
  show "cell (AddM f (MulByPow2 x k))" by (rule AddM_acc(1) [OF assms(1) c])
  show "unat (AddM f (MulByPow2 x k)) mod m31 = (n + unat x * 2 ^ k) mod m31"
    by (simp only: AddM_acc(2) [OF assms(1) c] m assms(2) mod_add_eq)
qed

lemma zuc_okD:
  "zuc_ok st \<Longrightarrow> cell (ZUC_S0 st)" "zuc_ok st \<Longrightarrow> cell (ZUC_S4 st)" "zuc_ok st \<Longrightarrow> cell (ZUC_S10 st)"
  "zuc_ok st \<Longrightarrow> cell (ZUC_S13 st)" "zuc_ok st \<Longrightarrow> cell (ZUC_S15 st)"
  by (simp_all add: zuc_ok_def zuc_cells_def)

lemma LFSR_work_feedback:
  assumes "zuc_ok st"
  shows "cell (ZUC_S15 (LFSRWithWorkMode st))"
    and "unat (ZUC_S15 (LFSRWithWorkMode st)) mod m31 = zuc_feedback st mod m31"
proof -
  note c = zuc_okD [OF assms]
  note f1 = AddM_MulByPow2 [OF c(1) refl c(1), of 8, simplified]
  note f2 = AddM_MulByPow2 [OF f1 c(2), of 20, simplified]
  note f3 = AddM_MulByPow2 [OF f2 c(3), of 21, simplified]
  note f4 = AddM_MulByPow2 [OF f3 c(4), of 17, simplified]
  note f5 = AddM_MulByPow2 [OF f4 c(5), of 15, simplified]
  show "cell (ZUC_S15 (LFSRWithWorkMode st))"
    using f5(1) by (simp add: LFSRWithWorkMode_def Let_def)
  show "unat (ZUC_S15 (LFSRWithWorkMode st)) mod m31 = zuc_feedback st mod m31"
    using f5(2) by (simp add: LFSRWithWorkMode_def Let_def zuc_feedback_def)
qed

text \<open>The initialisation mode adds its input to what the work mode feeds back.\<close>

lemma LFSR_init_work:
  "ZUC_S15 (LFSRWithInitialisationMode u st) = AddM (ZUC_S15 (LFSRWithWorkMode st)) u"
  by (simp add: LFSRWithInitialisationMode_def LFSRWithWorkMode_def Let_def)

lemma zuc_cells_shift:
  "zuc_cells (LFSRWithWorkMode st) = tl (zuc_cells st) @ [ZUC_S15 (LFSRWithWorkMode st)]"
  "zuc_cells (LFSRWithInitialisationMode u st) = tl (zuc_cells st) @ [ZUC_S15 (LFSRWithInitialisationMode u st)]"
  by (simp_all add: zuc_cells_def LFSRWithWorkMode_def LFSRWithInitialisationMode_def Let_def)

lemma list_all_tl: "list_all P xs \<Longrightarrow> list_all P (tl xs)"
  by (cases xs) auto

lemma zuc_ok_work: "zuc_ok st \<Longrightarrow> zuc_ok (LFSRWithWorkMode st)"
  using LFSR_work_feedback(1) [of st] by (simp add: zuc_ok_def zuc_cells_shift list_all_tl)

lemma zuc_ok_init_mode:
  assumes "zuc_ok st" "unat u \<le> m31"
  shows "zuc_ok (LFSRWithInitialisationMode u st)"
proof -
  have "cell (ZUC_S15 (LFSRWithInitialisationMode u st))"
    unfolding LFSR_init_work by (rule AddM_cell [OF LFSR_work_feedback(1) [OF assms(1)] assms(2)])
  with assms(1) show ?thesis by (simp add: zuc_ok_def zuc_cells_shift list_all_tl)
qed

lemma zuc_cells_other [simp]:
  "zuc_cells (BitReorganization st) = zuc_cells st" "zuc_cells (snd (zuc_F st)) = zuc_cells st"
  by (simp_all add: zuc_cells_def BitReorganization_def zuc_F_def Let_def)

lemma zuc_ok_F [simp]: "zuc_ok (snd (zuc_F (BitReorganization st))) = zuc_ok st"
  by (simp add: zuc_ok_def)

lemma shr1_le_m31: "unat (shr w 1) \<le> m31" for w :: u32
proof -
  have "unat w < 2 ^ 32" by (rule order_less_le_trans [OF unsigned_less]) simp
  then show ?thesis by (simp add: unat_shr m31_def)
qed

lemma zuc_ok_init_rounds: "zuc_ok st \<Longrightarrow> zuc_ok (zuc_init_rounds n st)"
proof (induction n arbitrary: st)
  case (Suc n)
  show ?case
    unfolding zuc_init_rounds.simps case_prod_unfold Let_def
    by (intro Suc.IH zuc_ok_init_mode shr1_le_m31) (simp add: Suc.prems)
qed simp

lemma zuc_ok_ks_rounds: "zuc_ok st \<Longrightarrow> zuc_ok (snd (zuc_ks_rounds n st))"
  by (induction n arbitrary: st) (simp_all add: case_prod_unfold Let_def zuc_ok_work)

lemma cell_MAKEU31:
  assumes "0 < unat d" "unat d < 2 ^ 15"
  shows "cell (MAKEU31 a d c)"
proof -
  have ab: "unat a < 2 ^ 8" "unat c < 2 ^ 8" using unsigned_less [of a] unsigned_less [of c] by simp_all
  have dc: "unat d * 2 ^ 8 + unat c < 2 ^ 23" using ab assms by simp
  have "unat (MAKEU31 a d c) = unat a * 2 ^ 23 OR (unat d * 2 ^ 8 OR unat c)"
    using ab assms
    by (simp only: MAKEU31_def unat_or unat_shl or.assoc) (simp add: unsigned_ucast_eq take_bit_nat_eq_self)
  also have "\<dots> = unat a * 2 ^ 23 + (unat d * 2 ^ 8 + unat c)"
    by (simp only: nat_or_concat [OF ab(2)] nat_or_concat [OF dc])
  finally show ?thesis using ab assms by (simp add: cell_def m31_def)
qed

lemma EK_d_range:
  assumes "i < 16"
  shows "0 < unat (EK_d ! i)" "unat (EK_d ! i) < 2 ^ 15"
proof -
  have "list_all (\<lambda>d. 0 < unat d \<and> unat d < 2 ^ 15) EK_d" by (simp add: EK_d_def)
  with assms show "0 < unat (EK_d ! i)" "unat (EK_d ! i) < 2 ^ 15" by (simp_all add: list_all_length)
qed

lemma zuc_ok_load: "zuc_ok (zuc_load k iv)"
  unfolding zuc_ok_def zuc_cells_def zuc_load_def
  by (simp only: zuc_state.select_convs list.pred_inject) (intro conjI TrueI cell_MAKEU31 EK_d_range; simp)

lemma zuc_ok_initialize: "zuc_ok (zuc_initialize k iv)"
  by (simp add: zuc_initialize_def zuc_ok_init_rounds zuc_ok_load)

lemma zuc_ok_generate: "zuc_ok st \<Longrightarrow> zuc_ok (snd (zuc_generate_keystream n st))"
  by (simp add: zuc_generate_keystream_def case_prod_unfold zuc_ok_ks_rounds zuc_ok_work)

section \<open>Lemmas: EIA3 reads the keystream bit by bit\<close>

definition ks_bit :: "u32 list \<Rightarrow> nat \<Rightarrow> bool" where
  "ks_bit ks n = bit (ks ! (n div 32)) (31 - n mod 32)"

lemma bit_GET_WORD:
  assumes "j < 32"
  shows "bit (GET_WORD ks i) (31 - j) = ks_bit ks (i + j)"
proof (cases "i mod 32 + j < 32")
  case True
  then have d: "(i + j) div 32 = i div 32" "(i + j) mod 32 = i mod 32 + j"
    by (simp_all add: div_add1_eq [of i j] mod_add_eq [of i 32 j, symmetric])
  define t where "t = i mod 32"
  have t: "t + j < 32" using True by (simp add: t_def)
  have b: "\<not> bit (shr (ks ! (i div 32 + 1)) (32 - t)) (31 - j)" if "0 < t"
    using that t by (auto simp: bit_drop_bit_eq dest!: bit_imp_le_length)
  have e: "31 - j - t = 31 - (t + j)" "t \<le> 31 - j" using t by linarith+
  have l: "possible_bit TYPE(u32) (31 - j)" by (simp only: possible_bit_word len_num0 len_num1 len_bit0 len_bit1)
  have p: "bit (shl x t) (31 - j) = bit x (31 - (t + j))" for x :: u32
    by (simp only: bit_push_bit_iff e l) simp
  have "bit (GET_WORD ks i) (31 - j) = bit (ks ! (i div 32)) (31 - (t + j))"
    using b by (cases "t = 0")
      (simp_all only: GET_WORD_def Let_def bit_or_iff p t_def [symmetric] if_True if_False, simp_all)
  then show ?thesis by (simp add: ks_bit_def d t_def)
next
  case False
  then have d: "(i + j) div 32 = i div 32 + 1" "(i + j) mod 32 = i mod 32 + j - 32"
    using assms by (simp_all add: div_add1_eq [of i j] le_mod_geq le_div_geq
      mod_add_eq [of i 32 j, symmetric])
  define t where "t = i mod 32"
  have t: "0 < t" "t < 32" "32 \<le> t + j" using False assms by (auto simp: t_def)
  have a: "\<not> bit (shl (ks ! (i div 32)) t) (31 - j)"
  proof -
    have "\<not> t \<le> 31 - j" using t by linarith
    then show ?thesis by (simp only: bit_push_bit_iff simp_thms)
  qed
  have e: "32 - t + (31 - j) = 31 - (t + j - 32)" using t assms by linarith
  have "bit (GET_WORD ks i) (31 - j) = bit (shr (ks ! (i div 32 + 1)) (32 - t)) (31 - j)"
    using t a by (simp add: GET_WORD_def Let_def bit_or_iff t_def [symmetric])
  also have "\<dots> = bit (ks ! (i div 32 + 1)) (31 - (t + j - 32))"
    by (simp only: bit_drop_bit_eq o_def e)
  finally show ?thesis by (simp add: ks_bit_def d t_def)
qed

text \<open>\<open>eia3_T\<close>, bit by bit: the parity of the selected windows, folded with the window at the length.\<close>

lemma GET_BIT_msg_bit: "GET_BIT msg i = msg_bit msg i"
  using and_exp_eq_0_iff_not_bit [of "msg ! (i div 8)" "7 - i mod 8"]
  by (simp add: GET_BIT_def msg_bit_def push_bit_eq_mult)

definition eia3_parity :: "u32 list \<Rightarrow> u8 list \<Rightarrow> nat \<Rightarrow> nat \<Rightarrow> bool" where
  "eia3_parity ks msg n j \<longleftrightarrow>
     odd (length (filter (\<lambda>i. msg_bit msg i \<and> ks_bit ks (i + j)) [0..<n]))"

lemma bit_eia3_fold:
  assumes "j < 32"
  shows "bit (foldl (\<lambda>T i. if GET_BIT msg i then T XOR GET_WORD ks i else T) 0 [0..<n]) (31 - j) =
    eia3_parity ks msg n j"
proof (induction n)
  case (Suc n)
  then show ?case
    by (auto simp: eia3_parity_def GET_BIT_msg_bit bit_xor_iff bit_GET_WORD [OF assms])
qed (simp add: eia3_parity_def)

lemma bit_eia3_T:
  "j < 32 \<Longrightarrow> bit (eia3_T ks msg n) (31 - j) \<longleftrightarrow> eia3_parity ks msg n j \<noteq> ks_bit ks (n + j)"
  by (simp add: eia3_T_def bit_xor_iff bit_eia3_fold bit_GET_WORD)

text \<open>The four bytes that EIA3 writes.\<close>

definition eia3_mac :: "u8 list \<Rightarrow> u32 \<Rightarrow> u8 \<Rightarrow> u8 \<Rightarrow> u8 list \<Rightarrow> nat \<Rightarrow> u8 list" where
  "eia3_mac key count bearer direction msg n =
     (let L = (n + 95) div 32;
          ks = fst (zuc_generate_keystream L (zuc_initialize key (eia3_iv count bearer direction)))
      in uint32_to_uint8 (eia3_T ks msg n XOR ks ! (L - 1)))"

lemma length_eia3_mac [simp]: "length (eia3_mac key count bearer direction msg n) = 4"
  by (simp add: eia3_mac_def Let_def)

lemma eia3_calls:
  assumes "unat msg_len + 95 < 2 ^ 31" "(unat msg_len + 7) div 8 \<le> length msg" "4 \<le> length mac"
  shows "liblte_security_128_eia3 (Some key) count bearer direction (Some msg) msg_len (Some mac) =
    Some (LIBLTE_ERROR_INVALID_INPUTS, Some (copy_n 4 (eia3_mac key count bearer direction msg (unat msg_len)) mac))"
  using assms
  by (simp add: liblte_security_128_eia3_def eia3_mac_def uint32_to_uint8_def Let_def case_prod_unfold)

section \<open>Properties\<close>

text \<open>128-EEA3 is undone by its decryption, as 128-EEA1 is: for any positive number of bits the
  message comes back with the unused bits of its last byte cleared.\<close>

theorem eea3_roundtrip:
  assumes "0 < unat l" "unat l + 31 < 2 ^ 32" "(unat l + 7) div 8 = n" "n \<le> length msg" "n \<le> length out" "n \<le> length out'"
  shows "\<exists>ct. liblte_security_encryption_eea3 (Some key) count bearer direction (Some msg) l (Some out) =
      Some (LIBLTE_SUCCESS, Some (ct @ drop n out)) \<and>
    liblte_security_decryption_eea3 (Some key) count bearer direction (Some (ct @ drop n out)) l (Some out') =
      Some (LIBLTE_SUCCESS, Some (clear_tail l (take n msg) @ drop n out'))"
proof -
  let ?ks = "eea3_keystream key count bearer direction l"
  let ?ct = "clear_tail l (xor_bytes (take n msg) (ks_bytes ?ks n))"
  have ct: "length ?ct = n" using assms(4) by simp
  have "apply_keystream msg ?ks l out = Some (?ct @ drop n out)"
    by (rule apply_keystream_bits) (use assms in simp_all)
  moreover have "apply_keystream (?ct @ drop n out) ?ks l out' =
      Some (clear_tail l (xor_bytes (take n (?ct @ drop n out)) (ks_bytes ?ks n)) @ drop n out')"
    by (rule apply_keystream_bits) (use assms ct in simp_all)
  moreover have "clear_tail l (xor_bytes (take n (?ct @ drop n out)) (ks_bytes ?ks n)) = clear_tail l (take n msg)"
    using ct assms(3,4) by (simp add: clear_tail_xor)
  ultimately show ?thesis
    by (auto simp: liblte_security_encryption_eea3_def liblte_security_decryption_eea3_def)
qed

lemma eea3_roundtrip_witness:
  "\<exists>ct. liblte_security_encryption_eea3 (Some (replicate 16 7)) 5 3 1 (Some [1, 2, 0xFF]) 20 (Some [0, 0, 0, 9]) =
      Some (LIBLTE_SUCCESS, Some (ct @ drop 3 [0, 0, 0, 9])) \<and>
    liblte_security_decryption_eea3 (Some (replicate 16 7)) 5 3 1 (Some (ct @ drop 3 [0, 0, 0, 9])) 20 (Some [0, 0, 0]) =
      Some (LIBLTE_SUCCESS, Some (clear_tail 20 (take 3 [1, 2, 0xFF]) @ drop 3 [0, 0, 0]))"
  by (rule eea3_roundtrip) simp_all

text \<open>C24. After the initialisation and after any number of keystream words every cell of the ZUC shift
  register holds a value from 1 to \<open>2 ^ 31 - 1\<close> (the representatives of the field; 0 never appears),
  and the next cell the work mode computes with shifts and end-around additions is congruent modulo
  \<open>2 ^ 31 - 1\<close> to the feedback polynomial of the specification.\<close>

theorem zuc_register_invariant:
  "zuc_ok (snd (zuc_generate_keystream n (zuc_initialize key iv))) \<and>
   (let st = snd (zuc_generate_keystream n (zuc_initialize key iv))
    in unat (ZUC_S15 (LFSRWithWorkMode st)) mod m31 = zuc_feedback st mod m31)"
  by (simp add: zuc_ok_generate zuc_ok_initialize LFSR_work_feedback(2))

text \<open>C23. \<open>liblte_security_128_eia3\<close> writes the MAC of the standard: bit \<open>j\<close> is the parity of the message
  bits selected against the keystream window at their position, folded with the window at the length
  and with the last keystream word. On the same valid input it returns
  \<open>LIBLTE_ERROR_INVALID_INPUTS\<close>: the success code is never assigned.\<close>

theorem eia3_mac_bits:
  assumes "unat msg_len + 95 < 2 ^ 31" "(unat msg_len + 7) div 8 \<le> length msg" "4 \<le> length mac"
    and "L = (unat msg_len + 95) div 32"
    and "ks = fst (zuc_generate_keystream L (zuc_initialize key (eia3_iv count bearer direction)))"
  shows "\<exists>T. liblte_security_128_eia3 (Some key) count bearer direction (Some msg) msg_len (Some mac) =
      Some (LIBLTE_ERROR_INVALID_INPUTS, Some (uint32_to_uint8 T @ drop 4 mac)) \<and>
    (\<forall>j < 32. bit T (31 - j) =
      ((eia3_parity ks msg (unat msg_len) j \<noteq> ks_bit ks (unat msg_len + j)) \<noteq> ks_bit ks (32 * (L - 1) + j)))"
proof -
  let ?T = "eia3_T ks msg (unat msg_len) XOR ks ! (L - 1)"
  have "liblte_security_128_eia3 (Some key) count bearer direction (Some msg) msg_len (Some mac) =
      Some (LIBLTE_ERROR_INVALID_INPUTS, Some (uint32_to_uint8 ?T @ drop 4 mac))"
    using eia3_calls [OF assms(1-3)] by (simp add: eia3_mac_def Let_def copy_n_def assms(4,5))
  moreover have "bit ?T (31 - j) =
      ((eia3_parity ks msg (unat msg_len) j \<noteq> ks_bit ks (unat msg_len + j)) \<noteq> ks_bit ks (32 * (L - 1) + j))" if "j < 32" for j
    using bit_eia3_T [OF that, of ks msg "unat msg_len"] that by (simp add: bit_xor_iff ks_bit_def)
  ultimately show ?thesis by blast
qed

lemma eia3_mac_bits_witness:
  "\<exists>T. liblte_security_128_eia3 (Some (replicate 16 0)) 0 0 0 (Some [0, 0, 0, 0]) 1 (Some [0, 0, 0, 0]) =
      Some (LIBLTE_ERROR_INVALID_INPUTS, Some (uint32_to_uint8 T @ drop 4 [0, 0, 0, 0])) \<and>
    (\<forall>j < 32. bit T (31 - j) =
      ((eia3_parity (fst (zuc_generate_keystream 3 (zuc_initialize (replicate 16 0) (eia3_iv 0 0 0)))) [0, 0, 0, 0] (unat (1 :: u32)) j \<noteq>
         ks_bit (fst (zuc_generate_keystream 3 (zuc_initialize (replicate 16 0) (eia3_iv 0 0 0)))) (unat (1 :: u32) + j)) \<noteq>
       ks_bit (fst (zuc_generate_keystream 3 (zuc_initialize (replicate 16 0) (eia3_iv 0 0 0)))) (32 * (3 - 1) + j)))"
  by (rule eia3_mac_bits) simp_all

end
