(* ===== verification/Rijndael.thy ===== *)
theory Rijndael
  imports Liblte_Tables S3g
begin

text \<open>
  The Rijndael block cipher of \<open>lib/src/common/liblte_security.cc\<close>, the kernel of the Milenage
  functions: key schedule, the four round transformations and the encryption of a block. A
  state and a round key are four rows of four bytes (\<open>STATE_STRUCT\<close>, \<open>ROUND_KEY_STRUCT\<close>); the
  loops over rows and columns are maps. The lemmas give every transformation an inverse: with
  any key schedule the cipher is a permutation of the blocks of 16 bytes.
\<close>

type_synonym STATE_STRUCT = "u8 list list"
type_synonym ROUND_KEY_STRUCT = "u8 list list list"

section \<open>Key schedule\<close>

text \<open>Loading 16 bytes column by column, and reading them back.\<close>

definition load_block :: "u8 list \<Rightarrow> u8 list list" where
  "load_block input = map (\<lambda>row. map (\<lambda>col. input ! (4 * col + row)) [0..<4]) [0..<4]"

definition store_block :: "STATE_STRUCT \<Rightarrow> u8 list" where
  "store_block st = map (\<lambda>i. st ! (i mod 4) ! (i div 4)) [0..<16]"

definition next_round_key :: "u8 list list \<Rightarrow> u8 \<Rightarrow> u8 list list" where
  "next_round_key p round_const =
     (let c0 = [liblte_S ! unat (p ! 1 ! 3) XOR p ! 0 ! 0 XOR round_const,
                liblte_S ! unat (p ! 2 ! 3) XOR p ! 1 ! 0,
                liblte_S ! unat (p ! 3 ! 3) XOR p ! 2 ! 0,
                liblte_S ! unat (p ! 0 ! 3) XOR p ! 3 ! 0]
      in map (\<lambda>j. let a = c0 ! j; b = p ! j ! 1 XOR a; c = p ! j ! 2 XOR b; d = p ! j ! 3 XOR c
                  in [a, b, c, d]) [0..<4])"

primrec remaining_round_keys :: "nat \<Rightarrow> u8 list list \<Rightarrow> u8 \<Rightarrow> ROUND_KEY_STRUCT" where
  "remaining_round_keys 0 p round_const = []"
| "remaining_round_keys (Suc n) p round_const =
     (let rk = next_round_key p round_const
      in rk # remaining_round_keys n rk (X_TIME ! unat round_const))"

definition rijndael_key_schedule :: "u8 list \<Rightarrow> ROUND_KEY_STRUCT" where
  "rijndael_key_schedule key = load_block key # remaining_round_keys 10 (load_block key) 1"

section \<open>Round transformations\<close>

definition key_add :: "STATE_STRUCT \<Rightarrow> ROUND_KEY_STRUCT \<Rightarrow> nat \<Rightarrow> STATE_STRUCT" where
  "key_add st rk round =
     map (\<lambda>i. map (\<lambda>j. st ! i ! j XOR rk ! round ! i ! j) [0..<4]) [0..<4]"

definition byte_sub :: "STATE_STRUCT \<Rightarrow> STATE_STRUCT" where
  "byte_sub st = map (\<lambda>i. map (\<lambda>j. liblte_S ! unat (st ! i ! j)) [0..<4]) [0..<4]"

definition shift_row :: "STATE_STRUCT \<Rightarrow> STATE_STRUCT" where
  "shift_row st =
     [st ! 0,
      [st ! 1 ! 1, st ! 1 ! 2, st ! 1 ! 3, st ! 1 ! 0],
      [st ! 2 ! 2, st ! 2 ! 3, st ! 2 ! 0, st ! 2 ! 1],
      [st ! 3 ! 3, st ! 3 ! 0, st ! 3 ! 1, st ! 3 ! 2]]"

definition x_time :: "u8 \<Rightarrow> u8" where "x_time v = X_TIME ! unat v"

text \<open>One iteration of \<open>mix_column\<close>, on the four bytes of a column.\<close>

definition mix_one :: "u8 \<times> u8 \<times> u8 \<times> u8 \<Rightarrow> u8 \<times> u8 \<times> u8 \<times> u8" where
  "mix_one = (\<lambda>(s0, s1, s2, s3).
     let temp = s0 XOR s1 XOR s2 XOR s3; tmp0 = s0
     in (s0 XOR (temp XOR x_time (s0 XOR s1)),
         s1 XOR (temp XOR x_time (s1 XOR s2)),
         s2 XOR (temp XOR x_time (s2 XOR s3)),
         s3 XOR (temp XOR x_time (s3 XOR tmp0))))"

definition column :: "STATE_STRUCT \<Rightarrow> nat \<Rightarrow> u8 \<times> u8 \<times> u8 \<times> u8" where
  "column st i = (st ! 0 ! i, st ! 1 ! i, st ! 2 ! i, st ! 3 ! i)"

definition of_columns :: "(nat \<Rightarrow> u8 \<times> u8 \<times> u8 \<times> u8) \<Rightarrow> STATE_STRUCT" where
  "of_columns c =
     [map (\<lambda>i. fst (c i)) [0..<4], map (\<lambda>i. fst (snd (c i))) [0..<4],
      map (\<lambda>i. fst (snd (snd (c i)))) [0..<4], map (\<lambda>i. snd (snd (snd (c i)))) [0..<4]]"

definition mix_column :: "STATE_STRUCT \<Rightarrow> STATE_STRUCT" where
  "mix_column st = of_columns (\<lambda>i. mix_one (column st i))"

section \<open>Encryption\<close>

definition rijndael_round :: "ROUND_KEY_STRUCT \<Rightarrow> STATE_STRUCT \<Rightarrow> nat \<Rightarrow> STATE_STRUCT" where
  "rijndael_round rk st r = key_add (mix_column (shift_row (byte_sub st))) rk r"

definition rijndael_encrypt :: "u8 list \<Rightarrow> ROUND_KEY_STRUCT \<Rightarrow> u8 list" where
  "rijndael_encrypt input rk =
     (let st = key_add (load_block input) rk 0;
          st = foldl (rijndael_round rk) st [1..<10]
      in store_block (key_add (shift_row (byte_sub st)) rk 10))"

section \<open>Lemmas: every transformation is injective\<close>

text \<open>A state of four rows of four bytes.\<close>

definition square :: "u8 list list \<Rightarrow> bool" where
  "square st \<longleftrightarrow> length st = 4 \<and> (\<forall>i < 4. length (st ! i) = 4)"

lemma less_4: "i < 4 \<longleftrightarrow> i = 0 \<or> i = 1 \<or> i = 2 \<or> i = (3 :: nat)"
  by auto

lemma all_less_4: "(\<forall>i < 4. P i) \<longleftrightarrow> P 0 \<and> P 1 \<and> P 2 \<and> P (3 :: nat)"
  by (auto simp: less_4)

lemma square_eqI:
  assumes "square st" "square st'" "\<And>i j. i < 4 \<Longrightarrow> j < 4 \<Longrightarrow> st ! i ! j = st' ! i ! j"
  shows "st = st'"
  using assms by (auto simp: square_def intro!: nth_equalityI)

lemma square_transformations [simp]:
  "square (load_block input)" "square (key_add st rk r)" "square (byte_sub st)"
  "square (mix_column st)" "square st \<Longrightarrow> square (shift_row st)"
  by (simp_all add: square_def load_block_def key_add_def byte_sub_def mix_column_def
      of_columns_def shift_row_def all_less_4)

lemma upt_4: "[0..<4] = [0, 1, 2, 3 :: nat]"
  by (simp add: upt_rec)

lemma X_TIME_eq: "X_TIME = map (\<lambda>i. s3g_mul_x (of_nat i) 0x1b) [0..<256]"
  by code_simp

lemma x_time_eq: "x_time v = s3g_mul_x v 0x1b"
  using unat_less_256 [of v] by (simp add: x_time_def X_TIME_eq)

lemma x_time_xor [simp]: "x_time (v XOR w) = x_time v XOR x_time w"
  by (simp add: x_time_eq s3g_mul_x_eq MULx_xor)

text \<open>
  Twice \<open>mix_column\<close> is multiplication by the circulant matrix (5, 0, 4, 0) over GF(2^8), and
  four times it is the identity.
\<close>

lemmas xor_ac = xor.assoc xor.left_commute xor.commute

lemma xor_left_cancel [simp]: "a XOR (a XOR b) = b" for a b :: "'a::len word"
  by (simp flip: xor.assoc)

lemma xor_right_inject: "a XOR k = b XOR k \<Longrightarrow> a = b" for a b k :: "'a::len word"
  by (drule arg_cong [where f = "\<lambda>x. x XOR k"]) (simp add: xor.assoc)

lemma mix_one_twice:
  "mix_one (mix_one (a, b, c, d)) =
     (a XOR x_time (x_time (a XOR c)), b XOR x_time (x_time (b XOR d)),
      c XOR x_time (x_time (c XOR a)), d XOR x_time (x_time (d XOR b)))"
  by (simp add: mix_one_def Let_def xor_ac)

lemma mix_one_four_times: "mix_one (mix_one (mix_one (mix_one v))) = v"
  by (cases v) (simp add: mix_one_twice xor_ac)

lemma mix_one_inject: "mix_one v = mix_one w \<Longrightarrow> v = w"
  by (metis mix_one_four_times)

lemma key_add_inject:
  assumes "square st" "square st'" "key_add st rk r = key_add st' rk r"
  shows "st = st'"
proof (rule square_eqI [OF assms(1,2)])
  fix i j :: nat
  assume ij: "i < 4" "j < 4"
  have "key_add st rk r ! i ! j = key_add st' rk r ! i ! j" by (simp add: assms(3))
  with ij have "st ! i ! j XOR rk ! r ! i ! j = st' ! i ! j XOR rk ! r ! i ! j"
    by (simp add: key_add_def)
  then show "st ! i ! j = st' ! i ! j" by (rule xor_right_inject)
qed

lemma byte_sub_inject:
  assumes "square st" "square st'" "byte_sub st = byte_sub st'"
  shows "st = st'"
proof (rule square_eqI [OF assms(1,2)])
  fix i j :: nat
  assume ij: "i < 4" "j < 4"
  have "byte_sub st ! i ! j = byte_sub st' ! i ! j" by (simp add: assms(3))
  with ij show "st ! i ! j = st' ! i ! j"
    by (simp add: byte_sub_def liblte_S_inject)
qed

lemma shift_row_inject:
  assumes "square st" "square st'" "shift_row st = shift_row st'"
  shows "st = st'"
  using assms by (intro square_eqI) (auto simp: shift_row_def less_4)

lemma column_of_columns: "i < 4 \<Longrightarrow> column (of_columns c) i = c i"
  by (simp add: column_def of_columns_def)

lemma mix_column_inject:
  assumes "square st" "square st'" "mix_column st = mix_column st'"
  shows "st = st'"
proof (rule square_eqI [OF assms(1,2)])
  fix i j :: nat
  assume ij: "i < 4" "j < 4"
  have "column (mix_column st) j = column (mix_column st') j" by (simp add: assms(3))
  with ij have "column st j = column st' j"
    by (auto simp: mix_column_def column_of_columns intro: mix_one_inject)
  with ij show "st ! i ! j = st' ! i ! j" by (auto simp: column_def less_4)
qed

lemma rijndael_round_inject:
  assumes "square st" "square st'" "rijndael_round rk st r = rijndael_round rk st' r"
  shows "st = st'"
proof -
  have "mix_column (shift_row (byte_sub st)) = mix_column (shift_row (byte_sub st'))"
    by (rule key_add_inject [of _ _ rk r]) (use assms(3) in \<open>simp_all add: rijndael_round_def\<close>)
  then have "shift_row (byte_sub st) = shift_row (byte_sub st')"
    by (rule mix_column_inject [rotated 2]) simp_all
  then have "byte_sub st = byte_sub st'" by (rule shift_row_inject [rotated 2]) simp_all
  then show ?thesis by (rule byte_sub_inject [OF assms(1,2)])
qed

lemma square_round [simp]: "square (rijndael_round rk st r)"
  by (simp add: rijndael_round_def)

lemma square_rounds [simp]: "square st \<Longrightarrow> square (foldl (rijndael_round rk) st rs)"
  by (induction rs arbitrary: st) simp_all

lemma rijndael_rounds_inject:
  "square st \<Longrightarrow> square st' \<Longrightarrow> foldl (rijndael_round rk) st rs = foldl (rijndael_round rk) st' rs
    \<Longrightarrow> st = st'"
proof (induction rs arbitrary: st st')
  case (Cons r rs)
  have "rijndael_round rk st r = rijndael_round rk st' r"
    by (rule Cons.IH) (use Cons.prems in simp_all)
  with Cons.prems(1,2) show ?case by (rule rijndael_round_inject)
qed simp

lemma store_block_inject:
  assumes "square st" "square st'" "store_block st = store_block st'"
  shows "st = st'"
proof (rule square_eqI [OF assms(1,2)])
  fix i j :: nat
  assume ij: "i < 4" "j < 4"
  have "store_block st ! (4 * j + i) = store_block st' ! (4 * j + i)" by (simp add: assms(3))
  with ij show "st ! i ! j = st' ! i ! j" by (simp add: store_block_def)
qed

lemma load_block_inject:
  assumes "length xs = 16" "length ys = 16" "load_block xs = load_block ys"
  shows "xs = ys"
proof (rule nth_equalityI)
  fix n
  assume "n < length xs"
  then have n: "n mod 4 < 4" "n div 4 < 4" "4 * (n div 4) + n mod 4 = n" using assms(1) by auto
  have "load_block xs ! (n mod 4) ! (n div 4) = load_block ys ! (n mod 4) ! (n div 4)"
    by (simp add: assms(3))
  with n show "xs ! n = ys ! n" by (simp add: load_block_def)
qed (simp add: assms)

lemma rijndael_encrypt_inject:
  assumes "length xs = 16" "length ys = 16" "rijndael_encrypt xs rk = rijndael_encrypt ys rk"
  shows "xs = ys"
proof -
  let ?st = "\<lambda>xs. foldl (rijndael_round rk) (key_add (load_block xs) rk 0) [1..<10]"
  have "key_add (shift_row (byte_sub (?st xs))) rk 10 = key_add (shift_row (byte_sub (?st ys))) rk 10"
    by (rule store_block_inject) (use assms(3) in \<open>simp_all add: rijndael_encrypt_def\<close>)
  then have "shift_row (byte_sub (?st xs)) = shift_row (byte_sub (?st ys))"
    by (rule key_add_inject [rotated 2]) simp_all
  then have "byte_sub (?st xs) = byte_sub (?st ys)" by (rule shift_row_inject [rotated 2]) simp_all
  then have "?st xs = ?st ys" by (rule byte_sub_inject [rotated 2]) simp_all
  then have "key_add (load_block xs) rk 0 = key_add (load_block ys) rk 0"
    by (rule rijndael_rounds_inject [rotated 2]) simp_all
  then have "load_block xs = load_block ys" by (rule key_add_inject [rotated 2]) simp_all
  then show ?thesis by (rule load_block_inject [OF assms(1,2)])
qed

lemma length_rijndael_encrypt [simp]: "length (rijndael_encrypt xs rk) = 16"
  by (simp add: rijndael_encrypt_def store_block_def)

section \<open>Properties\<close>

text \<open>C40. With any round keys \<open>rijndael_encrypt\<close> is a permutation of the blocks of 16 bytes: no two
  blocks encrypt to the same one and every block is reached. The proof inverts each transformation;
  \<open>mix_column\<close> is the identity when applied four times, the table \<open>S\<close> has no repeated entry.\<close>

theorem rijndael_encrypt_permutation:
  "bij_betw (\<lambda>xs. rijndael_encrypt xs rk) {xs. length xs = 16} {xs. length xs = 16}"
proof -
  have inj: "inj_on (\<lambda>xs. rijndael_encrypt xs rk) {xs. length xs = 16}"
    by (rule inj_onI) (use rijndael_encrypt_inject in blast)
  have fin: "finite {xs :: u8 list. length xs = 16}"
    using finite_lists_length_eq [of "UNIV :: u8 set" 16] by simp
  have "(\<lambda>xs. rijndael_encrypt xs rk) ` {xs. length xs = 16} \<subseteq> {xs. length xs = 16}" by auto
  with inj fin show ?thesis by (simp add: bij_betw_def endo_inj_surj)
qed

end
