(* ===== verification/Milenage.thy ===== *)
theory Milenage
  imports Rijndael
begin

text \<open>
  The Milenage functions f1 to f5* and the derivation of OPc (\<open>lib/src/common/liblte_security.cc\<close>).
  Input pointers are \<open>u8 list option\<close> with \<open>None\<close> for \<open>NULL\<close>; an output pointer is given with
  the array it points to and returned with the array written. The result is \<open>None\<close> when an
  array is shorter than what the function accesses.

  Lemmas: each function on valid arguments, f1 and f1* as the halves of one block, and what the
  injectivity of the block cipher gives: a subscriber never gets the same CK, or the same IK, for
  two challenges, and the block of f1 and f1* determines SQN and AMF.
\<close>

section \<open>Steps the functions share\<close>

text \<open>\<open>rijndael_input[(i + k) % 16] = in[i]\<close> for all 16 indices.\<close>

definition rotate_block :: "nat \<Rightarrow> u8 list \<Rightarrow> u8 list" where
  "rotate_block k xs = map (\<lambda>j. xs ! ((j + 16 - k) mod 16)) [0..<16]"

definition milenage_temp :: "ROUND_KEY_STRUCT \<Rightarrow> u8 list \<Rightarrow> u8 list \<Rightarrow> u8 list" where
  "milenage_temp rk op_c rand = rijndael_encrypt (xor_bytes (take 16 rand) (take 16 op_c)) rk"

definition milenage_in1 :: "u8 list \<Rightarrow> u8 list \<Rightarrow> u8 list" where
  "milenage_in1 sqn amf = take 6 sqn @ take 2 amf @ take 6 sqn @ take 2 amf"

definition milenage_out1 :: "u8 list \<Rightarrow> u8 list \<Rightarrow> u8 list \<Rightarrow> u8 list \<Rightarrow> u8 list \<Rightarrow> u8 list" where
  "milenage_out1 k op_c rand sqn amf =
     (let rk = rijndael_key_schedule k;
          temp = milenage_temp rk op_c rand;
          rijndael_input = rotate_block 8 (xor_bytes (milenage_in1 sqn amf) (take 16 op_c));
          rijndael_input = xor_bytes rijndael_input temp
      in xor_bytes (rijndael_encrypt rijndael_input rk) (take 16 op_c))"

text \<open>The output block of f2 to f5*: rotate \<open>temp XOR op_c\<close>, flip a bit of the last byte, encrypt.\<close>

definition milenage_out :: "u8 list \<Rightarrow> u8 list \<Rightarrow> u8 list \<Rightarrow> nat \<Rightarrow> u8 \<Rightarrow> u8 list" where
  "milenage_out k op_c rand rot c =
     (let rk = rijndael_key_schedule k;
          temp = milenage_temp rk op_c rand;
          rijndael_input = rotate_block rot (xor_bytes temp (take 16 op_c));
          rijndael_input = rijndael_input[15 := rijndael_input ! 15 XOR c]
      in xor_bytes (rijndael_encrypt rijndael_input rk) (take 16 op_c))"

section \<open>The functions\<close>

definition liblte_security_milenage_f1 ::
    "u8 list option \<Rightarrow> u8 list option \<Rightarrow> u8 list option \<Rightarrow> u8 list option \<Rightarrow> u8 list option \<Rightarrow> u8 list option
     \<Rightarrow> (LIBLTE_ERROR_ENUM \<times> u8 list option) option" where
  "liblte_security_milenage_f1 k op_c rand sqn amf mac_a =
     (case (k, op_c, rand, sqn, amf, mac_a) of
        (Some k, Some op_c, Some rand, Some sqn, Some amf, Some mac_a) \<Rightarrow>
          (if length k < 16 \<or> length op_c < 16 \<or> length rand < 16 \<or> length sqn < 6 \<or> length amf < 2 \<or> length mac_a < 8
           then None
           else Some (LIBLTE_SUCCESS, Some (copy_n 8 (milenage_out1 k op_c rand sqn amf) mac_a)))
      | _ \<Rightarrow> Some (LIBLTE_ERROR_INVALID_INPUTS, mac_a))"

definition liblte_security_milenage_f1_star ::
    "u8 list option \<Rightarrow> u8 list option \<Rightarrow> u8 list option \<Rightarrow> u8 list option \<Rightarrow> u8 list option \<Rightarrow> u8 list option
     \<Rightarrow> (LIBLTE_ERROR_ENUM \<times> u8 list option) option" where
  "liblte_security_milenage_f1_star k op_c rand sqn amf mac_s =
     (case (k, op_c, rand, sqn, amf, mac_s) of
        (Some k, Some op_c, Some rand, Some sqn, Some amf, Some mac_s) \<Rightarrow>
          (if length k < 16 \<or> length op_c < 16 \<or> length rand < 16 \<or> length sqn < 6 \<or> length amf < 2 \<or> length mac_s < 8
           then None
           else Some (LIBLTE_SUCCESS, Some (copy_n 8 (drop 8 (milenage_out1 k op_c rand sqn amf)) mac_s)))
      | _ \<Rightarrow> Some (LIBLTE_ERROR_INVALID_INPUTS, mac_s))"

definition liblte_security_milenage_f2345 ::
    "u8 list option \<Rightarrow> u8 list option \<Rightarrow> u8 list option \<Rightarrow> u8 list option \<Rightarrow> u8 list option \<Rightarrow> u8 list option
     \<Rightarrow> u8 list option \<Rightarrow> (LIBLTE_ERROR_ENUM \<times> u8 list option \<times> u8 list option \<times> u8 list option \<times> u8 list option) option" where
  "liblte_security_milenage_f2345 k op_c rand res ck ik ak =
     (case (k, op_c, rand, res, ck, ik, ak) of
        (Some k, Some op_c, Some rand, Some res, Some ck, Some ik, Some ak) \<Rightarrow>
          (if length k < 16 \<or> length op_c < 16 \<or> length rand < 16
              \<or> length res < 8 \<or> length ck < 16 \<or> length ik < 16 \<or> length ak < 6
           then None
           else let out = milenage_out k op_c rand 0 1
                in Some (LIBLTE_SUCCESS,
                         Some (copy_n 8 (drop 8 out) res),
                         Some (copy_n 16 (milenage_out k op_c rand 12 2) ck),
                         Some (copy_n 16 (milenage_out k op_c rand 8 4) ik),
                         Some (copy_n 6 out ak)))
      | _ \<Rightarrow> Some (LIBLTE_ERROR_INVALID_INPUTS, res, ck, ik, ak))"

definition liblte_security_milenage_f5_star ::
    "u8 list option \<Rightarrow> u8 list option \<Rightarrow> u8 list option \<Rightarrow> u8 list option
     \<Rightarrow> (LIBLTE_ERROR_ENUM \<times> u8 list option) option" where
  "liblte_security_milenage_f5_star k op_c rand ak =
     (case (k, op_c, rand, ak) of
        (Some k, Some op_c, Some rand, Some ak) \<Rightarrow>
          (if length k < 16 \<or> length op_c < 16 \<or> length rand < 16 \<or> length ak < 6 then None
           else Some (LIBLTE_SUCCESS, Some (copy_n 6 (milenage_out k op_c rand 4 8) ak)))
      | _ \<Rightarrow> Some (LIBLTE_ERROR_INVALID_INPUTS, ak))"

definition liblte_compute_opc ::
    "u8 list option \<Rightarrow> u8 list option \<Rightarrow> u8 list option \<Rightarrow> (LIBLTE_ERROR_ENUM \<times> u8 list option) option" where
  "liblte_compute_opc k op op_c =
     (case (k, op, op_c) of
        (Some k, Some op, Some op_c) \<Rightarrow>
          (if length k < 16 \<or> length op < 16 \<or> length op_c < 16 then None
           else let e = rijndael_encrypt op (rijndael_key_schedule k)
                in Some (LIBLTE_SUCCESS, Some (copy_n 16 (xor_bytes e (take 16 op)) op_c)))
      | _ \<Rightarrow> Some (LIBLTE_ERROR_INVALID_INPUTS, op_c))"

section \<open>Lemmas\<close>

lemma length_rotate_block [simp]: "length (rotate_block k xs) = 16"
  by (simp add: rotate_block_def)

lemma length_milenage_out [simp]:
  "16 \<le> length op_c \<Longrightarrow> length (milenage_out k op_c rand rot c) = 16"
  "16 \<le> length op_c \<Longrightarrow> length (milenage_out1 k op_c rand sqn amf) = 16"
  by (simp_all add: milenage_out_def milenage_out1_def Let_def)

lemma rotate_block_inject:
  assumes "length xs = 16" "length ys = 16" "k < 16" "rotate_block k xs = rotate_block k ys"
  shows "xs = ys"
proof (rule nth_equalityI)
  fix n
  assume "n < length xs"
  with assms(1,3) have n: "(n + k) mod 16 < 16" "((n + k) mod 16 + 16 - k) mod 16 = n"
    by (auto simp: mod_if)
  have "rotate_block k xs ! ((n + k) mod 16) = rotate_block k ys ! ((n + k) mod 16)"
    by (simp add: assms(4))
  with n show "xs ! n = ys ! n" by (simp add: rotate_block_def)
qed (simp add: assms)

lemma flip_last_inject:
  assumes "length xs = 16" "length ys = 16" "xs[15 := xs ! 15 XOR c] = ys[15 := ys ! 15 XOR (c :: u8)]"
  shows "xs = ys"
proof (rule nth_equalityI)
  fix n
  assume n: "n < length xs"
  have e: "xs[15 := xs ! 15 XOR c] ! n = ys[15 := ys ! 15 XOR c] ! n" by (simp only: assms(3))
  show "xs ! n = ys ! n"
    using e n assms(1,2) xor_right_inject [of "xs ! 15" c "ys ! 15"] by (auto simp: nth_list_update split: if_splits)
qed (simp add: assms)

lemma xor_bytes_inject_right:
  "length xs = length ks \<Longrightarrow> length ys = length ks \<Longrightarrow> xor_bytes xs ks = xor_bytes ys ks \<longleftrightarrow> xs = ys"
  using xor_bytes_inject by metis

lemma milenage_temp_inject:
  assumes "length r = 16" "length r' = 16" "16 \<le> length op_c"
    and "milenage_temp rk op_c r = milenage_temp rk op_c r'"
  shows "r = r'"
proof -
  have "xor_bytes r (take 16 op_c) = xor_bytes r' (take 16 op_c)"
    by (rule rijndael_encrypt_inject [of _ _ rk]) (use assms in \<open>simp_all add: milenage_temp_def\<close>)
  with assms show ?thesis by (simp add: xor_bytes_inject_right)
qed

lemma length_milenage_temp [simp]: "length (milenage_temp rk op_c r) = 16"
  by (simp add: milenage_temp_def)

lemma milenage_out_inject:
  assumes "length r = 16" "length r' = 16" "16 \<le> length op_c" "rot < 16"
    and "milenage_out k op_c r rot c = milenage_out k op_c r' rot c"
  shows "r = r'"
proof -
  let ?rk = "rijndael_key_schedule k"
  let ?in = "\<lambda>r. rotate_block rot (xor_bytes (milenage_temp ?rk op_c r) (take 16 op_c))"
  have "rijndael_encrypt ((?in r)[15 := ?in r ! 15 XOR c]) ?rk = rijndael_encrypt ((?in r')[15 := ?in r' ! 15 XOR c]) ?rk"
    using assms(3,5) by (simp add: milenage_out_def Let_def xor_bytes_inject_right)
  then have "(?in r)[15 := ?in r ! 15 XOR c] = (?in r')[15 := ?in r' ! 15 XOR c]"
    by (rule rijndael_encrypt_inject [rotated 2]) simp_all
  then have "?in r = ?in r'" by (rule flip_last_inject [rotated 2]) simp_all
  then have "xor_bytes (milenage_temp ?rk op_c r) (take 16 op_c) = xor_bytes (milenage_temp ?rk op_c r') (take 16 op_c)"
    by (rule rotate_block_inject [rotated 3]) (use assms in simp_all)
  then have "milenage_temp ?rk op_c r = milenage_temp ?rk op_c r'"
    using assms(3) by (simp add: xor_bytes_inject_right)
  then show ?thesis by (rule milenage_temp_inject [OF assms(1-3)])
qed

lemma milenage_out1_inject:
  assumes "16 \<le> length op_c" "length sqn = 6" "length sqn' = 6" "length amf = 2" "length amf' = 2"
    and "milenage_out1 k op_c r sqn amf = milenage_out1 k op_c r sqn' amf'"
  shows "sqn = sqn'" "amf = amf'"
proof -
  let ?rk = "rijndael_key_schedule k"
  let ?in = "\<lambda>s a. rotate_block 8 (xor_bytes (milenage_in1 s a) (take 16 op_c))"
  have "rijndael_encrypt (xor_bytes (?in sqn amf) (milenage_temp ?rk op_c r)) ?rk =
      rijndael_encrypt (xor_bytes (?in sqn' amf') (milenage_temp ?rk op_c r)) ?rk"
    using assms(1,6) by (simp add: milenage_out1_def Let_def xor_bytes_inject_right)
  then have "xor_bytes (?in sqn amf) (milenage_temp ?rk op_c r) = xor_bytes (?in sqn' amf') (milenage_temp ?rk op_c r)"
    by (rule rijndael_encrypt_inject [rotated 2]) simp_all
  then have "?in sqn amf = ?in sqn' amf'" by (simp add: xor_bytes_inject_right)
  then have "xor_bytes (milenage_in1 sqn amf) (take 16 op_c) = xor_bytes (milenage_in1 sqn' amf') (take 16 op_c)"
    by (rule rotate_block_inject [rotated 3]) (use assms in \<open>simp_all add: milenage_in1_def\<close>)
  then have "milenage_in1 sqn amf = milenage_in1 sqn' amf'"
    using assms by (simp add: xor_bytes_inject_right milenage_in1_def)
  then show "sqn = sqn'" "amf = amf'" using assms by (simp_all add: milenage_in1_def)
qed

text \<open>The functions on valid arguments.\<close>

lemma milenage_functions [simp]:
  assumes "length k = 16" "length op_c = 16" "length rand = 16"
  shows "length sqn = 6 \<Longrightarrow> length amf = 2 \<Longrightarrow> length mac = 8 \<Longrightarrow>
      liblte_security_milenage_f1 (Some k) (Some op_c) (Some rand) (Some sqn) (Some amf) (Some mac) =
        Some (LIBLTE_SUCCESS, Some (take 8 (milenage_out1 k op_c rand sqn amf)))"
    and "length sqn = 6 \<Longrightarrow> length amf = 2 \<Longrightarrow> length mac = 8 \<Longrightarrow>
      liblte_security_milenage_f1_star (Some k) (Some op_c) (Some rand) (Some sqn) (Some amf) (Some mac) =
        Some (LIBLTE_SUCCESS, Some (drop 8 (milenage_out1 k op_c rand sqn amf)))"
    and "8 \<le> length res \<Longrightarrow> length ck = 16 \<Longrightarrow> length ik = 16 \<Longrightarrow> length ak = 6 \<Longrightarrow>
      liblte_security_milenage_f2345 (Some k) (Some op_c) (Some rand) (Some res) (Some ck) (Some ik) (Some ak) =
        Some (LIBLTE_SUCCESS, Some (drop 8 (milenage_out k op_c rand 0 1) @ drop 8 res),
              Some (milenage_out k op_c rand 12 2), Some (milenage_out k op_c rand 8 4),
              Some (take 6 (milenage_out k op_c rand 0 1)))"
    and "length ak = 6 \<Longrightarrow>
      liblte_security_milenage_f5_star (Some k) (Some op_c) (Some rand) (Some ak) =
        Some (LIBLTE_SUCCESS, Some (take 6 (milenage_out k op_c rand 4 8)))"
  using assms
  by (simp_all add: liblte_security_milenage_f1_def liblte_security_milenage_f1_star_def
      liblte_security_milenage_f2345_def liblte_security_milenage_f5_star_def copy_n_def Let_def)

section \<open>Properties\<close>

text \<open>C26. For a subscriber (\<open>k\<close>, \<open>op_c\<close>) two different challenges never give the same ciphering key
  and never the same integrity key: f3 and f4 are injective in RAND.\<close>

theorem milenage_keys_differ:
  assumes "length k = 16" "length op_c = 16" "length rand = 16" "length rand' = 16" "rand \<noteq> rand'"
    and "length res = 8" "length ck = 16" "length ik = 16" "length ak = 6"
    and "liblte_security_milenage_f2345 (Some k) (Some op_c) (Some rand) (Some res) (Some ck) (Some ik) (Some ak) =
      Some (e1, Some res1, Some ck1, Some ik1, Some ak1)"
    and "liblte_security_milenage_f2345 (Some k) (Some op_c) (Some rand') (Some res) (Some ck) (Some ik) (Some ak) =
      Some (e2, Some res2, Some ck2, Some ik2, Some ak2)"
  shows "ck1 \<noteq> ck2 \<and> ik1 \<noteq> ik2"
  using assms milenage_out_inject [of rand rand' op_c 12 k 2] milenage_out_inject [of rand rand' op_c 8 k 4]
  by auto

lemma milenage_keys_differ_witness:
  "milenage_out (replicate 16 1) (replicate 16 2) (replicate 16 3) 12 2 \<noteq>
     milenage_out (replicate 16 1) (replicate 16 2) (replicate 16 4) 12 2 \<and>
   milenage_out (replicate 16 1) (replicate 16 2) (replicate 16 3) 8 4 \<noteq>
     milenage_out (replicate 16 1) (replicate 16 2) (replicate 16 4) 8 4"
  by (rule milenage_keys_differ [of "replicate 16 1" "replicate 16 2" "replicate 16 3" "replicate 16 4"
        "replicate 8 0" "replicate 16 0" "replicate 16 0" "replicate 6 0"]) (simp_all add: numeral_eq_Suc)

text \<open>C27. The MAC-A of f1 and the MAC-S of f1* are the two halves of one block; for one challenge they
  determine the sequence number and the AMF: if both agree for two pairs, the pairs are equal.\<close>

theorem milenage_macs_bind_sqn:
  assumes "length k = 16" "length op_c = 16" "length rand = 16" "length m = 8"
    and "length sqn = 6" "length sqn' = 6" "length amf = 2" "length amf' = 2"
    and "liblte_security_milenage_f1 (Some k) (Some op_c) (Some rand) (Some sqn) (Some amf) (Some m) =
      liblte_security_milenage_f1 (Some k) (Some op_c) (Some rand) (Some sqn') (Some amf') (Some m)"
    and "liblte_security_milenage_f1_star (Some k) (Some op_c) (Some rand) (Some sqn) (Some amf) (Some m) =
      liblte_security_milenage_f1_star (Some k) (Some op_c) (Some rand) (Some sqn') (Some amf') (Some m)"
  shows "sqn = sqn' \<and> amf = amf'"
proof -
  have "take 8 (milenage_out1 k op_c rand sqn amf) = take 8 (milenage_out1 k op_c rand sqn' amf')"
    "drop 8 (milenage_out1 k op_c rand sqn amf) = drop 8 (milenage_out1 k op_c rand sqn' amf')"
    using assms by simp_all
  then have e: "milenage_out1 k op_c rand sqn amf = milenage_out1 k op_c rand sqn' amf'"
    by (metis append_take_drop_id)
  show ?thesis
    using milenage_out1_inject [OF _ assms(5-8) e] assms(2) by simp
qed

text \<open>Two sequence numbers of one challenge are told apart: at least one of the two MACs differs.\<close>

lemma milenage_macs_bind_sqn_witness:
  "\<not> (liblte_security_milenage_f1 (Some (replicate 16 1)) (Some (replicate 16 2)) (Some (replicate 16 3))
        (Some [0, 0, 0, 0, 0, 1]) (Some [0x80, 0]) (Some (replicate 8 0)) =
      liblte_security_milenage_f1 (Some (replicate 16 1)) (Some (replicate 16 2)) (Some (replicate 16 3))
        (Some [0, 0, 0, 0, 0, 2]) (Some [0x80, 0]) (Some (replicate 8 0)) \<and>
     liblte_security_milenage_f1_star (Some (replicate 16 1)) (Some (replicate 16 2)) (Some (replicate 16 3))
        (Some [0, 0, 0, 0, 0, 1]) (Some [0x80, 0]) (Some (replicate 8 0)) =
      liblte_security_milenage_f1_star (Some (replicate 16 1)) (Some (replicate 16 2)) (Some (replicate 16 3))
        (Some [0, 0, 0, 0, 0, 2]) (Some [0x80, 0]) (Some (replicate 8 0)))"
proof (rule notI, elim conjE)
  assume "liblte_security_milenage_f1 (Some (replicate 16 1)) (Some (replicate 16 2)) (Some (replicate 16 3))
        (Some [0, 0, 0, 0, 0, 1]) (Some [0x80, 0]) (Some (replicate 8 0)) =
      liblte_security_milenage_f1 (Some (replicate 16 1)) (Some (replicate 16 2)) (Some (replicate 16 3))
        (Some [0, 0, 0, 0, 0, 2]) (Some [0x80, 0]) (Some (replicate 8 0))"
    and "liblte_security_milenage_f1_star (Some (replicate 16 1)) (Some (replicate 16 2)) (Some (replicate 16 3))
        (Some [0, 0, 0, 0, 0, 1]) (Some [0x80, 0]) (Some (replicate 8 0)) =
      liblte_security_milenage_f1_star (Some (replicate 16 1)) (Some (replicate 16 2)) (Some (replicate 16 3))
        (Some [0, 0, 0, 0, 0, 2]) (Some [0x80, 0]) (Some (replicate 8 0))"
  from milenage_macs_bind_sqn [OF _ _ _ _ _ _ _ _ this] show False by simp
qed

end
