(* ===== verification/Liblte_Security.thy ===== *)
theory Liblte_Security
  imports S3g Zuc Milenage
begin

text \<open>
  The rest of \<open>lib/src/common/liblte_security.cc\<close>: the key derivation functions of TS 33.401 and
  the algorithms built on AES, 128-EIA2 and 128-EEA2. AES and HMAC-SHA-256 come from mbed TLS (or
  PolarSSL) through \<open>liblte_ssl.h\<close>: they are the fields of the record \<open>crypto_lib\<close>, an argument of
  every definition that calls them, and \<open>crypto_lib_ok\<close> states what the library documents.

  Lemmas: every key derivation hashes the string of TS 33.401 for its purpose (\<open>kdf_string\<close>) and the strings of
  different derivations never coincide, the serving network can be read
  back from the string of K_ASME, both variants of EIA2 compute AES-CMAC (RFC 4493).
\<close>

section \<open>The cryptographic library\<close>

record crypto_lib =
  lib_setkey_enc :: "u8 list \<Rightarrow> int"
  lib_crypt_ecb :: "u8 list \<Rightarrow> u8 list \<Rightarrow> u8 list"
  lib_crypt_ctr :: "u8 list \<Rightarrow> u8 list \<Rightarrow> u8 list \<Rightarrow> int \<times> u8 list"
  lib_sha256 :: "u8 list \<Rightarrow> u8 list \<Rightarrow> u8 list"

text \<open>
  Setting a key of 128 bits succeeds, a block has 16 bytes, counter mode succeeds and applying it
  twice with one key and one nonce gives back the input, a digest has 32 bytes.
\<close>

definition crypto_lib_ok :: "crypto_lib \<Rightarrow> bool" where
  "crypto_lib_ok L \<longleftrightarrow>
     (\<forall>k. 16 \<le> length k \<longrightarrow> lib_setkey_enc L k = 0) \<and>
     (\<forall>k b. length (lib_crypt_ecb L k b) = 16) \<and>
     (\<forall>k n m. fst (lib_crypt_ctr L k n m) = 0 \<and> length (snd (lib_crypt_ctr L k n m)) = length m \<and>
              snd (lib_crypt_ctr L k n (snd (lib_crypt_ctr L k n m))) = m) \<and>
     (\<forall>k m. length (lib_sha256 L k m) = 32)"

text \<open>Arguments of a derivation function: none \<open>NULL\<close>, each array long enough.\<close>

definition args :: "(nat \<times> u8 list option) list \<Rightarrow> bool option" where
  "args xs =
     (if list_ex (\<lambda>(n, p). p = None) xs then Some False
      else if list_all (\<lambda>(n, p). n \<le> length (the p)) xs then Some True else None)"

section \<open>Key derivation\<close>

datatype CIPHERING_ALGORITHM_ID_ENUM =
    CIPHERING_ALGORITHM_ID_EEA0 | CIPHERING_ALGORITHM_ID_128_EEA1 | CIPHERING_ALGORITHM_ID_128_EEA2
  | CIPHERING_ALGORITHM_ID_128_EEA3 | CIPHERING_ALGORITHM_ID_N_ITEMS

datatype INTEGRITY_ALGORITHM_ID_ENUM =
    INTEGRITY_ALGORITHM_ID_EIA0 | INTEGRITY_ALGORITHM_ID_128_EIA1 | INTEGRITY_ALGORITHM_ID_128_EIA2
  | INTEGRITY_ALGORITHM_ID_128_EIA3 | INTEGRITY_ALGORITHM_ID_N_ITEMS

fun cipher_alg_id :: "CIPHERING_ALGORITHM_ID_ENUM \<Rightarrow> u8" where
  "cipher_alg_id CIPHERING_ALGORITHM_ID_EEA0 = 0"
| "cipher_alg_id CIPHERING_ALGORITHM_ID_128_EEA1 = 1"
| "cipher_alg_id CIPHERING_ALGORITHM_ID_128_EEA2 = 2"
| "cipher_alg_id CIPHERING_ALGORITHM_ID_128_EEA3 = 3"
| "cipher_alg_id CIPHERING_ALGORITHM_ID_N_ITEMS = 4"

fun integ_alg_id :: "INTEGRITY_ALGORITHM_ID_ENUM \<Rightarrow> u8" where
  "integ_alg_id INTEGRITY_ALGORITHM_ID_EIA0 = 0"
| "integ_alg_id INTEGRITY_ALGORITHM_ID_128_EIA1 = 1"
| "integ_alg_id INTEGRITY_ALGORITHM_ID_128_EIA2 = 2"
| "integ_alg_id INTEGRITY_ALGORITHM_ID_128_EIA3 = 3"
| "integ_alg_id INTEGRITY_ALGORITHM_ID_N_ITEMS = 4"

text \<open>The string \<open>S\<close> of each derivation.\<close>

definition k_asme_S :: "u8 list \<Rightarrow> u8 list \<Rightarrow> u16 \<Rightarrow> u16 \<Rightarrow> u8 list" where
  "k_asme_S sqn ak mcc mnc =
     [0x10, u8_of ((mcc AND 0x00F0) OR shr (mcc AND 0x0F00) 8)] @
     (if mnc AND 0xFF00 = 0xFF00
      then [u8_of (0xF0 OR (mcc AND 0x000F)),
            u8_of (shl (mnc AND 0x000F) 4 OR shr (mnc AND 0x00F0) 4)]
      else [u8_of (shl (mnc AND 0x000F) 4 OR (mcc AND 0x000F)),
            u8_of ((mnc AND 0x00F0) OR shr (mnc AND 0x0F00) 8)]) @
     [0x00, 0x03] @ xor_bytes (take 6 sqn) (take 6 ak) @ [0x00, 0x06]"

definition k_enb_S :: "u32 \<Rightarrow> u8 list" where
  "k_enb_S nas_count =
     [0x11, u8_of (shr nas_count 24 AND 0xFF), u8_of (shr nas_count 16 AND 0xFF),
      u8_of (shr nas_count 8 AND 0xFF), u8_of (nas_count AND 0xFF), 0x00, 0x04]"

definition k_enb_star_S :: "u32 \<Rightarrow> u32 \<Rightarrow> u8 list" where
  "k_enb_star_S pci earfcn =
     [0x13, u8_of (shr pci 8 AND 0xFF), u8_of (pci AND 0xFF), 0x00, 0x02,
      u8_of (shr earfcn 8 AND 0xFF), u8_of (earfcn AND 0xFF), 0x00, 0x02]"

definition nh_S :: "u8 list \<Rightarrow> u8 list" where
  "nh_S sync = [0x12] @ take 32 sync @ [0x00, 0x20]"

text \<open>The string of an algorithm key: \<open>P0\<close> tells the kind of key, \<open>P1\<close> the algorithm.\<close>

definition alg_key_S :: "u8 \<Rightarrow> u8 \<Rightarrow> u8 list" where
  "alg_key_S P0 P1 = [0x15, P0, 0x00, 0x01, P1, 0x00, 0x01]"

definition liblte_security_generate_k_asme ::
    "crypto_lib \<Rightarrow> u8 list option \<Rightarrow> u8 list option \<Rightarrow> u8 list option \<Rightarrow> u8 list option \<Rightarrow> u16 \<Rightarrow> u16
     \<Rightarrow> u8 list option \<Rightarrow> (LIBLTE_ERROR_ENUM \<times> u8 list option) option" where
  "liblte_security_generate_k_asme L ck ik ak sqn mcc mnc k_asme =
     (case args [(16, ck), (16, ik), (6, ak), (6, sqn), (32, k_asme)] of
        None \<Rightarrow> None
      | Some False \<Rightarrow> Some (LIBLTE_ERROR_INVALID_INPUTS, k_asme)
      | Some True \<Rightarrow>
          Some (LIBLTE_SUCCESS,
                Some (copy_n 32 (lib_sha256 L (take 16 (the ck) @ take 16 (the ik))
                                   (k_asme_S (the sqn) (the ak) mcc mnc)) (the k_asme))))"

definition liblte_security_generate_k_enb ::
    "crypto_lib \<Rightarrow> u8 list option \<Rightarrow> u32 \<Rightarrow> u8 list option \<Rightarrow> (LIBLTE_ERROR_ENUM \<times> u8 list option) option" where
  "liblte_security_generate_k_enb L k_asme nas_count k_enb =
     (case args [(32, k_asme), (32, k_enb)] of
        None \<Rightarrow> None
      | Some False \<Rightarrow> Some (LIBLTE_ERROR_INVALID_INPUTS, k_enb)
      | Some True \<Rightarrow>
          Some (LIBLTE_SUCCESS,
                Some (copy_n 32 (lib_sha256 L (take 32 (the k_asme)) (k_enb_S nas_count)) (the k_enb))))"

definition liblte_security_generate_k_enb_star ::
    "crypto_lib \<Rightarrow> u8 list option \<Rightarrow> u32 \<Rightarrow> u32 \<Rightarrow> u8 list option \<Rightarrow> (LIBLTE_ERROR_ENUM \<times> u8 list option) option" where
  "liblte_security_generate_k_enb_star L k_enb pci earfcn k_enb_star =
     (case args [(32, k_enb_star), (32, k_enb)] of
        None \<Rightarrow> None
      | Some False \<Rightarrow> Some (LIBLTE_ERROR_INVALID_INPUTS, k_enb_star)
      | Some True \<Rightarrow>
          Some (LIBLTE_SUCCESS,
                Some (copy_n 32 (lib_sha256 L (take 32 (the k_enb)) (k_enb_star_S pci earfcn)) (the k_enb_star))))"

definition liblte_security_generate_nh ::
    "crypto_lib \<Rightarrow> u8 list option \<Rightarrow> u8 list option \<Rightarrow> u8 list option \<Rightarrow> (LIBLTE_ERROR_ENUM \<times> u8 list option) option" where
  "liblte_security_generate_nh L k_asme sync nh =
     (case args [(32, k_asme), (32, sync), (32, nh)] of
        None \<Rightarrow> None
      | Some False \<Rightarrow> Some (LIBLTE_ERROR_INVALID_INPUTS, nh)
      | Some True \<Rightarrow>
          Some (LIBLTE_SUCCESS,
                Some (copy_n 32 (lib_sha256 L (take 32 (the k_asme)) (nh_S (the sync))) (the nh))))"

text \<open>The three functions that derive a ciphering and an integrity key differ in \<open>P0\<close>.\<close>

definition generate_alg_keys ::
    "crypto_lib \<Rightarrow> u8 \<Rightarrow> u8 \<Rightarrow> u8 list option \<Rightarrow> u8 \<Rightarrow> u8 \<Rightarrow> u8 list option \<Rightarrow> u8 list option
     \<Rightarrow> (LIBLTE_ERROR_ENUM \<times> u8 list option \<times> u8 list option) option" where
  "generate_alg_keys L P0_enc P0_int key enc_alg_id int_alg_id k_enc k_int =
     (case args [(32, key), (32, k_enc), (32, k_int)] of
        None \<Rightarrow> None
      | Some False \<Rightarrow> Some (LIBLTE_ERROR_INVALID_INPUTS, k_enc, k_int)
      | Some True \<Rightarrow>
          Some (LIBLTE_SUCCESS,
                Some (copy_n 32 (lib_sha256 L (take 32 (the key)) (alg_key_S P0_enc enc_alg_id)) (the k_enc)),
                Some (copy_n 32 (lib_sha256 L (take 32 (the key)) (alg_key_S P0_int int_alg_id)) (the k_int))))"

definition liblte_security_generate_k_nas ::
    "crypto_lib \<Rightarrow> u8 list option \<Rightarrow> CIPHERING_ALGORITHM_ID_ENUM \<Rightarrow> INTEGRITY_ALGORITHM_ID_ENUM
     \<Rightarrow> u8 list option \<Rightarrow> u8 list option \<Rightarrow> (LIBLTE_ERROR_ENUM \<times> u8 list option \<times> u8 list option) option" where
  "liblte_security_generate_k_nas L k_asme enc_alg_id int_alg_id k_nas_enc k_nas_int =
     generate_alg_keys L 0x01 0x02 k_asme (cipher_alg_id enc_alg_id) (integ_alg_id int_alg_id) k_nas_enc k_nas_int"

definition liblte_security_generate_k_rrc ::
    "crypto_lib \<Rightarrow> u8 list option \<Rightarrow> CIPHERING_ALGORITHM_ID_ENUM \<Rightarrow> INTEGRITY_ALGORITHM_ID_ENUM
     \<Rightarrow> u8 list option \<Rightarrow> u8 list option \<Rightarrow> (LIBLTE_ERROR_ENUM \<times> u8 list option \<times> u8 list option) option" where
  "liblte_security_generate_k_rrc L k_enb enc_alg_id int_alg_id k_rrc_enc k_rrc_int =
     generate_alg_keys L 0x03 0x04 k_enb (cipher_alg_id enc_alg_id) (integ_alg_id int_alg_id) k_rrc_enc k_rrc_int"

definition liblte_security_generate_k_up ::
    "crypto_lib \<Rightarrow> u8 list option \<Rightarrow> CIPHERING_ALGORITHM_ID_ENUM \<Rightarrow> INTEGRITY_ALGORITHM_ID_ENUM
     \<Rightarrow> u8 list option \<Rightarrow> u8 list option \<Rightarrow> (LIBLTE_ERROR_ENUM \<times> u8 list option \<times> u8 list option) option" where
  "liblte_security_generate_k_up L k_enb enc_alg_id int_alg_id k_up_enc k_up_int =
     generate_alg_keys L 0x05 0x06 k_enb (cipher_alg_id enc_alg_id) (integ_alg_id int_alg_id) k_up_enc k_up_int"

section \<open>128-EIA2\<close>

record LIBLTE_BIT_MSG_STRUCT =
  N_bits :: u32
  bit_msg :: "u8 list"

text \<open>A subkey: the block shifted left by one bit, reduced if its first bit was set.\<close>

definition cmac_double :: "u8 list \<Rightarrow> u8 list" where
  "cmac_double L =
     (let K = map (\<lambda>i. shl (L ! i) 1 OR (shr (L ! (i + 1)) 7 AND 0x01)) [0..<15] @ [shl (L ! 15) 1]
      in if L ! 0 AND 0x80 \<noteq> 0 then K[15 := K ! 15 XOR 0x87] else K)"

definition eia2_header :: "u32 \<Rightarrow> u8 \<Rightarrow> u8 \<Rightarrow> u8 list" where
  "eia2_header count bearer direction =
     [u8_of (shr count 24 AND 0xFF), u8_of (shr count 16 AND 0xFF), u8_of (shr count 8 AND 0xFF),
      u8_of (count AND 0xFF), shl bearer 3 OR shl direction 2, 0, 0, 0]"

definition M_block :: "u8 list \<Rightarrow> nat \<Rightarrow> u8 list" where
  "M_block M i = take 16 (drop (16 * i) M)"

text \<open>MAC generation over \<open>n\<close> blocks of \<open>M\<close>, the last one with \<open>pad_bits\<close> used bits modulo 128.\<close>

definition eia2_T :: "crypto_lib \<Rightarrow> u8 list \<Rightarrow> u8 list \<Rightarrow> nat \<Rightarrow> nat \<Rightarrow> u8 list" where
  "eia2_T L key M n pad_bits =
     (let aes = lib_crypt_ecb L key;
          K1 = cmac_double (aes (replicate 16 0));
          K2 = cmac_double K1;
          T = foldl (\<lambda>T i. aes (xor_bytes T (M_block M i))) (replicate 16 0) [0..<n - 1];
          i = n - 1
      in if pad_bits = 0 then aes (xor_bytes (xor_bytes T K1) (M_block M i))
         else let p = 128 - pad_bits - 1;
                  a = i * 16 + (15 - p div 8);
                  M = M[a := M ! a OR shl 0x1 (p mod 8)]
              in aes (xor_bytes (xor_bytes T K2) (M_block M i)))"

text \<open>
  The number of blocks is computed by \<open>ceilf\<close> on single-precision floats, which is exact below
  \<open>2 ^ 24\<close>. The array \<open>M\<close> lives on the stack; longer messages have no value in the model.
\<close>

definition liblte_security_128_eia2 ::
    "crypto_lib \<Rightarrow> u8 list option \<Rightarrow> u32 \<Rightarrow> u8 \<Rightarrow> u8 \<Rightarrow> u8 list option \<Rightarrow> u32 \<Rightarrow> u8 list option
     \<Rightarrow> (LIBLTE_ERROR_ENUM \<times> u8 list option) option" where
  "liblte_security_128_eia2 L key count bearer direction msg msg_len mac =
     (let len = unat msg_len in
      if len + 24 \<ge> 2 ^ 24 then None
      else case args [(16, key), (len, msg), (4, mac)] of
        None \<Rightarrow> None
      | Some False \<Rightarrow> Some (LIBLTE_ERROR_INVALID_INPUTS, mac)
      | Some True \<Rightarrow>
          (let M = eia2_header count bearer direction @ take len (the msg) @ replicate 16 0;
               n = (len + 8 + 15) div 16;
               pad_bits = (len * 8 + 64) mod 128
           in Some (LIBLTE_SUCCESS, Some (copy_n 4 (eia2_T L (the key) M n pad_bits) (the mac)))))"

text \<open>Packing the bits of a message into the bytes of \<open>M\<close>.\<close>

definition pack_byte :: "u8 list \<Rightarrow> nat \<Rightarrow> nat \<Rightarrow> u8" where
  "pack_byte bits i k = foldl (\<lambda>b j. b OR shl (bits ! (i * 8 + j)) (7 - j)) 0 [0..<k]"

definition liblte_security_128_eia2_bits ::
    "crypto_lib \<Rightarrow> u8 list option \<Rightarrow> u32 \<Rightarrow> u8 \<Rightarrow> u8 \<Rightarrow> LIBLTE_BIT_MSG_STRUCT option \<Rightarrow> u8 list option
     \<Rightarrow> (LIBLTE_ERROR_ENUM \<times> u8 list option) option" where
  "liblte_security_128_eia2_bits L key count bearer direction msg mac =
     (case msg of
        None \<Rightarrow> None
      | Some m \<Rightarrow>
          (let N = unat (N_bits m) in
           if N * 8 + 24 \<ge> 2 ^ 24 then None
           else case args [(16, key), (N, Some (bit_msg m)), (4, mac)] of
             None \<Rightarrow> None
           | Some False \<Rightarrow> Some (LIBLTE_ERROR_INVALID_INPUTS, mac)
           | Some True \<Rightarrow>
               (let body = map (\<lambda>i. pack_byte (bit_msg m) i 8) [0..<N div 8]
                        @ (if N mod 8 \<noteq> 0 then [pack_byte (bit_msg m) (N div 8) (N mod 8)] else []);
                    M = eia2_header count bearer direction @ body @ replicate (N * 8 + 16 - length body) 0;
                    n = (N + 64 + 127) div 128;
                    pad_bits = (N + 64) mod 128
                in Some (LIBLTE_SUCCESS, Some (copy_n 4 (eia2_T L (the key) M n pad_bits) (the mac))))))"

section \<open>128-EEA2\<close>

definition eea2_nonce :: "u32 \<Rightarrow> u8 \<Rightarrow> u8 \<Rightarrow> u8 list" where
  "eea2_nonce count bearer direction =
     [u8_of (shr count 24 AND 0xFF), u8_of (shr count 16 AND 0xFF), u8_of (shr count 8 AND 0xFF),
      u8_of (count AND 0xFF), shl (bearer AND 0x1F) 3 OR shl (direction AND 0x01) 2] @ replicate 11 0"

definition liblte_security_encryption_eea2 ::
    "crypto_lib \<Rightarrow> u8 list option \<Rightarrow> u32 \<Rightarrow> u8 \<Rightarrow> u8 \<Rightarrow> u8 list option \<Rightarrow> u32 \<Rightarrow> u8 list option
     \<Rightarrow> (LIBLTE_ERROR_ENUM \<times> u8 list option) option" where
  "liblte_security_encryption_eea2 L key count bearer direction msg msg_len out =
     (let n8 = unat ((msg_len + 7) div 8) in
      case args [(16, key), (n8, msg), (n8, out)] of
        None \<Rightarrow> None
      | Some False \<Rightarrow> Some (LIBLTE_ERROR_INVALID_INPUTS, out)
      | Some True \<Rightarrow>
          (if lib_setkey_enc L (the key) \<noteq> 0 then Some (LIBLTE_ERROR_INVALID_INPUTS, out)
           else let (ret, ct) = lib_crypt_ctr L (the key) (eea2_nonce count bearer direction) (take n8 (the msg));
                    out' = copy_n n8 ct (the out)
                in if ret \<noteq> 0 then Some (LIBLTE_ERROR_INVALID_INPUTS, Some out')
                   else map_option (\<lambda>o'. (LIBLTE_SUCCESS, Some o')) (zero_tailing_bits out' msg_len)))"

definition liblte_security_decryption_eea2 ::
    "crypto_lib \<Rightarrow> u8 list option \<Rightarrow> u32 \<Rightarrow> u8 \<Rightarrow> u8 \<Rightarrow> u8 list option \<Rightarrow> u32 \<Rightarrow> u8 list option
     \<Rightarrow> (LIBLTE_ERROR_ENUM \<times> u8 list option) option" where
  "liblte_security_decryption_eea2 L key count bearer direction ct ct_len out =
     liblte_security_encryption_eea2 L key count bearer direction ct ct_len out"

text \<open>An instance of the interface, for examples: exclusive or in place of the block cipher.\<close>

definition sample_lib :: crypto_lib where
  "sample_lib =
     \<lparr>lib_setkey_enc = (\<lambda>k. 0),
      lib_crypt_ecb = (\<lambda>k b. xor_bytes (take 16 (k @ replicate 16 0)) (take 16 (b @ replicate 16 0))),
      lib_crypt_ctr = (\<lambda>k n m. (0, map (\<lambda>b. b XOR n ! 3) m)),
      lib_sha256 = (\<lambda>k m. take 32 (m @ replicate 32 0))\<rparr>"

lemma sample_lib_ok [simp]: "crypto_lib_ok sample_lib"
  by (auto simp: crypto_lib_ok_def sample_lib_def o_def xor.assoc min_def)

section \<open>Lemmas: EIA2 computes AES-CMAC\<close>

text \<open>The CMAC of a non-empty message, with the subkeys as the code doubles them.\<close>

definition cmac :: "crypto_lib \<Rightarrow> u8 list \<Rightarrow> u8 list \<Rightarrow> u8 list" where
  "cmac L key m =
     (let aes = lib_crypt_ecb L key;
          K1 = cmac_double (aes (replicate 16 0));
          K2 = cmac_double K1;
          n = (length m + 15) div 16;
          T = foldl (\<lambda>T i. aes (xor_bytes T (M_block m i))) (replicate 16 0) [0..<n - 1];
          last = drop (16 * (n - 1)) m
      in if length last = 16 then aes (xor_bytes (xor_bytes T K1) last)
         else aes (xor_bytes (xor_bytes T K2) (last @ 0x80 # replicate (15 - length last) 0)))"

lemma blocks_16:
  assumes "0 < (l :: nat)"
  obtains q r where "l = 16 * q + r" "0 < r" "r \<le> 16" "(l + 15) div 16 = Suc q"
proof -
  define q r where "q = (l - 1) div 16" and "r = (l - 1) mod 16 + 1"
  have "l = 16 * q + r" "0 < r" "r \<le> 16" using assms by (simp_all add: q_def r_def Suc_leI)
  moreover from this have "(l + 15) div 16 = Suc q" by (intro div_nat_eqI) simp_all
  ultimately show thesis by (rule that)
qed

lemma foldl_blocks_append:
  assumes "16 * q \<le> length m"
  shows "foldl (\<lambda>T i. aes (xor_bytes T (M_block (m @ z) i))) T0 [0..<q] =
    foldl (\<lambda>T i. aes (xor_bytes T (M_block m i))) T0 [0..<q]"
proof (rule foldl_cong)
  fix T i
  assume "i \<in> set [0..<q]"
  then have "16 * i + 16 \<le> length m" using assms by simp
  then show "aes (xor_bytes T (M_block (m @ z) i)) = aes (xor_bytes T (M_block m i))"
    by (simp add: M_block_def)
qed simp_all

lemma eia2_T_cmac:
  assumes "0 < length m" "16 \<le> k"
  shows "eia2_T L key (m @ replicate k 0) ((length m + 15) div 16) (8 * length m mod 128) = cmac L key m"
proof -
  obtain q r where q: "length m = 16 * q + r" "0 < r" "r \<le> 16" "(length m + 15) div 16 = Suc q"
    using blocks_16 [OF assms(1)] by metis
  have m: "8 * length m mod 128 = 8 * (r mod 16)"
    by (simp add: q(1) distrib_left mod_mult_mult1 [of 8 r 16, simplified])
  note f = foldl_blocks_append [of q m "lib_crypt_ecb L key" "replicate k 0" "replicate 16 0"]
  have l: "length (drop (16 * q) m) = r" using q(1) by simp
  show ?thesis
  proof (cases "r = 16")
    case True
    then have "M_block (m @ replicate k 0) q = drop (16 * q) m" using q(1) by (simp add: M_block_def)
    with True f q l m show ?thesis by (simp add: eia2_T_def cmac_def Let_def)
  next
    case False
    then have r: "r < 16" using q(3) by simp
    have p: "(128 - 8 * r - 1) div 8 = 15 - r" "(128 - 8 * r - 1) mod 8 = 7"
    proof -
      have "128 - 8 * r - 1 = 8 * (15 - r) + 7" using r by arith
      then show "(128 - 8 * r - 1) div 8 = 15 - r" "(128 - 8 * r - 1) mod 8 = 7" by simp_all
    qed
    have a: "q * 16 + (15 - (15 - r)) = length m" using q(1) r by simp
    obtain k' where k': "k = Suc k'" "15 \<le> k'" using assms(2) by (cases k) auto
    have "M_block ((m @ replicate k 0)[length m := (0 :: u8) OR shl 0x1 7]) q =
        drop (16 * q) m @ 0x80 # replicate (15 - r) 0"
      using q(1) r k' by (simp add: M_block_def list_update_append take_Cons')
    moreover have "(m @ replicate k 0) ! length m = 0" using k' by (simp add: nth_append)
    ultimately show ?thesis
      using f q l m r False p a by (simp add: eia2_T_def cmac_def Let_def mult.commute [of q 16])
  qed
qed

lemma length_eia2_header [simp]: "length (eia2_header count bearer direction) = 8"
  by (simp add: eia2_header_def)

lemma args_Some [simp]:
  "args ((n, None) # xs) = Some False"
  "args ((n, Some x) # xs) = (if n \<le> length x then args xs else if args xs = Some False then Some False else None)"
  "args [] = Some True"
  by (auto simp: args_def)

lemma eia2_cmac:
  assumes "16 \<le> length key" "length msg + 24 < 2 ^ 24" "4 \<le> length mac"
  shows "liblte_security_128_eia2 L (Some key) count bearer direction (Some msg) (of_nat (length msg)) (Some mac) =
    Some (LIBLTE_SUCCESS, Some (copy_n 4 (cmac L key (eia2_header count bearer direction @ msg)) mac))"
proof -
  have "unat (of_nat (length msg) :: u32) = length msg" using assms(2) by (simp add: unat_of_nat)
  moreover have "eia2_T L key ((eia2_header count bearer direction @ msg) @ replicate 16 0)
      ((length (eia2_header count bearer direction @ msg) + 15) div 16)
      (8 * length (eia2_header count bearer direction @ msg) mod 128) = cmac L key (eia2_header count bearer direction @ msg)"
    by (rule eia2_T_cmac) simp_all
  ultimately show ?thesis
    using assms by (simp add: liblte_security_128_eia2_def Let_def mult.commute add.commute)
qed

definition bits_of_bytes :: "u8 list \<Rightarrow> u8 list" where
  "bits_of_bytes bs = map (\<lambda>p. shr (bs ! (p div 8)) (7 - p mod 8) AND 1) [0..<8 * length bs]"

lemma pack_bits_of_bytes:
  assumes "i < length bs"
  shows "pack_byte (bits_of_bytes bs) i 8 = bs ! i"
proof -
  have n: "bits_of_bytes bs ! (i * 8 + j) = (shr (bs ! i) (7 - j) AND 1)" if "j < 8" for j
    using that assms by (simp add: bits_of_bytes_def)
  have "[0..<8] = [0, 1, 2, 3, 4, 5, 6, 7 :: nat]" by (simp add: upt_rec)
  then have "pack_byte (bits_of_bytes bs) i 8 =
      foldl (\<lambda>b j. b OR shl (shr (bs ! i) (7 - j) AND 1) (7 - j)) 0 [0, 1, 2, 3, 4, 5, 6, 7]"
    using n [of 0] n [of 1] n [of 2] n [of 3] n [of 4] n [of 5] n [of 6] n [of 7] by (simp add: pack_byte_def)
  also have "\<dots> = bs ! i"
  proof (rule bit_word_eqI)
    fix k
    assume "k < LENGTH(8)"
    then consider "k = 0" | "k = 1" | "k = 2" | "k = 3" | "k = 4" | "k = 5" | "k = 6" | "k = 7"
      by (simp add: less_Suc_eq eval_nat_numeral) linarith
    then show "bit (foldl (\<lambda>b j. b OR shl (shr (bs ! i) (7 - j) AND 1) (7 - j)) 0 [0, 1, 2, 3, 4, 5, 6, 7]) k =
        bit (bs ! i) k"
      by cases (simp_all only: foldl.simps bit_or_iff bit_push_bit_iff bit_and_iff bit_drop_bit_eq
          bit_1_iff bit_0_eq o_def, simp_all)
  qed
  finally show ?thesis .
qed

lemma length_bits_of_bytes [simp]: "length (bits_of_bytes bs) = 8 * length bs"
  by (simp add: bits_of_bytes_def)

lemma eia2_bits_cmac:
  assumes "16 \<le> length key" "64 * length bs + 24 < 2 ^ 24" "4 \<le> length mac" "unat N = 8 * length bs"
  shows "liblte_security_128_eia2_bits L (Some key) count bearer direction
      (Some \<lparr>N_bits = N, bit_msg = bits_of_bytes bs\<rparr>) (Some mac) =
    Some (LIBLTE_SUCCESS, Some (copy_n 4 (cmac L key (eia2_header count bearer direction @ bs)) mac))"
proof -
  let ?h = "eia2_header count bearer direction" and ?n = "length bs"
  have b: "map (\<lambda>i. pack_byte (bits_of_bytes bs) i 8) [0..<8 * ?n div 8] = bs"
    by (rule nth_equalityI) (simp_all add: pack_bits_of_bytes)
  have d: "(8 * ?n + 64 + 127) div 128 = (length (?h @ bs) + 15) div 16"
    "(8 * ?n + 64) mod 128 = 8 * length (?h @ bs) mod 128"
  proof -
    have "(8 * ?n + 64 + 127) div 128 = (8 * ?n + 191) div 8 div 16" by (simp flip: div_mult2_eq)
    also have "(8 * ?n + 191) div 8 = ?n + 23" by simp
    finally show "(8 * ?n + 64 + 127) div 128 = (length (?h @ bs) + 15) div 16" by (simp add: add.commute)
    show "(8 * ?n + 64) mod 128 = 8 * length (?h @ bs) mod 128" by (simp add: add.commute)
  qed
  have "eia2_T L key ((?h @ bs) @ replicate (8 * ?n * 8 + 16 - ?n) 0)
      ((length (?h @ bs) + 15) div 16) (8 * length (?h @ bs) mod 128) = cmac L key (?h @ bs)"
    by (rule eia2_T_cmac) simp_all
  then have e: "eia2_T L key (?h @ bs @ replicate (8 * ?n * 8 + 16 - ?n) 0) ((8 * ?n + 64 + 127) div 128)
      ((8 * ?n + 64) mod 128) = cmac L key (?h @ bs)"
    by (simp only: d append_assoc)
  have m: "8 * ?n mod 8 = 0" by simp
  show ?thesis
    unfolding liblte_security_128_eia2_bits_def option.case LIBLTE_BIT_MSG_STRUCT.select_convs assms(4) Let_def
      b m append_Nil2
    using assms(1-3) by (simp only: e args_Some length_bits_of_bytes simp_thms if_True if_False order_refl not_le
        option.case bool.case append_Nil2 option.sel) simp
qed

section \<open>Lemmas: EEA2\<close>

definition eea2 :: "crypto_lib \<Rightarrow> u8 list \<Rightarrow> u32 \<Rightarrow> u8 \<Rightarrow> u8 \<Rightarrow> u8 list \<Rightarrow> u8 list" where
  "eea2 L key count bearer direction msg = snd (lib_crypt_ctr L key (eea2_nonce count bearer direction) msg)"

lemma crypto_lib_okD:
  assumes "crypto_lib_ok L"
  shows "16 \<le> length k \<Longrightarrow> lib_setkey_enc L k = 0" "length (lib_crypt_ecb L k b) = 16"
    "fst (lib_crypt_ctr L k n m) = 0" "length (snd (lib_crypt_ctr L k n m)) = length m"
    "snd (lib_crypt_ctr L k n (snd (lib_crypt_ctr L k n m))) = m" "length (lib_sha256 L k m) = 32"
  using assms by (simp_all add: crypto_lib_ok_def)

lemma eea2_eea2:
  assumes "crypto_lib_ok L"
  shows "eea2 L key count bearer direction (eea2 L key count bearer direction msg) = msg"
    and "length (eea2 L key count bearer direction msg) = length msg"
  using assms by (simp_all add: eea2_def crypto_lib_okD)

lemma encryption_eea2_aligned:
  assumes "crypto_lib_ok L" "16 \<le> length key"
    and "0 < length msg" "8 * length msg + 31 < 2 ^ 32" "length msg \<le> length out"
  shows "liblte_security_encryption_eea2 L (Some key) count bearer direction (Some msg)
           (of_nat (8 * length msg)) (Some out)
         = Some (LIBLTE_SUCCESS, Some (eea2 L key count bearer direction msg @ drop (length msg) out))"
proof -
  define N :: u32 where "N = of_nat (8 * length msg)"
  have u: "unat N = 8 * length msg"
    unfolding N_def using assms(4) by (simp only: unat_of_nat) simp
  have n8: "unat ((N + 7) div 8) = length msg"
    using block_counts(1) [of N] u assms(4) by simp
  let ?c = "eea2 L key count bearer direction msg"
  have z: "zero_tailing_bits (?c @ drop (length msg) out) N = Some (?c @ drop (length msg) out)"
    by (rule zero_tailing_bits_aligned [OF u]) (use assms eea2_eea2(2) [OF assms(1)] in simp_all)
  obtain r c where rc: "lib_crypt_ctr L key (eea2_nonce count bearer direction) msg = (r, c)" by fastforce
  then have "r = 0" "c = ?c" "length c = length msg"
    using crypto_lib_okD(3,4) [OF assms(1), of key "eea2_nonce count bearer direction" msg]
    by (simp_all add: eea2_def)
  with z rc assms show ?thesis
    unfolding N_def [symmetric]
    by (simp add: liblte_security_encryption_eea2_def Let_def n8 crypto_lib_okD copy_n_def)
qed

section \<open>Lemmas: the strings of the key derivations\<close>

lemma alg_key_S_inject: "alg_key_S P0 P1 = alg_key_S P0' P1' \<longleftrightarrow> P0 = P0' \<and> P1 = P1'"
  by (simp add: alg_key_S_def)

lemma cipher_alg_id_inject: "cipher_alg_id a = cipher_alg_id b \<longleftrightarrow> a = b"
  by (cases a; cases b) simp_all

lemma integ_alg_id_inject: "integ_alg_id a = integ_alg_id b \<longleftrightarrow> a = b"
  by (cases a; cases b) simp_all

text \<open>A mobile country or network code as the stack stores it: nibbles after leading ones.\<close>

definition mcc_ok :: "u16 \<Rightarrow> bool" where
  "mcc_ok mcc \<longleftrightarrow> mcc AND 0xF000 = 0xF000"

definition mnc_ok :: "u16 \<Rightarrow> bool" where
  "mnc_ok mnc \<longleftrightarrow> mnc AND 0xFF00 = 0xFF00 \<or> (mnc AND 0xF000 = 0xF000 \<and> mnc AND 0x000F \<noteq> 0x000F)"

text \<open>Reading the serving network back from the three bytes of the string.\<close>

definition plmn_mcc :: "u8 list \<Rightarrow> u16" where
  "plmn_mcc s = 0xF000 OR shl (u16_of (s ! 1) AND 0x0F) 8 OR (u16_of (s ! 1) AND 0xF0) OR (u16_of (s ! 2) AND 0x0F)"

definition plmn_mnc :: "u8 list \<Rightarrow> u16" where
  "plmn_mnc s =
     (if s ! 2 AND 0xF0 = 0xF0
      then 0xFF00 OR shl (u16_of (s ! 3) AND 0x0F) 4 OR shr (u16_of (s ! 3) AND 0xF0) 4
      else 0xF000 OR shl (u16_of (s ! 3) AND 0x0F) 8 OR (u16_of (s ! 3) AND 0xF0) OR shr (u16_of (s ! 2)) 4)"

lemma bit_nibble_masks:
  "bit (0x000F :: u16) n \<longleftrightarrow> n < 4" "bit (0x00F0 :: u16) n \<longleftrightarrow> 4 \<le> n \<and> n < 8"
  "bit (0x0F00 :: u16) n \<longleftrightarrow> 8 \<le> n \<and> n < 12" "bit (0xF000 :: u16) n \<longleftrightarrow> 12 \<le> n \<and> n < 16"
  "bit (0xFF00 :: u16) n \<longleftrightarrow> 8 \<le> n \<and> n < 16"
  "bit (0xF0 :: u8) m \<longleftrightarrow> 4 \<le> m \<and> m < 8"
proof -
  have e: "(0x000F :: u16) = mask 4" "(0x00F0 :: u16) = push_bit 4 (mask 4)" "(0x0F00 :: u16) = push_bit 8 (mask 4)"
    "(0xF000 :: u16) = push_bit 12 (mask 4)" "(0xFF00 :: u16) = push_bit 8 (mask 8)" "(0xF0 :: u8) = push_bit 4 (mask 4)"
    by (simp_all add: mask_eq_exp_minus_1)
  show "bit (0x000F :: u16) n \<longleftrightarrow> n < 4" "bit (0x00F0 :: u16) n \<longleftrightarrow> 4 \<le> n \<and> n < 8"
    "bit (0x0F00 :: u16) n \<longleftrightarrow> 8 \<le> n \<and> n < 12" "bit (0xF000 :: u16) n \<longleftrightarrow> 12 \<le> n \<and> n < 16"
    "bit (0xFF00 :: u16) n \<longleftrightarrow> 8 \<le> n \<and> n < 16" "bit (0xF0 :: u8) m \<longleftrightarrow> 4 \<le> m \<and> m < 8"
    unfolding e bit_push_bit_iff bit_mask_iff by auto
qed

lemma nibble_cases:
  fixes n :: nat
  assumes "n < 16"
  obtains "n < 4" | "4 \<le> n" "n < 8" | "8 \<le> n" "n < 12" | "12 \<le> n" "n < 16"
  using assms by linarith

lemmas plmn_bits = bit_or_iff bit_and_iff bit_push_bit_iff bit_drop_bit_eq bit_ucast_iff bit_nibble_masks o_def

lemma mask_bits:
  "w AND m = m \<Longrightarrow> bit m n \<Longrightarrow> bit w n" for w :: "'a::len word"
  by (metis bit_and_iff)

lemma k_asme_S_nth:
  "k_asme_S sqn ak mcc mnc ! 1 = u8_of ((mcc AND 0x00F0) OR shr (mcc AND 0x0F00) 8)"
  "mnc AND 0xFF00 = 0xFF00 \<Longrightarrow> k_asme_S sqn ak mcc mnc ! 2 = u8_of (0x00F0 OR (mcc AND 0x000F))"
  "mnc AND 0xFF00 = 0xFF00 \<Longrightarrow> k_asme_S sqn ak mcc mnc ! 3 = u8_of (shl (mnc AND 0x000F) 4 OR shr (mnc AND 0x00F0) 4)"
  "mnc AND 0xFF00 \<noteq> 0xFF00 \<Longrightarrow> k_asme_S sqn ak mcc mnc ! 2 = u8_of (shl (mnc AND 0x000F) 4 OR (mcc AND 0x000F))"
  "mnc AND 0xFF00 \<noteq> 0xFF00 \<Longrightarrow> k_asme_S sqn ak mcc mnc ! 3 = u8_of ((mnc AND 0x00F0) OR shr (mnc AND 0x0F00) 8)"
  by (simp_all add: k_asme_S_def)

lemma plmn_mcc_S:
  assumes "mcc_ok mcc"
  shows "plmn_mcc (k_asme_S sqn ak mcc mnc) = mcc"
proof (rule bit_word_eqI)
  fix n
  assume "n < LENGTH(16)"
  then have "n < 16" by simp
  have m: "12 \<le> n \<Longrightarrow> bit mcc n"
    using assms \<open>n < 16\<close> by (intro mask_bits [of mcc "0xF000" n]) (simp_all only: mcc_ok_def bit_nibble_masks simp_thms)
  have a: "(0x0F :: u16) = 0x000F" "(0xF0 :: u16) = 0x00F0" by simp_all
  show "bit (plmn_mcc (k_asme_S sqn ak mcc mnc)) n = bit mcc n"
    using \<open>n < 16\<close>
    by (cases rule: nibble_cases; cases "mnc AND 0xFF00 = 0xFF00")
      (simp_all only: plmn_mcc_def k_asme_S_nth plmn_bits simp_thms, auto simp: m)
qed

lemma plmn_mnc_S:
  assumes "mnc_ok mnc"
  shows "plmn_mnc (k_asme_S sqn ak mcc mnc) = mnc"
proof (cases "mnc AND 0xFF00 = 0xFF00")
  case True
  have two: "k_asme_S sqn ak mcc mnc ! 2 AND 0xF0 = 0xF0"
    by (rule bit_word_eqI) (auto simp: k_asme_S_nth(2) [OF True] plmn_bits)
  have m: "8 \<le> n \<Longrightarrow> n < 16 \<Longrightarrow> bit mnc n" for n
    using True by (intro mask_bits [of mnc "0xFF00" n]) (simp_all only: bit_nibble_masks simp_thms)
  show ?thesis
  proof (rule bit_word_eqI)
    fix n
    assume "n < LENGTH(16)"
    then have "n < 16" by simp
    then show "bit (plmn_mnc (k_asme_S sqn ak mcc mnc)) n = bit mnc n"
      by (cases rule: nibble_cases)
        (simp_all only: plmn_mnc_def two k_asme_S_nth(3) [OF True] plmn_bits simp_thms if_True, auto simp: m)
  qed
next
  case False
  with assms have d: "mnc AND 0xF000 = 0xF000" "mnc AND 0x000F \<noteq> 0x000F" by (simp_all add: mnc_ok_def)
  have two: "k_asme_S sqn ak mcc mnc ! 2 AND 0xF0 \<noteq> 0xF0"
  proof
    assume e: "k_asme_S sqn ak mcc mnc ! 2 AND 0xF0 = 0xF0"
    have "bit mnc n" if "n < 4" for n
    proof -
      have "bit (0xF0 :: u8) (n + 4)" unfolding bit_nibble_masks using that by simp
      from mask_bits [OF e this] show ?thesis
        using that unfolding k_asme_S_nth(4) [OF False] plmn_bits by auto
    qed
    then have "mnc AND 0x000F = 0x000F"
      by (intro bit_word_eqI) (simp only: plmn_bits, blast)
    with d(2) show False by simp
  qed
  let ?s = "k_asme_S sqn ak mcc mnc"
  have e: "plmn_mnc ?s = (0xF000 OR shl (u16_of (?s ! 3) AND 0x0F) 8 OR (u16_of (?s ! 3) AND 0xF0) OR shr (u16_of (?s ! 2)) 4)"
    by (simp only: plmn_mnc_def two if_False)
  have m: "12 \<le> n \<Longrightarrow> n < 16 \<Longrightarrow> bit mnc n" for n
    using d(1) by (intro mask_bits [of mnc "0xF000" n]) (simp_all only: bit_nibble_masks simp_thms)
  show ?thesis
  proof (rule bit_word_eqI)
    fix n
    assume "n < LENGTH(16)"
    then have "n < 16" by simp
    then show "bit (plmn_mnc (k_asme_S sqn ak mcc mnc)) n = bit mnc n"
      by (cases rule: nibble_cases)
        (simp_all only: e k_asme_S_nth(4,5) [OF False] plmn_bits simp_thms, auto simp: m)
  qed
qed

text \<open>A subkey of RFC 4493: doubling in GF(2^128), on the block read as a 128-bit number.\<close>

definition cmac_subkey :: "u8 list \<Rightarrow> u8 list" where
  "cmac_subkey L =
     (let w = word_rcat L :: 128 word;
          d = (if bit w 127 then shl w 1 XOR 0x87 else shl w 1)
      in map (\<lambda>i. u8_of (shr d (8 * (15 - i)))) [0..<16])"

lemma length_cmac_subkey [simp]: "length (cmac_subkey L) = 16"
  by (simp add: cmac_subkey_def Let_def)

lemma bit_0x87: "bit (0x87 :: 128 word) n \<longleftrightarrow> bit (0x87 :: u8) n"
proof -
  have "(0x87 :: 128 word) = ucast (0x87 :: u8)" by simp
  moreover have "bit (0x87 :: u8) n \<Longrightarrow> n < 128" using bit_imp_le_length [of "0x87 :: u8" n] by simp
  ultimately show ?thesis by (auto simp only: bit_ucast_iff) simp_all
qed

lemma cmac_double_subkey:
  assumes "length L = 16"
  shows "cmac_double L = cmac_subkey L"
proof (rule nth_equalityI)
  show l: "length (cmac_double L) = length (cmac_subkey L)" 
    unfolding cmac_double_def cmac_subkey_def Let_def by simp
  fix i
  assume "i < length (cmac_double L)"
  then have i: "i < 16" unfolding l by (simp add: cmac_subkey_def Let_def)
  let ?w = "word_rcat L :: 128 word"
  have w: "bit ?w n \<longleftrightarrow> n < 128 \<and> bit (L ! (15 - n div 8)) (n mod 8)" for n
    using assms bit_horner_sum_uint_exp_iff [of "rev L" n]
    by (auto simp: word_rcat_def bit_word_of_int_iff rev_nth div_less_iff_less_mult)
  have "(L ! 0) AND 0x80 = (if bit (L ! 0) 7 then 0x80 else 0)"
  proof (rule bit_word_eqI)
    have "bit (0x80 :: u8) n \<longleftrightarrow> n = 7" for n using bit_exp_iff [of 7 n, where 'a = u8]
      by (auto dest: bit_imp_le_length)
    then show "bit (L ! 0 AND 0x80) n = bit (if bit (L ! 0) 7 then 0x80 else 0 :: u8) n" for n
      by (simp add: bit_and_iff) blast
  qed
  then have top: "L ! 0 AND 0x80 \<noteq> 0 \<longleftrightarrow> bit ?w 127" by (simp add: w)
  have nth: "cmac_double L ! i = (shl (L ! i) 1 OR (if i < 15 then shr (L ! (i + 1)) 7 AND 0x01 else 0))
      XOR (if i = 15 \<and> bit ?w 127 then 0x87 else 0)"
    using assms i unfolding cmac_double_def Let_def top
    by (cases "i = 15") (simp_all add: nth_append)
  show "cmac_double L ! i = cmac_subkey L ! i"
  proof (rule bit_word_eqI)
    fix k
    assume "k < LENGTH(8)"
    then have k: "k < 8" by simp
    let ?n = "8 * (15 - i) + k"
    have n: "?n < 128" using i k by simp
    have sw: "bit (shl ?w 1) m \<longleftrightarrow> m < 128 \<and> 1 \<le> m \<and> bit ?w (m - 1)" for m
      unfolding bit_push_bit_iff by (simp add: possible_bit_word) blast
    have sb: "bit (shl x 1) m \<longleftrightarrow> m < 8 \<and> 1 \<le> m \<and> bit x (m - 1)" for x :: u8 and m
      unfolding bit_push_bit_iff by (simp add: possible_bit_word) blast
    define d where "d = (if bit ?w 127 then shl ?w 1 XOR 0x87 else shl ?w 1)"
    have "bit (cmac_subkey L ! i) k \<longleftrightarrow> bit d ?n"
      using i k unfolding cmac_subkey_def Let_def d_def [symmetric]
      by (simp add: bit_ucast_iff bit_drop_bit_eq)
    also have "\<dots> \<longleftrightarrow> bit (shl ?w 1) ?n \<noteq> (bit ?w 127 \<and> bit (0x87 :: u8) ?n)"
      unfolding d_def by (simp only: bit_xor_iff bit_0x87 split: if_split) blast
    finally have "bit (cmac_subkey L ! i) k \<longleftrightarrow> bit (shl ?w 1) ?n \<noteq> (bit ?w 127 \<and> bit (0x87 :: u8) ?n)" .
    moreover have "bit (shl ?w 1) ?n \<longleftrightarrow> bit (shl (L ! i) 1 OR (if i < 15 then shr (L ! (i + 1)) 7 AND 0x01 else 0)) k"
    proof (cases k)
      case 0
      show ?thesis
      proof (cases "i < 15")
        case True
        then have "?n - 1 = 8 * (14 - i) + 7" using 0 by simp
        then have "(?n - 1) div 8 = 14 - i" "(?n - 1) mod 8 = 7" by simp_all
        moreover have "?n - 1 < 128" "Suc 0 \<le> 15 - i" using n True by linarith+
        ultimately show ?thesis using True 0 n unfolding sw sb bit_or_iff w
          by (auto simp: bit_and_iff bit_drop_bit_eq)
      next
        case False
        then show ?thesis unfolding sw sb bit_or_iff using 0 i by simp
      qed
    next
      case (Suc k')
      have e: "?n - 1 = 8 * (15 - i) + k'" using Suc by simp
      then have "(?n - 1) div 8 = 15 - i" "(?n - 1) mod 8 = k'" using Suc k unfolding e by simp_all
      then show ?thesis using Suc n i k unfolding sw sb bit_or_iff w
        by (auto simp: bit_and_iff bit_drop_bit_eq dest: bit_imp_le_length)
    qed
    moreover have "bit (0x87 :: u8) ?n \<longleftrightarrow> i = 15 \<and> bit (0x87 :: u8) k"
      using i bit_imp_le_length [of "0x87 :: u8" ?n] by (cases "i = 15") auto
    ultimately show "bit (cmac_double L ! i) k = bit (cmac_subkey L ! i) k"
      unfolding nth by (auto simp: bit_xor_iff)
  qed
qed

text \<open>The CMAC of RFC 4493 for a non-empty message.\<close>

definition aes_cmac :: "crypto_lib \<Rightarrow> u8 list \<Rightarrow> u8 list \<Rightarrow> u8 list" where
  "aes_cmac L key m =
     (let aes = lib_crypt_ecb L key;
          K1 = cmac_subkey (aes (replicate 16 0));
          K2 = cmac_subkey K1;
          n = (length m + 15) div 16;
          T = foldl (\<lambda>T i. aes (xor_bytes T (take 16 (drop (16 * i) m)))) (replicate 16 0) [0..<n - 1];
          last = drop (16 * (n - 1)) m
      in if length last = 16 then aes (xor_bytes (xor_bytes T K1) last)
         else aes (xor_bytes (xor_bytes T K2) (last @ 0x80 # replicate (15 - length last) 0)))"

lemma aes_cmac:
  assumes "crypto_lib_ok L"
  shows "cmac L key m = aes_cmac L key m"
proof -
  have "length (lib_crypt_ecb L key (replicate 16 0)) = 16" using assms by (simp add: crypto_lib_okD)
  then have "cmac_double (lib_crypt_ecb L key (replicate 16 0)) = cmac_subkey (lib_crypt_ecb L key (replicate 16 0))"
    "cmac_double (cmac_subkey (lib_crypt_ecb L key (replicate 16 0))) =
      cmac_subkey (cmac_subkey (lib_crypt_ecb L key (replicate 16 0)))"
    by (simp_all only: cmac_double_subkey length_cmac_subkey)
  then show ?thesis by (simp only: cmac_def aes_cmac_def M_block_def Let_def)
qed

section \<open>The key derivations against the standard\<close>

text \<open>
  The purposes for which the functions of \<open>liblte_security.cc\<close> derive a key of 32 bytes, with the values they
  are called on. \<open>kdf_run\<close> runs the function of the code on the base key \<open>K\<close> (for K_ASME the concatenation of CK and
  IK); the three functions that produce a ciphering and an integrity key are asked for one of the two.
\<close>

datatype key_use = Use_NAS | Use_RRC | Use_UP

datatype kdf =
    For_asme "u8 list" "u8 list" u16 u16
  | For_enb u32
  | For_nh "u8 list"
  | For_enb_star u32 u32
  | For_ciphering key_use CIPHERING_ALGORITHM_ID_ENUM INTEGRITY_ALGORITHM_ID_ENUM
  | For_integrity key_use CIPHERING_ALGORITHM_ID_ENUM INTEGRITY_ALGORITHM_ID_ENUM

fun generate_pair :: "key_use \<Rightarrow> crypto_lib \<Rightarrow> u8 list option \<Rightarrow> CIPHERING_ALGORITHM_ID_ENUM \<Rightarrow> INTEGRITY_ALGORITHM_ID_ENUM
     \<Rightarrow> u8 list option \<Rightarrow> u8 list option \<Rightarrow> (LIBLTE_ERROR_ENUM \<times> u8 list option \<times> u8 list option) option" where
  "generate_pair Use_NAS = liblte_security_generate_k_nas"
| "generate_pair Use_RRC = liblte_security_generate_k_rrc"
| "generate_pair Use_UP = liblte_security_generate_k_up"

fun kdf_run :: "crypto_lib \<Rightarrow> u8 list \<Rightarrow> kdf \<Rightarrow> (LIBLTE_ERROR_ENUM \<times> u8 list option) option" where
  "kdf_run L K (For_asme sqn ak mcc mnc) =
     liblte_security_generate_k_asme L (Some (take 16 K)) (Some (drop 16 K)) (Some ak) (Some sqn) mcc mnc
       (Some (replicate 32 0))"
| "kdf_run L K (For_enb nas_count) = liblte_security_generate_k_enb L (Some K) nas_count (Some (replicate 32 0))"
| "kdf_run L K (For_nh sync) = liblte_security_generate_nh L (Some K) (Some sync) (Some (replicate 32 0))"
| "kdf_run L K (For_enb_star pci earfcn) =
     liblte_security_generate_k_enb_star L (Some K) pci earfcn (Some (replicate 32 0))"
| "kdf_run L K (For_ciphering u a i) =
     map_option (\<lambda>(r, k_enc, k_int). (r, k_enc))
       (generate_pair u L (Some K) a i (Some (replicate 32 0)) (Some (replicate 32 0)))"
| "kdf_run L K (For_integrity u a i) =
     map_option (\<lambda>(r, k_enc, k_int). (r, k_int))
       (generate_pair u L (Some K) a i (Some (replicate 32 0)) (Some (replicate 32 0)))"

text \<open>
  The string of TS 33.220 and the annex A of TS 33.401: the function code, then each parameter followed by its
  length in two bytes. A serving network is three octets of decimal digits, the lower digit in the lower half.
\<close>

definition plmn_octets :: "u16 \<Rightarrow> u16 \<Rightarrow> u8 list" where
  "plmn_octets mcc mnc =
     (let digit = (\<lambda>w k. u8_of (shr w (4 * k)) AND 0xF);
          pair = (\<lambda>h l. shl h 4 OR l :: u8)
      in if mnc AND 0xFF00 = 0xFF00
         then [pair (digit mcc 1) (digit mcc 2), pair 0xF (digit mcc 0), pair (digit mnc 0) (digit mnc 1)]
         else [pair (digit mcc 1) (digit mcc 2), pair (digit mnc 0) (digit mcc 0), pair (digit mnc 1) (digit mnc 2)])"

definition kdf_format :: "u8 \<Rightarrow> u8 list list \<Rightarrow> u8 list" where
  "kdf_format FC Ps = FC # concat (map (\<lambda>P. P @ uint16_to_uint8 (of_nat (length P))) Ps)"

fun key_distinguisher :: "key_use \<Rightarrow> u8" where
  "key_distinguisher Use_NAS = 1"
| "key_distinguisher Use_RRC = 3"
| "key_distinguisher Use_UP = 5"

fun kdf_string :: "kdf \<Rightarrow> u8 list" where
  "kdf_string (For_asme sqn ak mcc mnc) = kdf_format 0x10 [plmn_octets mcc mnc, xor_bytes sqn ak]"
| "kdf_string (For_enb nas_count) = kdf_format 0x11 [uint32_to_uint8 nas_count]"
| "kdf_string (For_nh sync) = kdf_format 0x12 [sync]"
| "kdf_string (For_enb_star pci earfcn) =
     kdf_format 0x13 [uint16_to_uint8 (u16_of pci), uint16_to_uint8 (u16_of earfcn)]"
| "kdf_string (For_ciphering u a i) = kdf_format 0x15 [[key_distinguisher u], [cipher_alg_id a]]"
| "kdf_string (For_integrity u a i) = kdf_format 0x15 [[key_distinguisher u + 1], [integ_alg_id i]]"

text \<open>When two derivations are the same one: the values that enter the string agree.\<close>

fun kdf_same :: "kdf \<Rightarrow> kdf \<Rightarrow> bool" where
  "kdf_same (For_asme sqn ak mcc mnc) (For_asme sqn' ak' mcc' mnc') \<longleftrightarrow>
     xor_bytes sqn ak = xor_bytes sqn' ak' \<and> mcc = mcc' \<and> mnc = mnc'"
| "kdf_same (For_enb n) (For_enb n') \<longleftrightarrow> n = n'"
| "kdf_same (For_nh sync) (For_nh sync') \<longleftrightarrow> sync = sync'"
| "kdf_same (For_enb_star pci earfcn) (For_enb_star pci' earfcn') \<longleftrightarrow>
     u16_of pci = u16_of pci' \<and> u16_of earfcn = u16_of earfcn'"
| "kdf_same (For_ciphering u a i) (For_ciphering u' a' i') \<longleftrightarrow> u = u' \<and> a = a'"
| "kdf_same (For_integrity u a i) (For_integrity u' a' i') \<longleftrightarrow> u = u' \<and> i = i'"
| "kdf_same _ _ \<longleftrightarrow> False"

fun kdf_ok :: "kdf \<Rightarrow> bool" where
  "kdf_ok (For_asme sqn ak mcc mnc) \<longleftrightarrow> length sqn = 6 \<and> length ak = 6 \<and> mcc_ok mcc \<and> mnc_ok mnc"
| "kdf_ok (For_nh sync) \<longleftrightarrow> length sync = 32"
| "kdf_ok _ \<longleftrightarrow> True"

lemma k_asme_S_format:
  assumes "length sqn = 6" "length ak = 6"
  shows "k_asme_S sqn ak mcc mnc = kdf_format 0x10 [plmn_octets mcc mnc, xor_bytes sqn ak]"
proof -
  have n: "bit (0xF :: u8) n \<longleftrightarrow> n < 4" for n
    using bit_mask_iff [of 4 n, where 'a = u8] by (auto simp: mask_eq_exp_minus_1)
  have w: "u8_of ((mcc AND 0x00F0) OR shr (mcc AND 0x0F00) 8) = shl (u8_of (shr mcc 4) AND 0xF) 4 OR (u8_of (shr mcc 8) AND 0xF)"
    "u8_of (0xF0 OR (mcc AND 0x000F)) = shl 0xF 4 OR (u8_of mcc AND 0xF)"
    "u8_of (shl (mnc AND 0x000F) 4 OR shr (mnc AND 0x00F0) 4) = shl (u8_of mnc AND 0xF) 4 OR (u8_of (shr mnc 4) AND 0xF)"
    "u8_of (shl (mnc AND 0x000F) 4 OR (mcc AND 0x000F)) = shl (u8_of mnc AND 0xF) 4 OR (u8_of mcc AND 0xF)"
    "u8_of ((mnc AND 0x00F0) OR shr (mnc AND 0x0F00) 8) = shl (u8_of (shr mnc 4) AND 0xF) 4 OR (u8_of (shr mnc 8) AND 0xF)"
    by (rule bit_word_eqI, simp only: n plmn_bits, fastforce dest: bit_imp_le_length)+
  have p: "plmn_octets mcc mnc =
     (if mnc AND 0xFF00 = 0xFF00
      then [shl (u8_of (shr mcc 4) AND 0xF) 4 OR (u8_of (shr mcc 8) AND 0xF), shl 0xF 4 OR (u8_of mcc AND 0xF),
            shl (u8_of mnc AND 0xF) 4 OR (u8_of (shr mnc 4) AND 0xF)]
      else [shl (u8_of (shr mcc 4) AND 0xF) 4 OR (u8_of (shr mcc 8) AND 0xF),
            shl (u8_of mnc AND 0xF) 4 OR (u8_of mcc AND 0xF),
            shl (u8_of (shr mnc 4) AND 0xF) 4 OR (u8_of (shr mnc 8) AND 0xF)])"
    by (simp add: plmn_octets_def Let_def)
  have f: "kdf_format 0x10 [[a, b, c], x] = [0x10, a, b, c, 0, 3] @ x @ [0, 6]" if "length x = 6" for a b c x
    using that by (simp add: kdf_format_def uint16_to_uint8_def)
  have x: "length (xor_bytes sqn ak) = 6" "take 6 sqn = sqn" "take 6 ak = ak" using assms by simp_all
  show ?thesis
    unfolding k_asme_S_def w p x(2,3)
    by (cases "mnc AND 0xFF00 = 0xFF00") (simp_all only: if_True if_False simp_thms f [OF x(1)] append.simps)
qed

lemma k_enb_S_format: "k_enb_S n = kdf_format 0x11 [uint32_to_uint8 n]"
  by (simp add: k_enb_S_def kdf_format_def uint32_to_uint8_def uint16_to_uint8_def)

lemma nh_S_format: "length sync = 32 \<Longrightarrow> nh_S sync = kdf_format 0x12 [sync]"
  by (simp add: nh_S_def kdf_format_def uint16_to_uint8_def)

lemma k_enb_star_S_format:
  "k_enb_star_S pci earfcn = kdf_format 0x13 [uint16_to_uint8 (u16_of pci), uint16_to_uint8 (u16_of earfcn)]"
proof -
  have e: "u8_of (shr x 8 AND 0xFF) = u8_of (shr (u16_of x) 8 AND 0xFF)" "u8_of (x AND 0xFF) = u8_of (u16_of x AND 0xFF)"
    for x :: u32
    by (rule bit_word_eqI, auto simp: word_bits)+
  have f: "kdf_format 0x13 [[a, b], [c, d]] = [0x13, a, b, 0, 2, c, d, 0, 2]" for a b c d
    by (simp add: kdf_format_def uint16_to_uint8_def)
  show ?thesis
    unfolding k_enb_star_S_def e(1) e(2) [of pci] e(2) [of earfcn] uint16_to_uint8_def [of "u16_of pci"] uint16_to_uint8_def [of "u16_of earfcn"] f ..
qed

lemma alg_key_S_format: "alg_key_S P0 P1 = kdf_format 0x15 [[P0], [P1]]"
  by (simp add: alg_key_S_def kdf_format_def uint16_to_uint8_def)

text \<open>Each function of the code hashes the string of its purpose.\<close>

lemma kdf_run_string:
  assumes "crypto_lib_ok L" "length K = 32" "kdf_ok d"
  shows "kdf_run L K d = Some (LIBLTE_SUCCESS, Some (lib_sha256 L K (kdf_string d)))"
proof -
  have h: "copy_n 32 (lib_sha256 L K m) (replicate 32 0) = lib_sha256 L K m" for m
    using assms(1) by (simp add: copy_n_def crypto_lib_okD)
  have a: "args [(32, Some K), (32, Some (replicate 32 0)), (32, Some (replicate 32 0))] = Some True"
    using assms(2) by (simp add: args_def)
  show ?thesis
  proof (cases d)
    case (For_ciphering u x y)
    then show ?thesis using assms(2)
      by (cases u) (simp_all add: liblte_security_generate_k_nas_def liblte_security_generate_k_rrc_def
          liblte_security_generate_k_up_def generate_alg_keys_def a h alg_key_S_format)
  next
    case (For_integrity u x y)
    then show ?thesis using assms(2)
      by (cases u) (simp_all add: liblte_security_generate_k_nas_def liblte_security_generate_k_rrc_def
          liblte_security_generate_k_up_def generate_alg_keys_def a h alg_key_S_format)
  qed (use assms in \<open>simp_all add: liblte_security_generate_k_asme_def liblte_security_generate_k_enb_def
      liblte_security_generate_nh_def liblte_security_generate_k_enb_star_def args_def h k_asme_S_format k_enb_S_format
      nh_S_format k_enb_star_S_format\<close>)
qed

lemma k_asme_S_inject:
  assumes "mcc_ok mcc" "mnc_ok mnc" "mcc_ok mcc'" "mnc_ok mnc'" "length sqn = 6" "length ak = 6" "length sqn' = 6" "length ak' = 6"
  shows "k_asme_S sqn ak mcc mnc = k_asme_S sqn' ak' mcc' mnc' \<longleftrightarrow>
    xor_bytes sqn ak = xor_bytes sqn' ak' \<and> mcc = mcc' \<and> mnc = mnc'"
proof
  assume e: "k_asme_S sqn ak mcc mnc = k_asme_S sqn' ak' mcc' mnc'"
  have "take 6 (drop 6 (k_asme_S s k c n)) = xor_bytes (take 6 s) (take 6 k)" if "length s = 6" "length k = 6" for s k c n
    using that by (simp add: k_asme_S_def)
  with e have "xor_bytes sqn ak = xor_bytes sqn' ak'" using assms(5-8) by (metis order_refl take_all)
  with e show "xor_bytes sqn ak = xor_bytes sqn' ak' \<and> mcc = mcc' \<and> mnc = mnc'"
    using plmn_mcc_S assms(1-4) plmn_mnc_S by metis
next
  assume "xor_bytes sqn ak = xor_bytes sqn' ak' \<and> mcc = mcc' \<and> mnc = mnc'"
  then show "k_asme_S sqn ak mcc mnc = k_asme_S sqn' ak' mcc' mnc'"
    using assms(5-8) by (simp add: k_asme_S_def)
qed

lemma uint16_to_uint8_inject: "uint16_to_uint8 x = uint16_to_uint8 y \<longleftrightarrow> x = y"
  using uint16_roundtrip by metis

lemma uint32_to_uint8_inject: "uint32_to_uint8 x = uint32_to_uint8 y \<longleftrightarrow> x = y"
  using uint32_roundtrip by metis

lemma key_distinguisher_parity: "key_distinguisher u + 1 \<noteq> key_distinguisher v" "key_distinguisher v \<noteq> key_distinguisher u + 1"
  by (cases u; cases v; simp)+

lemma kdf_string_same:
  assumes "kdf_ok d" "kdf_ok d'"
  shows "kdf_string d = kdf_string d' \<longleftrightarrow> kdf_same d d'"
proof (cases "(d, d')" rule: kdf_same.cases)
  case (1 sqn ak mcc mnc sqn' ak' mcc' mnc')
  then show ?thesis using assms k_asme_S_inject by (simp flip: k_asme_S_format)
next
  case (4 pci earfcn pci' earfcn')
  have "length (uint16_to_uint8 x) = length (uint16_to_uint8 y)" for x y by (simp add: uint16_to_uint8_def)
  with 4 show ?thesis by (simp add: kdf_format_def uint16_to_uint8_inject)
next
  case (5 u a i u' a' i')
  then show ?thesis by (cases u; cases u') (simp_all add: kdf_format_def cipher_alg_id_inject)
next
  case (6 u a i u' a' i')
  then show ?thesis by (cases u; cases u') (simp_all add: kdf_format_def integ_alg_id_inject)
qed (use assms in \<open>auto simp: kdf_format_def uint32_to_uint8_inject key_distinguisher_parity\<close>)

section \<open>Properties\<close>

text \<open>C18. 128-EIA2 returns the first four bytes of the AES-CMAC (RFC 4493) of the eight header bytes
  followed by the message: the code's padding bit, its choice between the two subkeys and its block
  count agree with the specification for every message length.\<close>

theorem eia2_is_cmac:
  assumes "crypto_lib_ok L" "16 \<le> length key" "length msg + 24 < 2 ^ 24" "4 \<le> length mac"
  shows "liblte_security_128_eia2 L (Some key) count bearer direction (Some msg) (of_nat (length msg)) (Some mac) =
    Some (LIBLTE_SUCCESS, Some (take 4 (aes_cmac L key (eia2_header count bearer direction @ msg)) @ drop 4 mac))"
  using eia2_cmac [OF assms(2-4)] by (simp add: copy_n_def aes_cmac [OF assms(1)])

lemma eia2_is_cmac_witness:
  "liblte_security_128_eia2 sample_lib (Some (replicate 16 1)) 5 3 1 (Some [1, 2, 3]) (of_nat (length [1 :: u8, 2, 3])) (Some [0, 0, 0, 0]) =
    Some (LIBLTE_SUCCESS, Some (take 4 (aes_cmac sample_lib (replicate 16 1) (eia2_header 5 3 1 @ [1, 2, 3])) @ drop 4 [0, 0, 0, 0]))"
  by (rule eia2_is_cmac) simp_all

text \<open>The two overloads of 128-EIA2 agree: on the bits of a byte string, the variant that takes a
  bit array and packs it gives what the variant that takes bytes gives.\<close>

theorem eia2_overloads_agree:
  assumes "16 \<le> length key" "64 * length msg + 24 < 2 ^ 24" "4 \<le> length mac" "unat N = 8 * length msg"
  shows "liblte_security_128_eia2_bits L (Some key) count bearer direction
      (Some \<lparr>N_bits = N, bit_msg = bits_of_bytes msg\<rparr>) (Some mac) =
    liblte_security_128_eia2 L (Some key) count bearer direction (Some msg) (of_nat (length msg)) (Some mac)"
  using eia2_bits_cmac [OF assms] eia2_cmac [of key msg mac L count bearer direction] assms by simp

lemma eia2_overloads_agree_witness:
  "liblte_security_128_eia2_bits sample_lib (Some (replicate 16 1)) 5 3 1
      (Some \<lparr>N_bits = 24, bit_msg = bits_of_bytes [1, 2, 3]\<rparr>) (Some [0, 0, 0, 0]) =
    liblte_security_128_eia2 sample_lib (Some (replicate 16 1)) 5 3 1 (Some [1, 2, 3]) (of_nat (length [1 :: u8, 2, 3])) (Some [0, 0, 0, 0])"
  by (rule eia2_overloads_agree) simp_all

text \<open>128-EEA2 is undone by its decryption for a message of whole bytes, given counter mode as the
  AES library documents it.\<close>

theorem eea2_roundtrip:
  assumes "crypto_lib_ok L" "16 \<le> length key" "0 < length msg" "8 * length msg + 31 < 2 ^ 32"
    and "length out = length msg" "length out' = length msg"
  shows "\<exists>ct. liblte_security_encryption_eea2 L (Some key) count bearer direction (Some msg) (of_nat (8 * length msg)) (Some out) =
      Some (LIBLTE_SUCCESS, Some ct) \<and>
    liblte_security_decryption_eea2 L (Some key) count bearer direction (Some ct) (of_nat (8 * length msg)) (Some out') =
      Some (LIBLTE_SUCCESS, Some msg)"
proof -
  let ?c = "eea2 L key count bearer direction msg"
  have c: "length ?c = length msg" "eea2 L key count bearer direction ?c = msg" using eea2_eea2 [OF assms(1)] by simp_all
  have l: "0 < length ?c" "8 * length ?c + 31 < 2 ^ 32" "length ?c \<le> length out'" using c assms by simp_all
  show ?thesis
    unfolding liblte_security_decryption_eea2_def
    using encryption_eea2_aligned [OF assms(1-4), of out count bearer direction]
      encryption_eea2_aligned [OF assms(1,2) l, of count bearer direction] c assms(5,6) by simp
qed

lemma eea2_roundtrip_witness:
  "\<exists>ct. liblte_security_encryption_eea2 sample_lib (Some (replicate 16 1)) 5 3 1 (Some [1, 2, 3]) (of_nat (8 * length [1 :: u8, 2, 3])) (Some [0, 0, 0]) =
      Some (LIBLTE_SUCCESS, Some ct) \<and>
    liblte_security_decryption_eea2 sample_lib (Some (replicate 16 1)) 5 3 1 (Some ct) (of_nat (8 * length [1 :: u8, 2, 3])) (Some [0, 0, 0]) =
      Some (LIBLTE_SUCCESS, Some [1, 2, 3])"
  by (rule eea2_roundtrip) simp_all

text \<open>C25. Every key-derivation function succeeds and returns the keyed hash of the string that the standard
  prescribes for its purpose, with the function code and, for the algorithm keys, the distinguisher of the kind of
  key; and two derivations from one key have the same string only when they are for the same purpose and the same
  values. Of PCI and EARFCN the string of K_eNB* keeps only the low 16 bits, so values that differ above them derive
  the same key.\<close>

theorem kdf_strings_separate:
  assumes "crypto_lib_ok L" "length K = 32" "kdf_ok d" "kdf_ok d'"
  shows "kdf_run L K d = Some (LIBLTE_SUCCESS, Some (lib_sha256 L K (kdf_string d))) \<and>
    (kdf_string d = kdf_string d' \<longleftrightarrow> kdf_same d d')"
  using kdf_run_string [OF assms(1-3)] kdf_string_same [OF assms(3,4)] by simp

text \<open>The two halves at a pair of keys that must not coincide: the ciphering keys of RRC and of the user plane for
  one algorithm.\<close>

lemma kdf_strings_separate_witness:
  "kdf_run sample_lib (replicate 32 7) (For_ciphering Use_UP CIPHERING_ALGORITHM_ID_128_EEA2 INTEGRITY_ALGORITHM_ID_128_EIA1) =
      Some (LIBLTE_SUCCESS, Some (lib_sha256 sample_lib (replicate 32 7) [0x15, 5, 0, 1, 2, 0, 1])) \<and>
    kdf_string (For_ciphering Use_UP CIPHERING_ALGORITHM_ID_128_EEA2 INTEGRITY_ALGORITHM_ID_128_EIA1) \<noteq>
      kdf_string (For_ciphering Use_RRC CIPHERING_ALGORITHM_ID_128_EEA2 INTEGRITY_ALGORITHM_ID_128_EIA1)"
  using kdf_strings_separate [of sample_lib "replicate 32 7"
      "For_ciphering Use_UP CIPHERING_ALGORITHM_ID_128_EEA2 INTEGRITY_ALGORITHM_ID_128_EIA1"
      "For_ciphering Use_RRC CIPHERING_ALGORITHM_ID_128_EEA2 INTEGRITY_ALGORITHM_ID_128_EIA1"]
  by (simp add: kdf_format_def uint16_to_uint8_def)

text \<open>The serving network can be read back from the string of K_ASME: for a mobile country code and
  a network code of two or three digits in the nibble format of the stack, \<open>mcc\<close> and \<open>mnc\<close> are
  recovered from its bytes, so K_ASME is bound to the network.\<close>

theorem k_asme_binds_plmn:
  assumes "mcc_ok mcc" "mnc_ok mnc"
  shows "plmn_mcc (k_asme_S sqn ak mcc mnc) = mcc \<and> plmn_mnc (k_asme_S sqn ak mcc mnc) = mnc"
  using plmn_mcc_S [OF assms(1)] plmn_mnc_S [OF assms(2)] by simp

lemma k_asme_binds_plmn_witness:
  "plmn_mcc (k_asme_S (replicate 6 0) (replicate 6 0) 0xF208 0xFF93) = 0xF208 \<and>
   plmn_mnc (k_asme_S (replicate 6 0) (replicate 6 0) 0xF208 0xFF93) = 0xFF93"
  by (rule k_asme_binds_plmn) (simp_all add: mcc_ok_def mnc_ok_def)

end
