(* ===== verification/Security.thy ===== *)
theory Security
  imports Liblte_Security
begin

text \<open>
  The wrappers of \<open>lib/src/common/security.cc\<close> that the rest of the stack calls. They return
  the error code as a byte. Message lengths are given in bytes and converted to bits with 32-bit
  arithmetic. The wrappers that dereference their pointers themselves have no value for \<open>NULL\<close>.

  Lemmas: on valid arguments each of the three ciphers applies an involution of the message,
  \<open>security_128_eea\<close>, selected by the algorithm; 128-EIA1 computes the hash of \<open>Snow3g\<close>.
\<close>

fun err_code :: "LIBLTE_ERROR_ENUM \<Rightarrow> u8" where
  "err_code LIBLTE_SUCCESS = 0"
| "err_code LIBLTE_ERROR_INVALID_INPUTS = 1"
| "err_code LIBLTE_ERROR_ENCODE_FAIL = 2"
| "err_code LIBLTE_ERROR_DECODE_FAIL = 3"
| "err_code LIBLTE_ERROR_INVALID_CRC = 4"

definition ret_code :: "(LIBLTE_ERROR_ENUM \<times> 'a) option \<Rightarrow> (u8 \<times> 'a) option" where
  "ret_code r = map_option (\<lambda>(e, x). (err_code e, x)) r"

lemma ret_code_simps [simp]: "ret_code None = None" "ret_code (Some (e, x)) = Some (err_code e, x)"
  by (simp_all add: ret_code_def)

section \<open>Key generation\<close>

definition security_generate_k_asme ::
    "crypto_lib \<Rightarrow> u8 list option \<Rightarrow> u8 list option \<Rightarrow> u8 list option \<Rightarrow> u8 list option \<Rightarrow> u16 \<Rightarrow> u16
     \<Rightarrow> u8 list option \<Rightarrow> (u8 \<times> u8 list option) option" where
  "security_generate_k_asme L ck ik ak sqn mcc mnc k_asme =
     ret_code (liblte_security_generate_k_asme L ck ik ak sqn mcc mnc k_asme)"

definition security_generate_k_enb ::
    "crypto_lib \<Rightarrow> u8 list option \<Rightarrow> u32 \<Rightarrow> u8 list option \<Rightarrow> (u8 \<times> u8 list option) option" where
  "security_generate_k_enb L k_asme nas_count k_enb = ret_code (liblte_security_generate_k_enb L k_asme nas_count k_enb)"

definition security_generate_k_enb_star ::
    "crypto_lib \<Rightarrow> u8 list option \<Rightarrow> u32 \<Rightarrow> u32 \<Rightarrow> u8 list option \<Rightarrow> (u8 \<times> u8 list option) option" where
  "security_generate_k_enb_star L k_enb pci earfcn k_enb_star =
     ret_code (liblte_security_generate_k_enb_star L k_enb pci earfcn k_enb_star)"

definition security_generate_nh ::
    "crypto_lib \<Rightarrow> u8 list option \<Rightarrow> u8 list option \<Rightarrow> u8 list option \<Rightarrow> (u8 \<times> u8 list option) option" where
  "security_generate_nh L k_asme sync nh = ret_code (liblte_security_generate_nh L k_asme sync nh)"

definition security_generate_k_nas ::
    "crypto_lib \<Rightarrow> u8 list option \<Rightarrow> CIPHERING_ALGORITHM_ID_ENUM \<Rightarrow> INTEGRITY_ALGORITHM_ID_ENUM
     \<Rightarrow> u8 list option \<Rightarrow> u8 list option \<Rightarrow> (u8 \<times> u8 list option \<times> u8 list option) option" where
  "security_generate_k_nas L k_asme enc_alg_id int_alg_id k_nas_enc k_nas_int =
     ret_code (liblte_security_generate_k_nas L k_asme enc_alg_id int_alg_id k_nas_enc k_nas_int)"

definition security_generate_k_rrc ::
    "crypto_lib \<Rightarrow> u8 list option \<Rightarrow> CIPHERING_ALGORITHM_ID_ENUM \<Rightarrow> INTEGRITY_ALGORITHM_ID_ENUM
     \<Rightarrow> u8 list option \<Rightarrow> u8 list option \<Rightarrow> (u8 \<times> u8 list option \<times> u8 list option) option" where
  "security_generate_k_rrc L k_enb enc_alg_id int_alg_id k_rrc_enc k_rrc_int =
     ret_code (liblte_security_generate_k_rrc L k_enb enc_alg_id int_alg_id k_rrc_enc k_rrc_int)"

definition security_generate_k_up ::
    "crypto_lib \<Rightarrow> u8 list option \<Rightarrow> CIPHERING_ALGORITHM_ID_ENUM \<Rightarrow> INTEGRITY_ALGORITHM_ID_ENUM
     \<Rightarrow> u8 list option \<Rightarrow> u8 list option \<Rightarrow> (u8 \<times> u8 list option \<times> u8 list option) option" where
  "security_generate_k_up L k_enb enc_alg_id int_alg_id k_up_enc k_up_int =
     ret_code (liblte_security_generate_k_up L k_enb enc_alg_id int_alg_id k_up_enc k_up_int)"

section \<open>Integrity protection\<close>

definition security_128_eia1 ::
    "u8 list \<Rightarrow> u32 \<Rightarrow> u32 \<Rightarrow> u8 \<Rightarrow> u8 list \<Rightarrow> u32 \<Rightarrow> u8 list \<Rightarrow> (u8 \<times> u8 list) option" where
  "security_128_eia1 key count bearer direction msg msg_len mac =
     (let msg_len_bits = msg_len * 8
      in case snow3g_f9 key count (shl bearer 27) (u32_of direction) msg (u64_of msg_len_bits) of
           None \<Rightarrow> None
         | Some m_ptr \<Rightarrow> if length mac < 4 then None else Some (0, copy_n 4 m_ptr mac))"

definition security_128_eia2 ::
    "crypto_lib \<Rightarrow> u8 list option \<Rightarrow> u32 \<Rightarrow> u32 \<Rightarrow> u8 \<Rightarrow> u8 list option \<Rightarrow> u32 \<Rightarrow> u8 list option
     \<Rightarrow> (u8 \<times> u8 list option) option" where
  "security_128_eia2 L key count bearer direction msg msg_len mac =
     ret_code (liblte_security_128_eia2 L key count (u8_of bearer) direction msg msg_len mac)"

definition security_128_eia3 ::
    "u8 list option \<Rightarrow> u32 \<Rightarrow> u32 \<Rightarrow> u8 \<Rightarrow> u8 list option \<Rightarrow> u32 \<Rightarrow> u8 list option
     \<Rightarrow> (u8 \<times> u8 list option) option" where
  "security_128_eia3 key count bearer direction msg msg_len mac =
     ret_code (liblte_security_128_eia3 key count (u8_of bearer) direction msg (msg_len * 8) mac)"

section \<open>Encryption and decryption\<close>

definition security_128_eea1 ::
    "u8 list option \<Rightarrow> u32 \<Rightarrow> u8 \<Rightarrow> u8 \<Rightarrow> u8 list option \<Rightarrow> u32 \<Rightarrow> u8 list option
     \<Rightarrow> (u8 \<times> u8 list option) option" where
  "security_128_eea1 key count bearer direction msg msg_len msg_out =
     ret_code (liblte_security_encryption_eea1 key count bearer direction msg (msg_len * 8) msg_out)"

definition security_128_eea2 ::
    "crypto_lib \<Rightarrow> u8 list option \<Rightarrow> u32 \<Rightarrow> u8 \<Rightarrow> u8 \<Rightarrow> u8 list option \<Rightarrow> u32 \<Rightarrow> u8 list option
     \<Rightarrow> (u8 \<times> u8 list option) option" where
  "security_128_eea2 L key count bearer direction msg msg_len msg_out =
     ret_code (liblte_security_encryption_eea2 L key count bearer direction msg (msg_len * 8) msg_out)"

definition security_128_eea3 ::
    "u8 list option \<Rightarrow> u32 \<Rightarrow> u8 \<Rightarrow> u8 \<Rightarrow> u8 list option \<Rightarrow> u32 \<Rightarrow> u8 list option
     \<Rightarrow> (u8 \<times> u8 list option) option" where
  "security_128_eea3 key count bearer direction msg msg_len msg_out =
     ret_code (liblte_security_encryption_eea3 key count bearer direction msg (msg_len * 8) msg_out)"

section \<open>Authentication\<close>

definition compute_opc :: "u8 list option \<Rightarrow> u8 list option \<Rightarrow> u8 list option \<Rightarrow> (u8 \<times> u8 list option) option" where
  "compute_opc k op opc = ret_code (liblte_compute_opc k op opc)"

definition security_milenage_f1 ::
    "u8 list option \<Rightarrow> u8 list option \<Rightarrow> u8 list option \<Rightarrow> u8 list option \<Rightarrow> u8 list option \<Rightarrow> u8 list option
     \<Rightarrow> (u8 \<times> u8 list option) option" where
  "security_milenage_f1 k op rand sqn amf mac_a = ret_code (liblte_security_milenage_f1 k op rand sqn amf mac_a)"

definition security_milenage_f1_star ::
    "u8 list option \<Rightarrow> u8 list option \<Rightarrow> u8 list option \<Rightarrow> u8 list option \<Rightarrow> u8 list option \<Rightarrow> u8 list option
     \<Rightarrow> (u8 \<times> u8 list option) option" where
  "security_milenage_f1_star k op rand sqn amf mac_s =
     ret_code (liblte_security_milenage_f1_star k op rand sqn amf mac_s)"

definition security_milenage_f2345 ::
    "u8 list option \<Rightarrow> u8 list option \<Rightarrow> u8 list option \<Rightarrow> u8 list option \<Rightarrow> u8 list option \<Rightarrow> u8 list option
     \<Rightarrow> u8 list option \<Rightarrow> (u8 \<times> u8 list option \<times> u8 list option \<times> u8 list option \<times> u8 list option) option" where
  "security_milenage_f2345 k op rand res ck ik ak = ret_code (liblte_security_milenage_f2345 k op rand res ck ik ak)"

definition security_milenage_f5_star ::
    "u8 list option \<Rightarrow> u8 list option \<Rightarrow> u8 list option \<Rightarrow> u8 list option \<Rightarrow> (u8 \<times> u8 list option) option" where
  "security_milenage_f5_star k op rand ak = ret_code (liblte_security_milenage_f5_star k op rand ak)"

section \<open>Lemmas\<close>

lemma len_bits: "of_nat n * 8 = (of_nat (8 * n) :: u32)"
  by (simp add: mult.commute)

text \<open>The cipher an algorithm identifier selects; for EEA0 and unknown ones, none.\<close>

fun security_128_eea ::
    "crypto_lib \<Rightarrow> CIPHERING_ALGORITHM_ID_ENUM \<Rightarrow> u8 list \<Rightarrow> u32 \<Rightarrow> u8 \<Rightarrow> u8 \<Rightarrow> u8 list \<Rightarrow> u8 list" where
  "security_128_eea L CIPHERING_ALGORITHM_ID_128_EEA1 key count bearer dir msg = eea1 key count bearer dir msg"
| "security_128_eea L CIPHERING_ALGORITHM_ID_128_EEA2 key count bearer dir msg = eea2 L key count bearer dir msg"
| "security_128_eea L CIPHERING_ALGORITHM_ID_128_EEA3 key count bearer dir msg = eea3 key count bearer dir msg"
| "security_128_eea L CIPHERING_ALGORITHM_ID_EEA0 key count bearer dir msg = msg"
| "security_128_eea L CIPHERING_ALGORITHM_ID_N_ITEMS key count bearer dir msg = msg"

lemma security_128_eea_involution [simp]:
  assumes "crypto_lib_ok L"
  shows "security_128_eea L alg key count bearer dir (security_128_eea L alg key count bearer dir msg) = msg"
    and "length (security_128_eea L alg key count bearer dir msg) = length msg"
  using eea2_eea2 [OF assms] by (cases alg; simp)+

lemma security_128_eea_calls:
  assumes "crypto_lib_ok L" "16 \<le> length key" "0 < length msg" "8 * length msg + 31 < 2 ^ 32" "length msg \<le> length out"
    and "n = of_nat (length msg)"
  shows "security_128_eea1 (Some key) count bearer dir (Some msg) n (Some out) =
      Some (0, Some (eea1 key count bearer dir msg @ drop (length msg) out))"
    and "security_128_eea2 L (Some key) count bearer dir (Some msg) n (Some out) =
      Some (0, Some (eea2 L key count bearer dir msg @ drop (length msg) out))"
    and "security_128_eea3 (Some key) count bearer dir (Some msg) n (Some out) =
      Some (0, Some (eea3 key count bearer dir msg @ drop (length msg) out))"
  using assms encryption_eea1_aligned [OF assms(3-5)] encryption_eea2_aligned [OF assms(1-5)]
    encryption_eea3_aligned [OF assms(3-5)]
  by (simp_all only: security_128_eea1_def security_128_eea2_def security_128_eea3_def len_bits
      ret_code_simps err_code.simps)

text \<open>The integrity algorithm an identifier selects; for EIA0 and unknown ones four zero bytes.\<close>

fun security_128_eia ::
    "crypto_lib \<Rightarrow> INTEGRITY_ALGORITHM_ID_ENUM \<Rightarrow> u8 list \<Rightarrow> u32 \<Rightarrow> u32 \<Rightarrow> u8 \<Rightarrow> u8 list \<Rightarrow> u8 list" where
  "security_128_eia L INTEGRITY_ALGORITHM_ID_128_EIA1 key count bearer dir msg =
     the (snow3g_f9 key count (shl bearer 27) (u32_of dir) msg (of_nat (8 * length msg)))"
| "security_128_eia L INTEGRITY_ALGORITHM_ID_128_EIA2 key count bearer dir msg =
     take 4 (cmac L key (eia2_header count (u8_of bearer) dir @ msg))"
| "security_128_eia L INTEGRITY_ALGORITHM_ID_128_EIA3 key count bearer dir msg =
     eia3_mac key count (u8_of bearer) dir msg (8 * length msg)"
| "security_128_eia L INTEGRITY_ALGORITHM_ID_EIA0 key count bearer dir msg = [0, 0, 0, 0]"
| "security_128_eia L INTEGRITY_ALGORITHM_ID_N_ITEMS key count bearer dir msg = [0, 0, 0, 0]"

lemma snow3g_f9_total:
  assumes "0 < length msg" "8 * length msg < 2 ^ 32" "16 \<le> length key"
  obtains m where "snow3g_f9 key count fresh dir msg (of_nat (8 * length msg)) = Some m" "length m = 4"
proof -
  have u: "unat (of_nat (8 * length msg) :: u64) = 8 * length msg"
    using assms(2) by (simp only: unat_of_nat) simp
  then have "(of_nat (8 * length msg) :: u64) \<noteq> 0" using assms(1) by (metis mult_is_0 not_less_zero unat_0 zero_neq_numeral)
  with u assms that show thesis by (simp add: snow3g_f9_def Let_def case_prod_unfold)
qed

lemma length_cmac: "crypto_lib_ok L \<Longrightarrow> length (cmac L key m) = 16"
  by (simp add: cmac_def Let_def crypto_lib_okD)

lemma length_security_128_eia [simp]:
  assumes "crypto_lib_ok L" "0 < length msg" "8 * length msg < 2 ^ 32" "16 \<le> length key"
  shows "length (security_128_eia L alg key count bearer dir msg) = 4"
proof (cases alg)
  case INTEGRITY_ALGORITHM_ID_128_EIA1
  then show ?thesis using snow3g_f9_total [OF assms(2-4)] by (metis option.sel security_128_eia.simps(1))
qed (use length_cmac [OF assms(1)] in simp_all)

lemma security_128_eia_calls:
  assumes "crypto_lib_ok L" "16 \<le> length key" "0 < length msg" "length msg + 24 < 2 ^ 24" "length mac = 4"
    and "n = of_nat (length msg)"
  shows "security_128_eia1 key count bearer dir msg n mac =
      Some (0, security_128_eia L INTEGRITY_ALGORITHM_ID_128_EIA1 key count bearer dir msg)"
    and "security_128_eia2 L (Some key) count bearer dir (Some msg) n (Some mac) =
      Some (0, Some (security_128_eia L INTEGRITY_ALGORITHM_ID_128_EIA2 key count bearer dir msg))"
    and "security_128_eia3 (Some key) count bearer dir (Some msg) n (Some mac) =
      Some (1, Some (security_128_eia L INTEGRITY_ALGORITHM_ID_128_EIA3 key count bearer dir msg))"
proof -
  define b :: u32 where "b = n * 8"
  have b: "unat b = 8 * length msg"
    using assms(4) unfolding b_def assms(6) len_bits by (simp only: unat_of_nat) simp
  have u: "u64_of b = of_nat (8 * length msg)"
  proof (rule word_unat_eq_iff [THEN iffD2])
    have "unat (u64_of b) = unat b mod 2 ^ 64" by (simp add: unsigned_ucast_eq take_bit_eq_mod)
    also have "\<dots> = unat (of_nat (8 * length msg) :: u64)" by (simp only: b unat_of_nat) simp
    finally show "unat (u64_of b) = unat (of_nat (8 * length msg) :: u64)" .
  qed
  have l: "8 * length msg < 2 ^ 32" using assms(4) by simp
  obtain m where m: "snow3g_f9 key count (shl bearer 27) (u32_of dir) msg (of_nat (8 * length msg)) = Some m" "length m = 4"
    using snow3g_f9_total [OF assms(3) l assms(2)] by metis
  show "security_128_eia1 key count bearer dir msg n mac =
      Some (0, security_128_eia L INTEGRITY_ALGORITHM_ID_128_EIA1 key count bearer dir msg)"
    using assms(5) m by (simp only: security_128_eia1_def Let_def b_def [symmetric] u security_128_eia.simps)
      (simp add: copy_n_def)
  show "security_128_eia2 L (Some key) count bearer dir (Some msg) n (Some mac) =
      Some (0, Some (security_128_eia L INTEGRITY_ALGORITHM_ID_128_EIA2 key count bearer dir msg))"
    using assms length_cmac [OF assms(1)]
    by (simp add: security_128_eia2_def eia2_cmac copy_n_def)
  show "security_128_eia3 (Some key) count bearer dir (Some msg) n (Some mac) =
      Some (1, Some (security_128_eia L INTEGRITY_ALGORITHM_ID_128_EIA3 key count bearer dir msg))"
    unfolding security_128_eia3_def b_def [symmetric] using assms(4,5) b
    by (simp add: eia3_calls copy_n_def)
qed

end
