(* ===== verification/Pdcp_Base.thy ===== *)
theory Pdcp_Base
  imports Security
begin

text \<open>
  The part the LTE and the NR PDCP entities share: the configuration
  (\<open>lib/include/srslte/common/interfaces_common.h\<close>), the base class with its COUNT helpers
  (\<open>lib/include/srslte/upper/pdcp_entity_base.h\<close>) and the calls of the security functions
  (\<open>lib/src/upper/pdcp_entity_base.cc\<close>). The base class is a record that both entities extend.
  The security functions return \<open>None\<close> where the code would leave an array, in particular the
  temporary \<open>ct_tmp\<close> of 9000 bytes.

  Lemmas: the COUNT is recomposed from HFN and SN; on valid keys the security functions compute
  \<open>security_128_eea\<close> and \<open>security_128_eia\<close>, so decryption undoes encryption and a generated MAC is
  accepted.
\<close>

section \<open>Configuration\<close>

datatype pdcp_rb_type_t = PDCP_RB_IS_SRB | PDCP_RB_IS_DRB

datatype security_direction_t = SECURITY_DIRECTION_UPLINK | SECURITY_DIRECTION_DOWNLINK

fun direction_code :: "security_direction_t \<Rightarrow> u8" where
  "direction_code SECURITY_DIRECTION_UPLINK = 0"
| "direction_code SECURITY_DIRECTION_DOWNLINK = 1"

definition PDCP_SN_LEN_5 :: u8 where "PDCP_SN_LEN_5 = 5"
definition PDCP_SN_LEN_7 :: u8 where "PDCP_SN_LEN_7 = 7"
definition PDCP_SN_LEN_12 :: u8 where "PDCP_SN_LEN_12 = 12"
definition PDCP_SN_LEN_18 :: u8 where "PDCP_SN_LEN_18 = 18"

lemmas PDCP_SN_LEN_defs = PDCP_SN_LEN_5_def PDCP_SN_LEN_7_def PDCP_SN_LEN_12_def PDCP_SN_LEN_18_def

datatype pdcp_t_reordering_t =
    tr_ms0 | tr_ms1 | tr_ms2 | tr_ms4 | tr_ms5 | tr_ms8 | tr_ms10 | tr_ms15 | tr_ms20
  | tr_ms30 | tr_ms40 | tr_ms50 | tr_ms60 | tr_ms80 | tr_ms100 | tr_ms120 | tr_ms140 | tr_ms160
  | tr_ms180 | tr_ms200 | tr_ms220 | tr_ms240 | tr_ms260 | tr_ms280 | tr_ms300 | tr_ms500 | tr_ms750
  | tr_ms1000 | tr_ms1250 | tr_ms1500 | tr_ms1750 | tr_ms2000 | tr_ms2250 | tr_ms2500 | tr_ms2750 | tr_ms3000

fun t_reordering_ms :: "pdcp_t_reordering_t \<Rightarrow> u32" where
  "t_reordering_ms tr_ms0 = 0"
| "t_reordering_ms tr_ms1 = 1"
| "t_reordering_ms tr_ms2 = 2"
| "t_reordering_ms tr_ms4 = 4"
| "t_reordering_ms tr_ms5 = 5"
| "t_reordering_ms tr_ms8 = 8"
| "t_reordering_ms tr_ms10 = 10"
| "t_reordering_ms tr_ms15 = 15"
| "t_reordering_ms tr_ms20 = 20"
| "t_reordering_ms tr_ms30 = 30"
| "t_reordering_ms tr_ms40 = 40"
| "t_reordering_ms tr_ms50 = 50"
| "t_reordering_ms tr_ms60 = 60"
| "t_reordering_ms tr_ms80 = 80"
| "t_reordering_ms tr_ms100 = 100"
| "t_reordering_ms tr_ms120 = 120"
| "t_reordering_ms tr_ms140 = 140"
| "t_reordering_ms tr_ms160 = 160"
| "t_reordering_ms tr_ms180 = 180"
| "t_reordering_ms tr_ms200 = 200"
| "t_reordering_ms tr_ms220 = 220"
| "t_reordering_ms tr_ms240 = 240"
| "t_reordering_ms tr_ms260 = 260"
| "t_reordering_ms tr_ms280 = 280"
| "t_reordering_ms tr_ms300 = 300"
| "t_reordering_ms tr_ms500 = 500"
| "t_reordering_ms tr_ms750 = 750"
| "t_reordering_ms tr_ms1000 = 1000"
| "t_reordering_ms tr_ms1250 = 1250"
| "t_reordering_ms tr_ms1500 = 1500"
| "t_reordering_ms tr_ms1750 = 1750"
| "t_reordering_ms tr_ms2000 = 2000"
| "t_reordering_ms tr_ms2250 = 2250"
| "t_reordering_ms tr_ms2500 = 2500"
| "t_reordering_ms tr_ms2750 = 2750"
| "t_reordering_ms tr_ms3000 = 3000"

datatype pdcp_discard_timer_t =
    td_ms10 | td_ms20 | td_ms30 | td_ms40 | td_ms50 | td_ms60 | td_ms75 | td_ms100 | td_ms150
  | td_ms200 | td_ms250 | td_ms300 | td_ms500 | td_ms750 | td_ms1500 | td_infinity

fun discard_timer_ms :: "pdcp_discard_timer_t \<Rightarrow> u32" where
  "discard_timer_ms td_ms10 = 10"
| "discard_timer_ms td_ms20 = 20"
| "discard_timer_ms td_ms30 = 30"
| "discard_timer_ms td_ms40 = 40"
| "discard_timer_ms td_ms50 = 50"
| "discard_timer_ms td_ms60 = 60"
| "discard_timer_ms td_ms75 = 75"
| "discard_timer_ms td_ms100 = 100"
| "discard_timer_ms td_ms150 = 150"
| "discard_timer_ms td_ms200 = 200"
| "discard_timer_ms td_ms250 = 250"
| "discard_timer_ms td_ms300 = 300"
| "discard_timer_ms td_ms500 = 500"
| "discard_timer_ms td_ms750 = 750"
| "discard_timer_ms td_ms1500 = 1500"
| "discard_timer_ms td_infinity = 0"

record pdcp_config_t =
  bearer_id :: u8
  rb_type :: pdcp_rb_type_t
  tx_direction :: security_direction_t
  rx_direction :: security_direction_t
  sn_len :: u8
  hdr_len_bytes :: u8
  t_reordering :: pdcp_t_reordering_t
  discard_timer :: pdcp_discard_timer_t

text \<open>The constructor: \<open>hdr_len_bytes = ceil (sn_len / 8)\<close>.\<close>

definition pdcp_config ::
    "u8 \<Rightarrow> pdcp_rb_type_t \<Rightarrow> security_direction_t \<Rightarrow> security_direction_t \<Rightarrow> u8
     \<Rightarrow> pdcp_t_reordering_t \<Rightarrow> pdcp_discard_timer_t \<Rightarrow> pdcp_config_t" where
  "pdcp_config bid rb txd rxd sl tr td =
     \<lparr>bearer_id = bid, rb_type = rb, tx_direction = txd, rx_direction = rxd, sn_len = sl,
      hdr_len_bytes = of_nat ((unat sl + 7) div 8), t_reordering = tr, discard_timer = td\<rparr>"

section \<open>The base class\<close>

definition PDCP_MAX_SDU_SIZE :: nat where "PDCP_MAX_SDU_SIZE = 9000"

record pdcp_entity_base =
  active :: bool
  lcid :: u32
  do_integrity :: bool
  do_encryption :: bool
  pcfg :: pdcp_config_t
  k_rrc_enc :: "u8 list"
  k_rrc_int :: "u8 list"
  k_up_enc :: "u8 list"
  k_up_int :: "u8 list"
  cipher_algo :: CIPHERING_ALGORITHM_ID_ENUM
  integ_algo :: INTEGRITY_ALGORITHM_ID_ENUM

definition pdcp_entity_base_init :: pdcp_entity_base where
  "pdcp_entity_base_init =
     \<lparr>active = False, lcid = 0, do_integrity = False, do_encryption = False,
      pcfg = \<lparr>bearer_id = 1, rb_type = PDCP_RB_IS_DRB, tx_direction = SECURITY_DIRECTION_DOWNLINK,
              rx_direction = SECURITY_DIRECTION_UPLINK, sn_len = PDCP_SN_LEN_12, hdr_len_bytes = 2,
              t_reordering = tr_ms500, discard_timer = td_infinity\<rparr>,
      k_rrc_enc = replicate 32 0, k_rrc_int = replicate 32 0, k_up_enc = replicate 32 0, k_up_int = replicate 32 0,
      cipher_algo = CIPHERING_ALGORITHM_ID_EEA0, integ_algo = INTEGRITY_ALGORITHM_ID_EIA0\<rparr>"

definition is_srb :: "'a pdcp_entity_base_scheme \<Rightarrow> bool" where
  "is_srb e \<longleftrightarrow> rb_type (pcfg e) = PDCP_RB_IS_SRB"

definition is_drb :: "'a pdcp_entity_base_scheme \<Rightarrow> bool" where
  "is_drb e \<longleftrightarrow> rb_type (pcfg e) = PDCP_RB_IS_DRB"

definition enable_integrity :: "'a pdcp_entity_base_scheme \<Rightarrow> 'a pdcp_entity_base_scheme" where
  "enable_integrity e = e\<lparr>do_integrity := True\<rparr>"

definition enable_encryption :: "'a pdcp_entity_base_scheme \<Rightarrow> 'a pdcp_entity_base_scheme" where
  "enable_encryption e = e\<lparr>do_encryption := True\<rparr>"

definition pdcp_HFN :: "'a pdcp_entity_base_scheme \<Rightarrow> u32 \<Rightarrow> u32" where
  "pdcp_HFN e count = shr count (unat (sn_len (pcfg e)))"

definition pdcp_SN :: "'a pdcp_entity_base_scheme \<Rightarrow> u32 \<Rightarrow> u32" where
  "pdcp_SN e count = count AND shr 0xFFFFFFFF (32 - unat (sn_len (pcfg e)))"

definition pdcp_COUNT :: "'a pdcp_entity_base_scheme \<Rightarrow> u32 \<Rightarrow> u32 \<Rightarrow> u32" where
  "pdcp_COUNT e hfn sn = shl hfn (unat (sn_len (pcfg e))) OR sn"

text \<open>Each key array has 32 bytes; the last argument is \<open>NULL\<close> in LTE.\<close>

definition config_security ::
    "u8 list \<Rightarrow> u8 list \<Rightarrow> u8 list \<Rightarrow> u8 list option \<Rightarrow> CIPHERING_ALGORITHM_ID_ENUM \<Rightarrow> INTEGRITY_ALGORITHM_ID_ENUM
     \<Rightarrow> 'a pdcp_entity_base_scheme \<Rightarrow> 'a pdcp_entity_base_scheme" where
  "config_security k_rrc_enc' k_rrc_int' k_up_enc' k_up_int' cipher_algo' integ_algo' e =
     e\<lparr>k_rrc_enc := copy_n 32 k_rrc_enc' (k_rrc_enc e),
       k_rrc_int := copy_n 32 k_rrc_int' (k_rrc_int e),
       k_up_enc := copy_n 32 k_up_enc' (k_up_enc e),
       k_up_int := (case k_up_int' of None \<Rightarrow> k_up_int e | Some k \<Rightarrow> copy_n 32 k (k_up_int e)),
       cipher_algo := cipher_algo', integ_algo := integ_algo'\<rparr>"

section \<open>Security functions\<close>

definition k_int :: "'a pdcp_entity_base_scheme \<Rightarrow> u8 list" where
  "k_int e = drop 16 (if is_srb e then k_rrc_int e else k_up_int e)"

definition k_enc :: "'a pdcp_entity_base_scheme \<Rightarrow> u8 list" where
  "k_enc e = drop 16 (if is_srb e then k_rrc_enc e else k_up_enc e)"

text \<open>The return code of an algorithm is ignored; what it leaves in the output array is used.\<close>

definition out_of :: "(u8 \<times> u8 list option) option \<Rightarrow> u8 list option" where
  "out_of r = Option.bind r snd"

definition integrity_call ::
    "crypto_lib \<Rightarrow> 'a pdcp_entity_base_scheme \<Rightarrow> security_direction_t \<Rightarrow> u8 list \<Rightarrow> u32 \<Rightarrow> u32 \<Rightarrow> u8 list
     \<Rightarrow> u8 list option" where
  "integrity_call L e d msg msg_len count mac =
     (let b = u32_of (bearer_id (pcfg e)) - 1; dir = direction_code d
      in case integ_algo e of
           INTEGRITY_ALGORITHM_ID_128_EIA1 \<Rightarrow>
             map_option snd (security_128_eia1 (k_int e) count b dir msg msg_len mac)
         | INTEGRITY_ALGORITHM_ID_128_EIA2 \<Rightarrow>
             out_of (security_128_eia2 L (Some (k_int e)) count b dir (Some msg) msg_len (Some mac))
         | INTEGRITY_ALGORITHM_ID_128_EIA3 \<Rightarrow>
             out_of (security_128_eia3 (Some (k_int e)) count b dir (Some msg) msg_len (Some mac))
         | _ \<Rightarrow> Some mac)"

definition integrity_generate ::
    "crypto_lib \<Rightarrow> 'a pdcp_entity_base_scheme \<Rightarrow> u8 list \<Rightarrow> u32 \<Rightarrow> u32 \<Rightarrow> u8 list \<Rightarrow> u8 list option" where
  "integrity_generate L e msg msg_len count mac =
     integrity_call L e (tx_direction (pcfg e)) msg msg_len count mac"

definition integrity_verify ::
    "crypto_lib \<Rightarrow> 'a pdcp_entity_base_scheme \<Rightarrow> u8 list \<Rightarrow> u32 \<Rightarrow> u32 \<Rightarrow> u8 list \<Rightarrow> bool option" where
  "integrity_verify L e msg msg_len count mac =
     (case integrity_call L e (rx_direction (pcfg e)) msg msg_len count [0, 0, 0, 0] of
        None \<Rightarrow> None
      | Some mac_exp \<Rightarrow>
          Some (integ_algo e = INTEGRITY_ALGORITHM_ID_EIA0 \<or> (\<forall>i \<in> set [0..<4]. mac ! i = mac_exp ! i)))"

text \<open>
  The temporary array is not initialised: when the algorithm reports an error nothing defined is
  in it.
\<close>

definition cipher_call ::
    "crypto_lib \<Rightarrow> 'a pdcp_entity_base_scheme \<Rightarrow> security_direction_t \<Rightarrow> u8 list \<Rightarrow> u32 \<Rightarrow> u32 \<Rightarrow> u8 list
     \<Rightarrow> u8 list option" where
  "cipher_call L e d msg msg_len count ct =
     (let b = bearer_id (pcfg e) - 1; dir = direction_code d; tmp = Some (replicate PDCP_MAX_SDU_SIZE 0);
          finish = (\<lambda>r. case r of
              Some (code, Some ct_tmp) \<Rightarrow> if code = 0 then Some (copy_n (unat msg_len) ct_tmp ct) else None
            | _ \<Rightarrow> None)
      in case cipher_algo e of
           CIPHERING_ALGORITHM_ID_128_EEA1 \<Rightarrow>
             finish (security_128_eea1 (Some (k_enc e)) count b dir (Some msg) msg_len tmp)
         | CIPHERING_ALGORITHM_ID_128_EEA2 \<Rightarrow>
             finish (security_128_eea2 L (Some (k_enc e)) count b dir (Some msg) msg_len tmp)
         | CIPHERING_ALGORITHM_ID_128_EEA3 \<Rightarrow>
             finish (security_128_eea3 (Some (k_enc e)) count b dir (Some msg) msg_len tmp)
         | _ \<Rightarrow> Some ct)"

definition cipher_encrypt ::
    "crypto_lib \<Rightarrow> 'a pdcp_entity_base_scheme \<Rightarrow> u8 list \<Rightarrow> u32 \<Rightarrow> u32 \<Rightarrow> u8 list \<Rightarrow> u8 list option" where
  "cipher_encrypt L e msg msg_len count ct = cipher_call L e (tx_direction (pcfg e)) msg msg_len count ct"

definition cipher_decrypt ::
    "crypto_lib \<Rightarrow> 'a pdcp_entity_base_scheme \<Rightarrow> u8 list \<Rightarrow> u32 \<Rightarrow> u32 \<Rightarrow> u8 list \<Rightarrow> u8 list option" where
  "cipher_decrypt L e ct ct_len count msg = cipher_call L e (rx_direction (pcfg e)) ct ct_len count msg"

section \<open>Lemmas\<close>

lemma pdcp_SN_mask:
  assumes "unat (sn_len (pcfg e)) \<le> 32"
  shows "pdcp_SN e count = take_bit (unat (sn_len (pcfg e))) count"
proof -
  have m: "(0xFFFFFFFF :: u32) = mask 32" by (simp add: mask_eq_exp_minus_1)
  have "shr (0xFFFFFFFF :: u32) (32 - unat (sn_len (pcfg e))) = mask (unat (sn_len (pcfg e)))"
    unfolding m by (rule bit_word_eqI) (use assms in \<open>auto simp: bit_drop_bit_eq bit_mask_iff\<close>)
  then show ?thesis by (simp add: pdcp_SN_def take_bit_eq_mask)
qed

lemma HFN_SN_COUNT:
  assumes "unat (sn_len (pcfg e)) \<le> 32"
  shows "pdcp_COUNT e (pdcp_HFN e c) (pdcp_SN e c) = c"
  by (rule bit_word_eqI)
    (auto simp: pdcp_COUNT_def pdcp_HFN_def pdcp_SN_mask [OF assms] bit_simps)

lemma unat_HFN: "unat (pdcp_HFN e c) = unat c div 2 ^ unat (sn_len (pcfg e))"
  by (simp add: pdcp_HFN_def unat_shr)

lemma unat_SN:
  assumes "unat (sn_len (pcfg e)) \<le> 32"
  shows "unat (pdcp_SN e c) = unat c mod 2 ^ unat (sn_len (pcfg e))"
  by (simp only: pdcp_SN_mask [OF assms] unsigned_take_bit_eq) (simp only: take_bit_eq_mod)

lemma unat_COUNT:
  assumes "unat sn < 2 ^ unat (sn_len (pcfg e))"
  shows "unat (pdcp_COUNT e hfn sn) = (unat hfn * 2 ^ unat (sn_len (pcfg e)) mod 2 ^ 32) + unat sn"
proof -
  let ?k = "unat (sn_len (pcfg e))"
  have t: "take_bit ?k (unat sn) = unat sn" using assms by (simp add: take_bit_nat_eq_self)
  have "take_bit 32 (push_bit ?k h) AND take_bit ?k s = 0" for h s :: nat
    by (rule bit_eqI) (auto simp: bit_simps)
  then have "(unat hfn * 2 ^ ?k mod 2 ^ 32) AND unat sn = 0"
    by (metis t take_bit_eq_mod push_bit_eq_mult)
  then show ?thesis
    by (simp add: pdcp_COUNT_def unat_or unat_shl disjunctive_add_eq_or)
qed

text \<open>The keys have been configured: four arrays of 32 bytes.\<close>

definition keys_ok :: "'a pdcp_entity_base_scheme \<Rightarrow> bool" where
  "keys_ok e \<longleftrightarrow>
     length (k_rrc_enc e) = 32 \<and> length (k_rrc_int e) = 32 \<and> length (k_up_enc e) = 32 \<and> length (k_up_int e) = 32"

lemma keys_ok_init [simp]: "keys_ok pdcp_entity_base_init"
  by (simp add: keys_ok_def pdcp_entity_base_init_def)

lemma keys_ok_config [simp]:
  assumes "keys_ok e" "length a = 32" "length b = 32" "length c = 32" "\<And>k. d = Some k \<Longrightarrow> length k = 32"
  shows "keys_ok (config_security a b c d ca ia e)"
  using assms by (auto simp: keys_ok_def config_security_def split: option.split)

lemma length_keys [simp]:
  "keys_ok e \<Longrightarrow> length (k_int e) = 16" "keys_ok e \<Longrightarrow> length (k_enc e) = 16"
  by (simp_all add: k_int_def k_enc_def keys_ok_def)

lemma out_of_simps [simp]: "out_of None = None" "out_of (Some (c, x)) = x"
  by (simp_all add: out_of_def)

text \<open>What the security functions compute.\<close>

definition eea_of :: "crypto_lib \<Rightarrow> 'a pdcp_entity_base_scheme \<Rightarrow> security_direction_t \<Rightarrow> u32 \<Rightarrow> u8 list \<Rightarrow> u8 list" where
  "eea_of L e d count msg =
     security_128_eea L (cipher_algo e) (k_enc e) count (bearer_id (pcfg e) - 1) (direction_code d) msg"

definition eia_of :: "crypto_lib \<Rightarrow> 'a pdcp_entity_base_scheme \<Rightarrow> security_direction_t \<Rightarrow> u32 \<Rightarrow> u8 list \<Rightarrow> u8 list" where
  "eia_of L e d count msg =
     security_128_eia L (integ_algo e) (k_int e) count (u32_of (bearer_id (pcfg e)) - 1) (direction_code d) msg"

lemma eea_of_eea_of [simp]:
  assumes "crypto_lib_ok L"
  shows "eea_of L e d count (eea_of L e d count msg) = msg" "length (eea_of L e d count msg) = length msg"
  using assms by (simp_all add: eea_of_def)

lemma cipher_call_eea:
  assumes "crypto_lib_ok L" "keys_ok e" "0 < length msg" "length msg \<le> PDCP_MAX_SDU_SIZE"
    and "n = of_nat (length msg)" "length ct = length msg"
    and "cipher_algo e = CIPHERING_ALGORITHM_ID_EEA0 \<or> cipher_algo e = CIPHERING_ALGORITHM_ID_N_ITEMS \<Longrightarrow> ct = msg"
  shows "cipher_call L e d msg n count ct = Some (eea_of L e d count msg)"
proof -
  have l: "length msg \<le> 9000" using assms(4) by (simp add: PDCP_MAX_SDU_SIZE_def)
  have u: "unat n = length msg" using l unfolding assms(5) by (simp add: unat_of_nat)
  have s: "length msg \<le> length (replicate PDCP_MAX_SDU_SIZE (0 :: u8))" "8 * length msg + 31 < 2 ^ 32" "16 \<le> length (k_enc e)"
    using assms(2,4) l by simp_all
  note c = security_128_eea_calls [OF assms(1) s(3) assms(3) s(2,1) assms(5)]
  show ?thesis
    using assms(6,7) eea_of_eea_of(2) [OF assms(1), of e d count msg]
    by (cases "cipher_algo e")
      (simp_all add: cipher_call_def c eea_of_def Let_def u copy_n_def)
qed

lemma integrity_call_eia:
  assumes "crypto_lib_ok L" "keys_ok e" "0 < length msg" "length msg + 24 < 2 ^ 24"
    and "n = of_nat (length msg)" "length mac = 4"
    and "integ_algo e = INTEGRITY_ALGORITHM_ID_EIA0 \<or> integ_algo e = INTEGRITY_ALGORITHM_ID_N_ITEMS \<Longrightarrow> mac = [0, 0, 0, 0]"
  shows "integrity_call L e d msg n count mac = Some (eia_of L e d count msg)"
proof -
  have k: "16 \<le> length (k_int e)" using assms(2) by simp
  show ?thesis
    using assms(7)
    by (cases "integ_algo e")
      (simp_all only: integrity_call_def eia_of_def Let_def security_128_eia_calls [OF assms(1) k assms(3,4,6,5)]
        out_of_simps option.map snd_conv INTEGRITY_ALGORITHM_ID_ENUM.case security_128_eia.simps simp_thms)
qed

lemma length_eia_of [simp]:
  assumes "crypto_lib_ok L" "keys_ok e" "0 < length msg" "8 * length msg < 2 ^ 32"
  shows "length (eia_of L e d count msg) = 4"
  using assms by (simp add: eia_of_def)

lemma cipher_call_cong:
  assumes "k_enc e = k_enc e'" "pcfg e = pcfg e'" "cipher_algo e = cipher_algo e'"
  shows "cipher_call L e = cipher_call L e'"
  by (intro ext) (unfold cipher_call_def assms, rule refl)

text \<open>Two ends of one bearer: the transmission of \<open>e\<close> is the reception of \<open>r\<close>.\<close>

definition pdcp_peers :: "'a pdcp_entity_base_scheme \<Rightarrow> 'b pdcp_entity_base_scheme \<Rightarrow> bool" where
  "pdcp_peers e r \<longleftrightarrow>
     bearer_id (pcfg e) = bearer_id (pcfg r) \<and> rb_type (pcfg e) = rb_type (pcfg r) \<and>
     sn_len (pcfg e) = sn_len (pcfg r) \<and> hdr_len_bytes (pcfg e) = hdr_len_bytes (pcfg r) \<and>
     tx_direction (pcfg e) = rx_direction (pcfg r) \<and> k_enc e = k_enc r \<and> k_int e = k_int r \<and>
     cipher_algo e = cipher_algo r \<and> integ_algo e = integ_algo r \<and>
     do_integrity e = do_integrity r \<and> do_encryption e = do_encryption r"

lemma pdcp_peers_security:
  assumes "pdcp_peers e r"
  shows "eea_of L r d count msg = eea_of L e d count msg" "eia_of L r d count msg = eia_of L e d count msg"
  using assms by (simp_all add: pdcp_peers_def eea_of_def eia_of_def)

end
