(* ===== verification/Pdcp_Lte.thy ===== *)
theory Pdcp_Lte
  imports Pdcp_Base
begin

text \<open>
  The LTE PDCP entity (\<open>lib/src/upper/pdcp_entity_lte.cc\<close>): packing of control and data PDUs,
  \<open>write_sdu\<close> towards RLC, \<open>write_pdu\<close> from RLC with the reordering-free handlers for UM and AM data
  radio bearers, the COUNT interface. The entity is the base record extended with the state of the
  class. What an operation hands to RLC, GW or RRC is part of its result. Whether the bearer is
  mapped on RLC UM (\<open>rlc->rb_is_um\<close>) is an argument. An operation is \<open>None\<close> where a security
  function is.
\<close>

section \<open>State\<close>

record pdcp_entity_lte = pdcp_entity_base +
  rx_count :: u32
  tx_count :: u32
  rx_hfn :: u32
  next_pdcp_rx_sn :: u32
  reordering_window :: u32
  last_submitted_pdcp_rx_sn :: u32
  maximum_pdcp_sn :: u32

definition new_pdcp_entity_lte :: pdcp_entity_lte where
  "new_pdcp_entity_lte =
     pdcp_entity_base.extend pdcp_entity_base_init
       \<lparr>rx_count = 0, tx_count = 0, rx_hfn = 0, next_pdcp_rx_sn = 0, reordering_window = 0,
        last_submitted_pdcp_rx_sn = 0, maximum_pdcp_sn = 0\<rparr>"

definition lte_init :: "u32 \<Rightarrow> pdcp_config_t \<Rightarrow> pdcp_entity_lte \<Rightarrow> pdcp_entity_lte" where
  "lte_init lcid' cfg' e =
     (let e = e\<lparr>lcid := lcid', pcfg := cfg', active := True, tx_count := 0, rx_count := 0,
                do_integrity := False, do_encryption := False\<rparr>;
          e = (if is_srb e then e\<lparr>reordering_window := 0\<rparr>
               else if is_drb e then e\<lparr>reordering_window := 2048\<rparr> else e);
          m = shl 1 (unat (sn_len cfg')) - 1
      in e\<lparr>rx_hfn := 0, next_pdcp_rx_sn := 0, maximum_pdcp_sn := m, last_submitted_pdcp_rx_sn := m\<rparr>)"

definition lte_reestablish :: "bool \<Rightarrow> pdcp_entity_lte \<Rightarrow> pdcp_entity_lte" where
  "lte_reestablish rb_is_um e =
     (if is_srb e then e\<lparr>tx_count := 0, rx_count := 0, rx_hfn := 0, next_pdcp_rx_sn := 0\<rparr>
      else if rb_is_um then e\<lparr>tx_count := 0, rx_count := 0, rx_hfn := 0, next_pdcp_rx_sn := 0\<rparr>
      else e)"

definition lte_reset :: "pdcp_entity_lte \<Rightarrow> pdcp_entity_lte" where
  "lte_reset e = e\<lparr>active := False\<rparr>"

section \<open>Packing and unpacking\<close>

definition PDCP_CONTROL_MAC_I :: u32 where "PDCP_CONTROL_MAC_I = 0x00000000"

definition push_byte :: "byte_buffer \<Rightarrow> u8 \<Rightarrow> byte_buffer" where
  "push_byte b v = (buf_set b (uint (N_bytes b)) v)\<lparr>N_bytes := N_bytes b + 1\<rparr>"

definition pdcp_pack_control_pdu :: "u32 \<Rightarrow> byte_buffer \<Rightarrow> byte_buffer" where
  "pdcp_pack_control_pdu sn sdu =
     (let sdu = sdu\<lparr>msg_ptr := msg_ptr sdu - 1, N_bytes := N_bytes sdu + 1\<rparr>;
          sdu = buf_set sdu 0 (u8_of (sn AND 0x1F));
          sdu = push_byte sdu (u8_of (shr PDCP_CONTROL_MAC_I 24 AND 0xFF));
          sdu = push_byte sdu (u8_of (shr PDCP_CONTROL_MAC_I 16 AND 0xFF));
          sdu = push_byte sdu (u8_of (shr PDCP_CONTROL_MAC_I 8 AND 0xFF))
      in push_byte sdu (u8_of (PDCP_CONTROL_MAC_I AND 0xFF)))"

definition pdcp_unpack_control_pdu :: "byte_buffer \<Rightarrow> u32 \<times> byte_buffer" where
  "pdcp_unpack_control_pdu pdu =
     (let sn = u32_of (buf_get pdu 0) AND 0x1F;
          pdu = pdu\<lparr>msg_ptr := msg_ptr pdu + 1, N_bytes := N_bytes pdu - 1\<rparr>
      in (sn, pdu\<lparr>N_bytes := N_bytes pdu - 4\<rparr>))"

definition pdcp_pack_data_pdu_short_sn :: "u32 \<Rightarrow> byte_buffer \<Rightarrow> byte_buffer" where
  "pdcp_pack_data_pdu_short_sn sn sdu =
     (let sdu = sdu\<lparr>msg_ptr := msg_ptr sdu - 1, N_bytes := N_bytes sdu + 1\<rparr>
      in buf_set sdu 0 (u8_of (shl 1 7 OR (sn AND 0x7F))))"

definition pdcp_unpack_data_pdu_short_sn :: "byte_buffer \<Rightarrow> u32 \<times> byte_buffer" where
  "pdcp_unpack_data_pdu_short_sn sdu =
     (u32_of (buf_get sdu 0 AND 0x7F), sdu\<lparr>msg_ptr := msg_ptr sdu + 1, N_bytes := N_bytes sdu - 1\<rparr>)"

definition pdcp_pack_data_pdu_long_sn :: "u32 \<Rightarrow> byte_buffer \<Rightarrow> byte_buffer" where
  "pdcp_pack_data_pdu_long_sn sn sdu =
     (let sdu = sdu\<lparr>msg_ptr := msg_ptr sdu - 2, N_bytes := N_bytes sdu + 2\<rparr>;
          sdu = buf_set sdu 0 (u8_of (shl 1 7 OR (shr sn 8 AND 0x0F)))
      in buf_set sdu 1 (u8_of (sn AND 0xFF)))"

definition pdcp_unpack_data_pdu_long_sn :: "byte_buffer \<Rightarrow> u32 \<times> byte_buffer" where
  "pdcp_unpack_data_pdu_long_sn sdu =
     (shl (u32_of (buf_get sdu 0 AND 0x0F)) 8 OR u32_of (buf_get sdu 1),
      sdu\<lparr>msg_ptr := msg_ptr sdu + 2, N_bytes := N_bytes sdu - 2\<rparr>)"

section \<open>Transmission\<close>

text \<open>A cipher applied in place to the \<open>n\<close> bytes from \<open>&msg[i]\<close>.\<close>

definition in_place ::
    "(u8 list \<Rightarrow> u32 \<Rightarrow> u32 \<Rightarrow> u8 list \<Rightarrow> u8 list option) \<Rightarrow> byte_buffer \<Rightarrow> int \<Rightarrow> u32 \<Rightarrow> u32 \<Rightarrow> byte_buffer option" where
  "in_place cipher b i n count =
     (let bs = buf_read b i (unat n) in map_option (buf_write b i) (cipher bs n count bs))"

definition lte_write_sdu :: "crypto_lib \<Rightarrow> pdcp_entity_lte \<Rightarrow> byte_buffer \<Rightarrow> (pdcp_entity_lte \<times> byte_buffer) option" where
  "lte_write_sdu L e sdu =
     do {
       sdu \<leftarrow> (if is_srb e
         then (let sdu = pdcp_pack_control_pdu (tx_count e) sdu
               in if do_integrity e
                  then do {
                    let n = N_bytes sdu - 4;
                    mac \<leftarrow> integrity_generate L e (buf_read sdu 0 (unat n)) n (tx_count e) (buf_read sdu (uint n) 4);
                    Some (buf_write sdu (uint n) mac)
                  }
                  else Some sdu)
         else Some sdu);
       let sdu = (if is_drb e
         then if sn_len (pcfg e) = 12 then pdcp_pack_data_pdu_long_sn (tx_count e) sdu
              else pdcp_pack_data_pdu_short_sn (tx_count e) sdu
         else sdu);
       sdu \<leftarrow> (if do_encryption e
         then in_place (cipher_encrypt L e) sdu (uint (hdr_len_bytes (pcfg e)))
                (N_bytes sdu - u32_of (hdr_len_bytes (pcfg e))) (tx_count e)
         else Some sdu);
       Some (e\<lparr>tx_count := tx_count e + 1\<rparr>, sdu)
     }"

section \<open>Reception\<close>

text \<open>
  The update of the receive state after an accepted sequence number, the same statements in both
  handlers.
\<close>

definition advance_rx_sn :: "u32 \<Rightarrow> pdcp_entity_lte \<Rightarrow> pdcp_entity_lte" where
  "advance_rx_sn sn e =
     (let e = e\<lparr>next_pdcp_rx_sn := sn + 1\<rparr>
      in if next_pdcp_rx_sn e > maximum_pdcp_sn e then e\<lparr>next_pdcp_rx_sn := 0, rx_hfn := rx_hfn e + 1\<rparr> else e)"

definition handle_um_drb_pdu ::
    "crypto_lib \<Rightarrow> pdcp_entity_lte \<Rightarrow> byte_buffer \<Rightarrow> (pdcp_entity_lte \<times> byte_buffer) option" where
  "handle_um_drb_pdu L e pdu =
     do {
       let (sn, pdu) = (if sn_len (pcfg e) = 12 then pdcp_unpack_data_pdu_long_sn pdu
                        else pdcp_unpack_data_pdu_short_sn pdu);
       let e = (if sn < next_pdcp_rx_sn e then e\<lparr>rx_hfn := rx_hfn e + 1\<rparr> else e);
       let count = shl (rx_hfn e) (unat (sn_len (pcfg e))) OR sn;
       pdu \<leftarrow> (if do_encryption e then in_place (cipher_decrypt L e) pdu 0 (N_bytes pdu) count else Some pdu);
       Some (advance_rx_sn sn e, pdu)
     }"

text \<open>
  The branches of the AM handler: the COUNT of the PDU, whether it is marked as discarded, and
  the new state. The comparisons of the code are between signed 32-bit differences.
\<close>

definition am_branch :: "pdcp_entity_lte \<Rightarrow> u32 \<Rightarrow> u32 \<times> bool \<times> pdcp_entity_lte" where
  "am_branch e sn =
     (let k = unat (sn_len (pcfg e));
          w = sint (reordering_window e);
          last_submit_diff_sn = sint (last_submitted_pdcp_rx_sn e - sn);
          sn_diff_last_submit = sint (sn - last_submitted_pdcp_rx_sn e);
          sn_diff_next_pdcp_rx_sn = sint (sn - next_pdcp_rx_sn e)
      in if (0 \<le> sn_diff_last_submit \<and> sn_diff_last_submit > w) \<or> (0 \<le> last_submit_diff_sn \<and> last_submit_diff_sn < w)
         then if sn > next_pdcp_rx_sn e then (shl (rx_hfn e - 1) k OR sn, True, e)
              else (shl (rx_hfn e) k OR sn, True, e)
         else if sint (next_pdcp_rx_sn e - sn) > w
         then (let e = e\<lparr>rx_hfn := rx_hfn e + 1\<rparr>
               in (shl (rx_hfn e) k OR sn, False, e\<lparr>next_pdcp_rx_sn := sn + 1\<rparr>))
         else if sn_diff_next_pdcp_rx_sn \<ge> w then (shl (rx_hfn e - 1) k OR sn, False, e)
         else if sn \<ge> next_pdcp_rx_sn e
         then (shl (rx_hfn e) k OR sn, False, advance_rx_sn sn e)
         else (shl (rx_hfn e) k OR sn, False, e))"

definition handle_am_drb_pdu ::
    "crypto_lib \<Rightarrow> pdcp_entity_lte \<Rightarrow> byte_buffer \<Rightarrow> (pdcp_entity_lte \<times> byte_buffer) option" where
  "handle_am_drb_pdu L e pdu =
     do {
       let (sn, pdu) = pdcp_unpack_data_pdu_long_sn pdu;
       let (count, discard, e) = am_branch e sn;
       pdu \<leftarrow> in_place (cipher_decrypt L e) pdu 0 (N_bytes pdu) count;
       Some (if \<not> discard then e\<lparr>last_submitted_pdcp_rx_sn := sn\<rparr> else e, pdu)
     }"

datatype delivery = To_GW u32 byte_buffer | To_RRC u32 byte_buffer

definition lte_write_pdu ::
    "crypto_lib \<Rightarrow> bool \<Rightarrow> pdcp_entity_lte \<Rightarrow> byte_buffer \<Rightarrow> (pdcp_entity_lte \<times> delivery option) option" where
  "lte_write_pdu L rb_is_um e pdu =
     (if N_bytes pdu \<le> u32_of (hdr_len_bytes (pcfg e)) then Some (e, None)
      else if is_drb e
      then do {
        (e, pdu) \<leftarrow> (if rb_is_um then handle_um_drb_pdu L e pdu else handle_am_drb_pdu L e pdu);
        Some (e\<lparr>rx_count := rx_count e + 1\<rparr>, Some (To_GW (lcid e) pdu))
      }
      else if is_srb e
      then do {
        let sn = u32_of (buf_get pdu 0) AND 0x1F;
        pdu \<leftarrow> (if do_encryption e
          then in_place (cipher_decrypt L e) pdu (uint (hdr_len_bytes (pcfg e)))
                 (N_bytes pdu - u32_of (hdr_len_bytes (pcfg e))) sn
          else Some pdu);
        let n = N_bytes pdu - 4;
        valid \<leftarrow> (if do_integrity e
          then integrity_verify L e (buf_read pdu 0 (unat n)) n sn (buf_read pdu (uint n) 4) else Some True);
        if \<not> valid then Some (e\<lparr>rx_count := rx_count e + 1\<rparr>, None)
        else let (_, pdu) = pdcp_unpack_control_pdu pdu
             in Some (e\<lparr>rx_count := rx_count e + 1\<rparr>, Some (To_RRC (lcid e) pdu))
      }
      else Some (e\<lparr>rx_count := rx_count e + 1\<rparr>, Some (To_RRC (lcid e) pdu)))"

section \<open>The COUNT interface\<close>

definition get_dl_count :: "pdcp_entity_lte \<Rightarrow> u32" where "get_dl_count e = rx_count e"
definition get_ul_count :: "pdcp_entity_lte \<Rightarrow> u32" where "get_ul_count e = tx_count e"

text \<open>The results are \<open>dlsn\<close>, \<open>dlhfn\<close>, \<open>ulsn\<close> and \<open>ulhfn\<close>.\<close>

definition get_bearer_status :: "pdcp_entity_lte \<Rightarrow> u16 \<times> u16 \<times> u16 \<times> u16" where
  "get_bearer_status e =
     (let split = (\<lambda>c m k. let s = u16_of (c AND m) in (s, u16_of (shr (c - u32_of s) k)));
          (m, k) = (if rb_type (pcfg e) = PDCP_RB_IS_DRB
                    then if sn_len (pcfg e) = 12 then (0xFFF, 12) else (0x7F, 7)
                    else (0x1F, 5));
          (dlsn, dlhfn) = split (tx_count e) m k;
          (ulsn, ulhfn) = split (rx_count e) m k
      in (dlsn, dlhfn, ulsn, ulhfn))"

section \<open>Lemmas: the PDUs as byte strings\<close>

lemma bytes_push_front:
  assumes "unat (N_bytes b) + 1 < 2 ^ 32"
  shows "bytes (buf_set (b\<lparr>msg_ptr := msg_ptr b - 1, N_bytes := N_bytes b + 1\<rparr>) 0 v) = v # bytes b"
proof (rule bytes_eqI)
  have n: "unat (N_bytes b + 1) = unat (N_bytes b) + 1" using assms by (simp add: unat_word_ariths)
  then show "length (v # bytes b) = unat (N_bytes (buf_set (b\<lparr>msg_ptr := msg_ptr b - 1, N_bytes := N_bytes b + 1\<rparr>) 0 v))"
    by simp
  fix i
  assume "i < length (v # bytes b)"
  then show "buf_get (buf_set (b\<lparr>msg_ptr := msg_ptr b - 1, N_bytes := N_bytes b + 1\<rparr>) 0 v) (int i) = (v # bytes b) ! i"
    by (cases i) (simp_all add: nth_bytes, simp add: buf_get_def)
qed

lemma bytes_push_byte:
  assumes "unat (N_bytes b) + 1 < 2 ^ 32"
  shows "bytes (push_byte b v) = bytes b @ [v]"
proof (rule bytes_eqI)
  have n: "unat (N_bytes b + 1) = unat (N_bytes b) + 1" using assms by (simp add: unat_word_ariths)
  then show "length (bytes b @ [v]) = unat (N_bytes (push_byte b v))" by (simp add: push_byte_def)
  have get: "buf_get (push_byte b v) j = (if j = int (unat (N_bytes b)) then v else buf_get b j)" for j
    by (simp add: push_byte_def buf_set_def buf_get_def)
  fix i
  assume "i < length (bytes b @ [v])"
  then show "buf_get (push_byte b v) (int i) = (bytes b @ [v]) ! i"
    unfolding get by (cases "i = unat (N_bytes b)") (simp_all only: of_nat_eq_iff nth_append length_bytes,
      simp_all add: nth_bytes)
qed

lemma bytes_drop:
  assumes "unat k \<le> unat (N_bytes b)"
  shows "bytes (b\<lparr>msg_ptr := msg_ptr b + uint k, N_bytes := N_bytes b - k\<rparr>) = drop (unat k) (bytes b)"
proof (rule bytes_eqI)
  have n: "unat (N_bytes b - k) = unat (N_bytes b) - unat k" using assms by (simp add: unat_sub word_le_nat_alt)
  then show "length (drop (unat k) (bytes b)) = unat (N_bytes (b\<lparr>msg_ptr := msg_ptr b + uint k, N_bytes := N_bytes b - k\<rparr>))"
    by simp
  fix i
  assume "i < length (drop (unat k) (bytes b))"
  then have "unat k + i < unat (N_bytes b)" by simp
  then show "buf_get (b\<lparr>msg_ptr := msg_ptr b + uint k, N_bytes := N_bytes b - k\<rparr>) (int i) = drop (unat k) (bytes b) ! i"
    by (simp add: nth_bytes buf_get_def add.assoc)
qed

lemma bytes_take:
  assumes "unat n \<le> unat (N_bytes b)"
  shows "bytes (b\<lparr>N_bytes := n\<rparr>) = take (unat n) (bytes b)"
  using assms by (intro bytes_eqI) (simp_all add: nth_bytes buf_get_def)

lemma N_bytes_of_bytes: "unat (N_bytes b) = length (bytes b)"
  by simp

lemma bytes_pack_control:
  assumes "length (bytes b) + 5 < 2 ^ 32"
  shows "bytes (pdcp_pack_control_pdu sn b) = u8_of (sn AND 0x1F) # bytes b @ [0, 0, 0, 0]"
proof -
  let ?b0 = "buf_set (b\<lparr>msg_ptr := msg_ptr b - 1, N_bytes := N_bytes b + 1\<rparr>) 0 (u8_of (sn AND 0x1F))"
  have s0: "bytes ?b0 = u8_of (sn AND 0x1F) # bytes b"
    by (rule bytes_push_front) (use assms in simp)
  have p: "bytes (push_byte c 0) = bytes c @ [0]" if "length (bytes c) + 1 < 2 ^ 32" for c
    using that by (simp add: bytes_push_byte)
  have s1: "bytes (push_byte ?b0 0) = u8_of (sn AND 0x1F) # bytes b @ [0]"
    using p [of ?b0] s0 assms by (simp del: length_bytes)
  have s2: "bytes (push_byte (push_byte ?b0 0) 0) = u8_of (sn AND 0x1F) # bytes b @ [0, 0]"
    using p [of "push_byte ?b0 0"] s1 assms by (simp del: length_bytes)
  have s3: "bytes (push_byte (push_byte (push_byte ?b0 0) 0) 0) = u8_of (sn AND 0x1F) # bytes b @ [0, 0, 0]"
    using p [of "push_byte (push_byte ?b0 0) 0"] s2 assms by (simp del: length_bytes)
  have "bytes (push_byte (push_byte (push_byte (push_byte ?b0 0) 0) 0) 0) = u8_of (sn AND 0x1F) # bytes b @ [0, 0, 0, 0]"
    using p [of "push_byte (push_byte (push_byte ?b0 0) 0) 0"] s3 assms by (simp del: length_bytes)
  then show ?thesis by (simp add: pdcp_pack_control_pdu_def PDCP_CONTROL_MAC_I_def Let_def)
qed

lemma bytes_unpack_control:
  assumes "5 \<le> length (bytes b)"
  shows "fst (pdcp_unpack_control_pdu b) = u32_of (bytes b ! 0) AND 0x1F"
    and "bytes (snd (pdcp_unpack_control_pdu b)) = take (length (bytes b) - 5) (drop 1 (bytes b))"
proof -
  show "fst (pdcp_unpack_control_pdu b) = u32_of (bytes b ! 0) AND 0x1F"
    using assms by (simp add: pdcp_unpack_control_pdu_def Let_def nth_bytes)
  let ?c = "b\<lparr>msg_ptr := msg_ptr b + 1, N_bytes := N_bytes b - 1\<rparr>"
  have c: "bytes ?c = drop 1 (bytes b)" using bytes_drop [of 1 b] assms by simp
  have "1 \<le> N_bytes b" "5 \<le> N_bytes b" using assms by (simp_all add: word_le_nat_alt)
  then have n: "unat (N_bytes b - 1) = unat (N_bytes b) - 1" "unat (N_bytes b - 5) = unat (N_bytes b) - 5"
    by (simp_all add: unat_sub)
  have "bytes (?c\<lparr>N_bytes := N_bytes ?c - 4\<rparr>) = take (unat (N_bytes ?c - 4)) (bytes ?c)"
    by (rule bytes_take) (use n in simp)
  with c n show "bytes (snd (pdcp_unpack_control_pdu b)) = take (length (bytes b) - 5) (drop 1 (bytes b))"
    by (simp add: pdcp_unpack_control_pdu_def Let_def)
qed

lemma N_bytes_add:
  assumes "length (bytes b) + unat k < 2 ^ 32"
  shows "unat (N_bytes b + k) = length (bytes b) + unat k"
  using assms by (simp add: unat_word_ariths)

lemma bytes_pack_short:
  assumes "length (bytes b) + 1 < 2 ^ 32"
  shows "bytes (pdcp_pack_data_pdu_short_sn sn b) = u8_of (shl 1 7 OR (sn AND 0x7F)) # bytes b"
  unfolding pdcp_pack_data_pdu_short_sn_def Let_def
  by (rule bytes_push_front) (use assms in simp)

lemma bytes_pack_long:
  assumes "length (bytes b) + 2 < 2 ^ 32"
  shows "bytes (pdcp_pack_data_pdu_long_sn sn b) =
    u8_of (shl 1 7 OR (shr sn 8 AND 0x0F)) # u8_of (sn AND 0xFF) # bytes b"
proof (rule bytes_eqI)
  have "unat (N_bytes b + 2) = length (bytes b) + 2" using N_bytes_add [of b 2] assms by simp
  then show "length (u8_of (shl 1 7 OR (shr sn 8 AND 0x0F)) # u8_of (sn AND 0xFF) # bytes b) =
      unat (N_bytes (pdcp_pack_data_pdu_long_sn sn b))"
    by (simp add: pdcp_pack_data_pdu_long_sn_def Let_def)
  fix i
  assume i: "i < length (u8_of (shl 1 7 OR (shr sn 8 AND 0x0F)) # u8_of (sn AND 0xFF) # bytes b)"
  have g: "buf_get (pdcp_pack_data_pdu_long_sn sn b) j =
      (if j = 1 then u8_of (sn AND 0xFF) else if j = 0 then u8_of (shl 1 7 OR (shr sn 8 AND 0x0F)) else buf_get b (j - 2))" for j
  proof -
    have e: "msg_ptr b - 2 + j = msg_ptr b + (j - 2)" by simp
    show ?thesis by (simp add: pdcp_pack_data_pdu_long_sn_def Let_def) (simp add: buf_get_def e)
  qed
  consider "i = 0" | "i = 1" | j where "i = Suc (Suc j)" "j < unat (N_bytes b)"
    using i by (cases i; cases "i - 1") auto
  then show "buf_get (pdcp_pack_data_pdu_long_sn sn b) (int i) =
      (u8_of (shl 1 7 OR (shr sn 8 AND 0x0F)) # u8_of (sn AND 0xFF) # bytes b) ! i"
    unfolding g by cases (simp_all add: nth_bytes)
qed

lemma unpack_short:
  assumes "1 \<le> length (bytes b)"
  shows "fst (pdcp_unpack_data_pdu_short_sn b) = u32_of (bytes b ! 0 AND 0x7F)"
    and "bytes (snd (pdcp_unpack_data_pdu_short_sn b)) = drop 1 (bytes b)"
  using assms bytes_drop [of 1 b] by (simp_all add: pdcp_unpack_data_pdu_short_sn_def nth_bytes)

lemma unpack_long:
  assumes "2 \<le> length (bytes b)"
  shows "fst (pdcp_unpack_data_pdu_long_sn b) = shl (u32_of (bytes b ! 0 AND 0x0F)) 8 OR u32_of (bytes b ! 1)"
    and "bytes (snd (pdcp_unpack_data_pdu_long_sn b)) = drop 2 (bytes b)"
  using assms bytes_drop [of 2 b] nth_bytes [of 1 b]
  by (simp_all add: pdcp_unpack_data_pdu_long_sn_def nth_bytes)

text \<open>The sequence number survives the header.\<close>

lemmas header_bits = byte_masks bit_or_iff bit_and_iff bit_ucast_iff bit_take_bit_iff bit_push_bit_iff
  bit_1_iff bit_drop_bit_eq o_def

lemma short_sn_header: "u32_of (u8_of (shl 1 7 OR (sn AND 0x7F)) AND 0x7F) = take_bit 7 (sn :: u32)"
  by (rule bit_word_eqI) (simp only: header_bits, auto)

lemma long_sn_header:
  "shl (u32_of (u8_of (shl 1 7 OR (shr sn 8 AND 0x0F)) AND 0x0F)) 8 OR u32_of (u8_of (sn AND 0xFF)) = take_bit 12 (sn :: u32)"
  by (rule bit_word_eqI) (simp only: header_bits, auto simp: bit_add_diff)

lemma control_sn_header: "u32_of (u8_of (sn AND 0x1F)) AND 0x1F = (sn AND 0x1F :: u32)"
  by (rule bit_word_eqI) (auto simp: word_bits)

section \<open>Lemmas: what the operations compute\<close>

lemma in_place_eea:
  assumes "crypto_lib_ok L" "keys_ok e" "i + unat n = length (bytes b)" "0 < unat n" "unat n \<le> PDCP_MAX_SDU_SIZE"
  shows "\<exists>b'. in_place (cipher_call L e d) b (int i) n count = Some b' \<and>
    bytes b' = take i (bytes b) @ eea_of L e d count (drop i (bytes b))"
proof -
  have r: "buf_read b (int i) (unat n) = drop i (bytes b)"
    using assms(3) by (simp add: buf_read_bytes)
  have "cipher_call L e d (drop i (bytes b)) n count (drop i (bytes b)) = Some (eea_of L e d count (drop i (bytes b)))"
  proof (rule cipher_call_eea [OF assms(1,2)])
    have l: "length (drop i (bytes b)) = unat n" using assms(3) by simp
    show "n = of_nat (length (drop i (bytes b)))" unfolding l by simp
    show "0 < length (drop i (bytes b))" "length (drop i (bytes b)) \<le> PDCP_MAX_SDU_SIZE"
      unfolding l by (rule assms(4), rule assms(5))
  qed simp_all
  then have "in_place (cipher_call L e d) b (int i) n count = Some (buf_write b (int i) (eea_of L e d count (drop i (bytes b))))"
    by (simp add: in_place_def Let_def r)
  moreover have "bytes (buf_write b (int i) (eea_of L e d count (drop i (bytes b)))) =
      take i (bytes b) @ eea_of L e d count (drop i (bytes b))"
    using assms(1,3) by (subst bytes_buf_write) simp_all
  ultimately show ?thesis by blast
qed

lemma cipher_calls:
  "cipher_encrypt L e = cipher_call L e (tx_direction (pcfg e))"
  "cipher_decrypt L e = cipher_call L e (rx_direction (pcfg e))"
  by (intro ext; simp add: cipher_encrypt_def cipher_decrypt_def)+

text \<open>The PDU of an SRB, as a byte string.\<close>

definition srb_pdu :: "crypto_lib \<Rightarrow> pdcp_entity_lte \<Rightarrow> u32 \<Rightarrow> u8 list \<Rightarrow> u8 list" where
  "srb_pdu L e count sdu =
     (let hdr = u8_of (count AND 0x1F); d = tx_direction (pcfg e);
          mac = (if do_integrity e then eia_of L e d count (hdr # sdu) else [0, 0, 0, 0])
      in hdr # (if do_encryption e then eea_of L e d count (sdu @ mac) else sdu @ mac))"

lemma buf_read_nat: "buf_read b (uint k) n = buf_read b (int (unat k)) n"
  and buf_write_nat: "buf_write b (uint k) bs = buf_write b (int (unat k)) bs"
  by simp_all

lemma lte_write_sdu_srb:
  assumes "crypto_lib_ok L" "keys_ok e" "is_srb e" "hdr_len_bytes (pcfg e) = 1" "length (bytes sdu) + 4 \<le> PDCP_MAX_SDU_SIZE"
  shows "\<exists>pdu. lte_write_sdu L e sdu = Some (e\<lparr>tx_count := tx_count e + 1\<rparr>, pdu) \<and>
    bytes pdu = srb_pdu L e (tx_count e) (bytes sdu)"
proof -
  let ?c = "tx_count e" and ?d = "tx_direction (pcfg e)" and ?hdr = "u8_of (tx_count e AND 0x1F)"
  let ?mac = "if do_integrity e then eia_of L e ?d ?c (?hdr # bytes sdu) else [0, 0, 0, 0]"
  have nd: "\<not> is_drb e" using assms(3) by (simp add: is_srb_def is_drb_def)
  have len: "length (bytes sdu) + 4 \<le> 9000" using assms(5) by (simp add: PDCP_MAX_SDU_SIZE_def)
  define b0 where "b0 = pdcp_pack_control_pdu ?c sdu"
  have b0: "bytes b0 = ?hdr # bytes sdu @ [0, 0, 0, 0]"
    unfolding b0_def by (rule bytes_pack_control) (use len in simp)
  then have N0: "unat (N_bytes b0) = length (bytes sdu) + 5"
    using N_bytes_of_bytes [of b0] by (simp del: length_bytes)
  then have n: "unat (N_bytes b0 - 4) = length (bytes sdu) + 1" "unat (N_bytes b0 - 1) = length (bytes sdu) + 4"
    by (subst unat_sub; simp add: word_le_nat_alt)+
  have mac4: "length ?mac = 4"
    using assms(1,2) len by simp
  define b1 where "b1 = (if do_integrity e then buf_write b0 (uint (N_bytes b0 - 4)) ?mac else b0)"
  have b1: "bytes b1 = ?hdr # bytes sdu @ ?mac"
  proof (cases "do_integrity e")
    case True
    have "bytes (buf_write b0 (int (length (bytes sdu) + 1)) ?mac) =
        take (length (bytes sdu) + 1) (bytes b0) @ ?mac @ drop (length (bytes sdu) + 1 + length ?mac) (bytes b0)"
      by (rule bytes_buf_write) (use mac4 N0 in simp)
    also have "\<dots> = ?hdr # bytes sdu @ ?mac" using mac4 by (simp add: b0)
    finally show ?thesis using True unfolding b1_def buf_write_nat n by (simp only: if_True)
  qed (simp add: b1_def b0)
  have gen: "do_integrity e \<Longrightarrow> integrity_generate L e (buf_read b0 0 (unat (N_bytes b0 - 4))) (N_bytes b0 - 4) ?c
      (buf_read b0 (uint (N_bytes b0 - 4)) 4) = Some ?mac"
  proof -
    assume i: "do_integrity e"
    have r: "buf_read b0 0 (unat (N_bytes b0 - 4)) = ?hdr # bytes sdu"
      using buf_read_bytes [of 0 "unat (N_bytes b0 - 4)" b0] N0 n b0 by simp
    have m: "buf_read b0 (uint (N_bytes b0 - 4)) 4 = [0, 0, 0, 0]"
      unfolding buf_read_nat n using buf_read_bytes [of "length (bytes sdu) + 1" 4 b0] N0 b0 by simp
    have "N_bytes b0 - 4 = of_nat (length (?hdr # bytes sdu))"
    proof -
      have l: "length (?hdr # bytes sdu) = unat (N_bytes b0 - 4)" using n by simp
      show ?thesis unfolding l by simp
    qed
    then show ?thesis
      unfolding integrity_generate_def r m
      using i integrity_call_eia [OF assms(1,2), of "?hdr # bytes sdu"] len by simp
  qed
  have N1: "N_bytes b1 = N_bytes b0" by (simp add: b1_def)
  have s1: "(if do_integrity e then do {
        let n = N_bytes b0 - 4;
        mac \<leftarrow> integrity_generate L e (buf_read b0 0 (unat n)) n ?c (buf_read b0 (uint n) 4);
        Some (buf_write b0 (uint n) mac) } else Some b0) = Some b1"
    using gen by (simp add: b1_def Let_def)
  have enc: "\<exists>b2. (if do_encryption e then in_place (cipher_encrypt L e) b1 1 (N_bytes b1 - 1) ?c else Some b1) = Some b2 \<and>
      bytes b2 = srb_pdu L e ?c (bytes sdu)"
  proof (cases "do_encryption e")
    case True
    have "\<exists>b2. in_place (cipher_call L e ?d) b1 (int 1) (N_bytes b1 - 1) ?c = Some b2 \<and>
        bytes b2 = take 1 (bytes b1) @ eea_of L e ?d ?c (drop 1 (bytes b1))"
      by (rule in_place_eea [OF assms(1,2)]) (use N0 N1 n assms(5) in simp_all)
    with True b1 show ?thesis by (simp add: cipher_calls srb_pdu_def Let_def)
  qed (use b1 in \<open>simp add: srb_pdu_def Let_def\<close>)
  with s1 assms(3,4) nd show ?thesis
    by (auto simp: lte_write_sdu_def Let_def b0_def [symmetric] cong: if_cong)
qed

text \<open>What the receiver of an SRB PDU hands to RRC, as a byte string; the COUNT is the 5-bit SN.\<close>

definition srb_rx :: "crypto_lib \<Rightarrow> pdcp_entity_lte \<Rightarrow> u8 list \<Rightarrow> u8 list option" where
  "srb_rx L e pdu =
     (let hdr = pdu ! 0; count = u32_of hdr AND 0x1F; d = rx_direction (pcfg e);
          body = (if do_encryption e then eea_of L e d count (drop 1 pdu) else drop 1 pdu);
          n = length body - 4; sdu = take n body; mac = drop n body
      in if do_integrity e \<and> integ_algo e \<noteq> INTEGRITY_ALGORITHM_ID_EIA0 \<and> mac \<noteq> eia_of L e d count (hdr # sdu)
         then None else Some sdu)"

lemma integrity_verify_eia:
  assumes "crypto_lib_ok L" "keys_ok e" "0 < length msg" "length msg + 24 < 2 ^ 24"
    and "n = of_nat (length msg)" "length mac = 4"
  shows "integrity_verify L e msg n count mac =
    Some (integ_algo e = INTEGRITY_ALGORITHM_ID_EIA0 \<or> mac = eia_of L e (rx_direction (pcfg e)) count msg)"
proof -
  have "integrity_call L e (rx_direction (pcfg e)) msg n count [0, 0, 0, 0] = Some (eia_of L e (rx_direction (pcfg e)) count msg)"
    by (rule integrity_call_eia) (use assms in simp_all)
  moreover have "(\<forall>i \<in> set [0..<4]. mac ! i = eia_of L e (rx_direction (pcfg e)) count msg ! i) \<longleftrightarrow>
      mac = eia_of L e (rx_direction (pcfg e)) count msg"
    using assms length_eia_of [OF assms(1-3)] by (auto intro: nth_equalityI)
  ultimately show ?thesis by (simp add: integrity_verify_def)
qed

lemma lte_write_pdu_srb:
  assumes "crypto_lib_ok L" "keys_ok e" "is_srb e" "hdr_len_bytes (pcfg e) = 1"
    and "5 \<le> length (bytes pdu)" "length (bytes pdu) \<le> PDCP_MAX_SDU_SIZE + 1"
  shows "\<exists>d. lte_write_pdu L um e pdu = Some (e\<lparr>rx_count := rx_count e + 1\<rparr>, d) \<and>
    (case srb_rx L e (bytes pdu) of None \<Rightarrow> d = None
     | Some sdu \<Rightarrow> \<exists>b. d = Some (To_RRC (lcid e) b) \<and> bytes b = sdu)"
proof -
  let ?hdr = "bytes pdu ! 0" and ?l = "length (bytes pdu)" and ?d = "rx_direction (pcfg e)"
  let ?c = "u32_of ?hdr AND 0x1F"
  let ?body = "if do_encryption e then eea_of L e ?d ?c (drop 1 (bytes pdu)) else drop 1 (bytes pdu)"
  have len: "?l \<le> 9001" using assms(6) by (simp add: PDCP_MAX_SDU_SIZE_def)
  have nd: "\<not> is_drb e" using assms(3) by (simp add: is_srb_def is_drb_def)
  have N: "unat (N_bytes pdu) = ?l" by simp
  have N1: "unat (N_bytes pdu - 1) = ?l - 1" using assms(5) by (subst unat_sub) (simp_all add: word_le_nat_alt)
  have gt: "\<not> N_bytes pdu \<le> 1" using assms(5) by (simp add: word_le_nat_alt)
  have hdr: "buf_get pdu 0 = ?hdr" using assms(5) nth_bytes [of 0 pdu] by simp
  have blen: "length ?body = ?l - 1" using assms(1) by simp
  have bs: "bytes pdu = ?hdr # drop 1 (bytes pdu)" using assms(5) by (cases "bytes pdu") auto
  obtain b1 where b1: "(if do_encryption e then in_place (cipher_decrypt L e) pdu 1 (N_bytes pdu - 1) ?c else Some pdu) = Some b1"
    "bytes b1 = ?hdr # ?body"
  proof (cases "do_encryption e")
    case True
    have "\<exists>b2. in_place (cipher_call L e ?d) pdu (int 1) (N_bytes pdu - 1) ?c = Some b2 \<and>
        bytes b2 = take 1 (bytes pdu) @ eea_of L e ?d ?c (drop 1 (bytes pdu))"
      by (rule in_place_eea [OF assms(1,2)]) (use N1 assms(5,6) in simp_all)
    moreover have "take 1 (bytes pdu) = [?hdr]" by (subst bs) simp
    ultimately show thesis using True that by (auto simp: cipher_calls)
  qed (use that bs in simp)
  let ?n = "?l - 5" and ?sdu = "take (?l - 5) ?body" and ?mac = "drop (?l - 5) ?body"
  have Nb: "unat (N_bytes b1) = ?l" using N_bytes_of_bytes [of b1] b1(2) blen assms(5) by (simp del: length_bytes)
  have n4: "unat (N_bytes b1 - 4) = ?n + 1" using assms(5) by (subst unat_sub) (simp_all add: word_le_nat_alt Nb)
  have r: "buf_read b1 0 (unat (N_bytes b1 - 4)) = ?hdr # ?sdu"
    using buf_read_bytes [of 0 "?n + 1" b1] assms(5) Nb b1(2) by (simp add: n4)
  have m: "buf_read b1 (uint (N_bytes b1 - 4)) 4 = ?mac"
  proof -
    have l4: "length ?mac = 4" using blen assms(5) by simp
    have "buf_read b1 (int (?n + 1)) 4 = take 4 (drop (?n + 1) (bytes b1))"
      by (rule buf_read_bytes) (use assms(5) Nb in simp)
    also have "\<dots> = ?mac" using l4 by (simp add: b1(2))
    finally show ?thesis by (simp only: buf_read_nat n4)
  qed
  have v: "integrity_verify L e (?hdr # ?sdu) (N_bytes b1 - 4) ?c ?mac =
      Some (integ_algo e = INTEGRITY_ALGORITHM_ID_EIA0 \<or> ?mac = eia_of L e ?d ?c (?hdr # ?sdu))"
  proof (rule integrity_verify_eia [OF assms(1,2)])
    have l: "length (?hdr # ?sdu) = unat (N_bytes b1 - 4)" using blen n4 assms(5) by simp
    show "N_bytes b1 - 4 = of_nat (length (?hdr # ?sdu))" unfolding l by simp
    show "length (?hdr # ?sdu) + 24 < 2 ^ 24" unfolding l n4 using len by simp
    show "length ?mac = 4" using blen assms(5) by simp
  qed simp
  have u: "bytes (snd (pdcp_unpack_control_pdu b1)) = ?sdu"
  proof -
    have "length (bytes b1) = ?l" using Nb by simp
    then show ?thesis
      using bytes_unpack_control(2) [of b1] assms(5) by (simp add: b1(2) del: length_bytes)
  qed
  have rx: "srb_rx L e (bytes pdu) = (if do_integrity e \<and> integ_algo e \<noteq> INTEGRITY_ALGORITHM_ID_EIA0 \<and>
      ?mac \<noteq> eia_of L e ?d ?c (?hdr # ?sdu) then None else Some ?sdu)"
    unfolding srb_rx_def Let_def blen by simp
  show ?thesis
    unfolding lte_write_pdu_def Let_def assms(4) hdr
    using assms(3) nd gt b1(1) r m v u rx
    by (cases "do_integrity e"; cases "integ_algo e = INTEGRITY_ALGORITHM_ID_EIA0 \<or> ?mac = eia_of L e ?d ?c (?hdr # ?sdu)")
      (auto simp: case_prod_unfold)
qed

section \<open>Lemmas: signalling bearers\<close>

lemma and_0x1F_idem: "(c AND 0x1F) AND 0x1F = (c AND 0x1F :: u32)"
  by (simp add: and.assoc)

lemma small_count: "unat (c :: u32) < 32 \<Longrightarrow> c AND 0x1F = c"
  using unat_and_mask [of c 5] by (intro word_unat_eq_iff [THEN iffD2]) (simp add: mask_eq_exp_minus_1)

lemma srb_rx_srb_pdu:
  assumes "crypto_lib_ok L" "keys_ok e" "pdcp_peers e r" "unat c < 32" "length sdu + 4 \<le> PDCP_MAX_SDU_SIZE"
  shows "srb_rx L r (srb_pdu L e c sdu) = Some sdu"
proof -
  let ?hdr = "u8_of (c AND 0x1F)"
  let ?mac = "if do_integrity e then eia_of L e (tx_direction (pcfg e)) c (?hdr # sdu) else [0, 0, 0, 0]"
  have len: "length sdu + 4 \<le> 9000" using assms(5) by (simp add: PDCP_MAX_SDU_SIZE_def)
  have mac4: "length ?mac = 4" using assms(1,2) len by simp
  have c: "u32_of ?hdr AND 0x1F = c"
    using control_sn_header [of c] small_count [OF assms(4)] by simp
  note p = pdcp_peers_security [OF assms(3)]
  have d: "rx_direction (pcfg r) = tx_direction (pcfg e)" "do_encryption r = do_encryption e"
    "do_integrity r = do_integrity e" "integ_algo r = integ_algo e"
    using assms(3) by (simp_all add: pdcp_peers_def)
  show ?thesis
    using mac4 by (auto simp: srb_rx_def srb_pdu_def Let_def c d p assms(1))
qed

section \<open>Lemmas: data bearers\<close>

text \<open>The two configurations of a data bearer.\<close>

definition drb_config :: "pdcp_entity_lte \<Rightarrow> bool" where
  "drb_config e \<longleftrightarrow> is_drb e \<and>
     (sn_len (pcfg e) = 12 \<and> hdr_len_bytes (pcfg e) = 2 \<or> sn_len (pcfg e) = 7 \<and> hdr_len_bytes (pcfg e) = 1) \<and>
     maximum_pdcp_sn e = shl 1 (unat (sn_len (pcfg e))) - 1"

definition drb_header :: "pdcp_entity_lte \<Rightarrow> u32 \<Rightarrow> u8 list" where
  "drb_header e count =
     (if sn_len (pcfg e) = 12 then [u8_of (shl 1 7 OR (shr count 8 AND 0x0F)), u8_of (count AND 0xFF)]
      else [u8_of (shl 1 7 OR (count AND 0x7F))])"

definition drb_pdu :: "crypto_lib \<Rightarrow> pdcp_entity_lte \<Rightarrow> u32 \<Rightarrow> u8 list \<Rightarrow> u8 list" where
  "drb_pdu L e count sdu =
     drb_header e count @ (if do_encryption e then eea_of L e (tx_direction (pcfg e)) count sdu else sdu)"

lemma lte_write_sdu_drb:
  assumes "crypto_lib_ok L" "keys_ok e" "drb_config e" "0 < length (bytes sdu)" "length (bytes sdu) \<le> PDCP_MAX_SDU_SIZE"
  shows "\<exists>pdu. lte_write_sdu L e sdu = Some (e\<lparr>tx_count := tx_count e + 1\<rparr>, pdu) \<and>
    bytes pdu = drb_pdu L e (tx_count e) (bytes sdu)"
proof -
  let ?c = "tx_count e" and ?d = "tx_direction (pcfg e)" and ?h = "drb_header e (tx_count e)"
  let ?n = "hdr_len_bytes (pcfg e)"
  have len: "length (bytes sdu) \<le> 9000" using assms(5) by (simp add: PDCP_MAX_SDU_SIZE_def)
  have drb: "is_drb e" "\<not> is_srb e" using assms(3) by (auto simp: drb_config_def is_srb_def is_drb_def)
  have hl: "unat ?n = length ?h" "unat (u32_of ?n) = length ?h" "length ?h \<le> 2"
    using assms(3) by (auto simp: drb_config_def drb_header_def)
  define b where "b = (if sn_len (pcfg e) = 12 then pdcp_pack_data_pdu_long_sn ?c sdu else pdcp_pack_data_pdu_short_sn ?c sdu)"
  have b: "bytes b = ?h @ bytes sdu"
    using len by (simp add: b_def drb_header_def bytes_pack_long bytes_pack_short)
  then have N: "unat (N_bytes b) = length ?h + length (bytes sdu)"
    using N_bytes_of_bytes [of b] by (simp del: length_bytes)
  have n: "unat (N_bytes b - u32_of ?n) = length (bytes sdu)"
    using N hl by (subst unat_sub) (simp_all add: word_le_nat_alt)
  have "\<exists>b'. (if do_encryption e then in_place (cipher_encrypt L e) b (uint ?n) (N_bytes b - u32_of ?n) ?c else Some b) = Some b' \<and>
      bytes b' = drb_pdu L e ?c (bytes sdu)"
  proof (cases "do_encryption e")
    case True
    have "\<exists>b'. in_place (cipher_call L e ?d) b (int (unat ?n)) (N_bytes b - u32_of ?n) ?c = Some b' \<and>
        bytes b' = take (unat ?n) (bytes b) @ eea_of L e ?d ?c (drop (unat ?n) (bytes b))"
      by (rule in_place_eea [OF assms(1,2)]) (use N n hl(1) assms(4,5) in simp_all)
    moreover have "int (unat ?n) = uint ?n" by simp
    ultimately have "\<exists>b'. in_place (cipher_call L e ?d) b (uint ?n) (N_bytes b - u32_of ?n) ?c = Some b' \<and>
        bytes b' = drb_pdu L e ?c (bytes sdu)"
      using True b hl(1) by (simp only: drb_pdu_def if_True) simp
    with True show ?thesis by (simp only: cipher_calls if_True)
  qed (use b in \<open>simp add: drb_pdu_def\<close>)
  with drb show ?thesis
    by (auto simp: lte_write_sdu_def Let_def b_def [symmetric])
qed

text \<open>The COUNT a receiver waits for, and the state in which it does.\<close>

definition rx_expected :: "pdcp_entity_lte \<Rightarrow> nat" where
  "rx_expected r = unat (rx_hfn r) * 2 ^ unat (sn_len (pcfg r)) + unat (next_pdcp_rx_sn r)"

definition rx_ok :: "pdcp_entity_lte \<Rightarrow> bool" where
  "rx_ok r \<longleftrightarrow> unat (next_pdcp_rx_sn r) < 2 ^ unat (sn_len (pcfg r))"

lemma drb_sn:
  assumes "drb_config e"
  shows "sn_len (pcfg e) = 12 \<Longrightarrow> unat (sn_len (pcfg e)) = 12" "sn_len (pcfg e) \<noteq> 12 \<Longrightarrow> unat (sn_len (pcfg e)) = 7"
    "unat (maximum_pdcp_sn e) = 2 ^ unat (sn_len (pcfg e)) - 1" "unat (sn_len (pcfg e)) \<le> 12"
  using assms by (auto simp: drb_config_def)

text \<open>Unpacking a data PDU gives the sequence number of its COUNT and its payload.\<close>

definition um_unpack :: "pdcp_entity_lte \<Rightarrow> byte_buffer \<Rightarrow> u32 \<times> byte_buffer" where
  "um_unpack r pdu = (if sn_len (pcfg r) = 12 then pdcp_unpack_data_pdu_long_sn pdu else pdcp_unpack_data_pdu_short_sn pdu)"

lemma um_unpack_drb:
  assumes "sn_len (pcfg r) = sn_len (pcfg e)" "drb_config e" "bytes pdu = drb_header e c @ body"
  shows "fst (um_unpack r pdu) = take_bit (unat (sn_len (pcfg e))) c" "bytes (snd (um_unpack r pdu)) = body"
proof -
  have "sn_len (pcfg e) = 12 \<or> sn_len (pcfg e) \<noteq> 12" by simp
  then show "fst (um_unpack r pdu) = take_bit (unat (sn_len (pcfg e))) c"
    using assms(1,3) drb_sn(1,2) [OF assms(2)] unpack_long(1) [of pdu] unpack_short(1) [of pdu]
    by (auto simp del: length_bytes simp add: um_unpack_def drb_header_def) 
      (simp_all only: long_sn_header [simplified] short_sn_header [simplified])
  show "bytes (snd (um_unpack r pdu)) = body"
    using assms(1,3) unpack_long(2) [of pdu] unpack_short(2) [of pdu]
    by (auto simp del: length_bytes simp add: um_unpack_def drb_header_def)
qed

text \<open>
  The unwrapped COUNT: with the expected COUNT at most \<open>2 ^ k - 1\<close> behind, the high part is the
  receiver's, or one more when the sequence number has wrapped.
\<close>

lemma unwrap_count:
  fixes c H N :: nat
  assumes "N < 2 ^ k" "H * 2 ^ k + N \<le> c" "c < H * 2 ^ k + N + 2 ^ k"
  shows "c div 2 ^ k = (if c mod 2 ^ k < N then H + 1 else H)"
proof -
  define q s where "q = c div 2 ^ k" and "s = c mod 2 ^ k"
  have c: "c = q * 2 ^ k + s" "s < 2 ^ k" by (simp_all only: q_def s_def div_mult_mod_eq) simp_all
  have "H * 2 ^ k < (q + 1) * 2 ^ k" using assms(2) c by (simp add: algebra_simps)
  then have "H < q + 1" by (metis mult_less_cancel2)
  moreover have "q * 2 ^ k < (H + 2) * 2 ^ k" using assms(1,3) c by (simp add: algebra_simps)
  then have "q < H + 2" by (metis mult_less_cancel2)
  ultimately have "q = H \<or> q = H + 1" by linarith
  then show ?thesis
    using assms c by (auto simp: q_def [symmetric] s_def [symmetric] algebra_simps)
qed

lemma shr_take_bit_ident: "shl (shr c k) k OR take_bit k c = c" for c :: u32
  by (rule bit_word_eqI) (auto simp: bit_simps)

lemma unat_take_bit_u32: "unat (take_bit k c) = unat c mod 2 ^ k" for c :: u32
  by (simp only: unsigned_take_bit_eq) (simp only: take_bit_eq_mod)

text \<open>A receiver that next expects the COUNT after \<open>c\<close>.\<close>

definition expecting_after :: "u32 \<Rightarrow> pdcp_entity_lte \<Rightarrow> pdcp_entity_lte" where
  "expecting_after c r =
     (let m = 2 ^ unat (sn_len (pcfg r))
      in r\<lparr>rx_hfn := of_nat ((unat c + 1) div m), next_pdcp_rx_sn := of_nat ((unat c + 1) mod m)\<rparr>)"

lemma Suc_div_mod_power:
  fixes c k :: nat
  shows "c mod 2 ^ k + 1 < 2 ^ k \<Longrightarrow> (c + 1) div 2 ^ k = c div 2 ^ k \<and> (c + 1) mod 2 ^ k = c mod 2 ^ k + 1"
    and "\<not> c mod 2 ^ k + 1 < 2 ^ k \<Longrightarrow> (c + 1) div 2 ^ k = c div 2 ^ k + 1 \<and> (c + 1) mod 2 ^ k = 0"
proof -
  have "c mod 2 ^ k < 2 ^ k" by simp
  then have "\<not> c mod 2 ^ k + 1 < 2 ^ k \<Longrightarrow> Suc (c mod 2 ^ k) = 2 ^ k" by linarith
  then show "c mod 2 ^ k + 1 < 2 ^ k \<Longrightarrow> (c + 1) div 2 ^ k = c div 2 ^ k \<and> (c + 1) mod 2 ^ k = c mod 2 ^ k + 1"
    and "\<not> c mod 2 ^ k + 1 < 2 ^ k \<Longrightarrow> (c + 1) div 2 ^ k = c div 2 ^ k + 1 \<and> (c + 1) mod 2 ^ k = 0"
    by (auto simp: div_Suc mod_Suc)
qed

text \<open>The update of \<open>next_pdcp_rx_sn\<close> and \<open>rx_hfn\<close> after the PDU with COUNT \<open>c\<close>.\<close>

lemma advance_after:
  assumes "unat (sn_len (pcfg r)) = k" "k \<le> 12" "unat (maximum_pdcp_sn r) = 2 ^ k - 1"
    and "rx_hfn r = shr c k" "unat c + 1 < 2 ^ 32"
  shows "advance_rx_sn (take_bit k c) r = expecting_after c r"
proof -
  let ?s = "take_bit k c"
  have "(2 :: nat) ^ k \<le> 2 ^ 12" using assms(2) by (rule power_increasing) simp
  then have p: "(2 :: nat) ^ k \<le> 4096" by simp
  have s: "unat ?s = unat c mod 2 ^ k" by (rule unat_take_bit_u32)
  have sk: "unat c mod 2 ^ k < 2 ^ k" by simp
  have "unat c mod 2 ^ k + 1 < 4294967296" using p sk by linarith
  then have s1: "unat (?s + 1) = unat c mod 2 ^ k + 1" using s by (simp add: unat_word_ariths)
  have h: "unat (shr c k) = unat c div 2 ^ k" by (rule unat_shr)
  have dl: "unat c div 2 ^ k + 1 < 2 ^ 32 \<or> k = 0"
  proof (cases k)
    case (Suc j)
    have "unat c div 2 ^ k \<le> unat c div 2" by (rule div_le_mono2) (simp_all add: Suc)
    then show ?thesis using assms(5) by linarith
  qed simp
  have gt: "maximum_pdcp_sn r < ?s + 1 \<longleftrightarrow> \<not> unat c mod 2 ^ k + 1 < 2 ^ k"
    using sk by (simp only: word_less_nat_alt assms(3) s1) linarith
  have w: "?s + 1 = of_nat (unat c mod 2 ^ k + 1)" by (simp only: s1 [symmetric]) simp
  have v: "shr c k = of_nat (unat c div 2 ^ k)" by (simp only: h [symmetric]) simp
  show ?thesis
  proof (cases "unat c mod 2 ^ k + 1 < 2 ^ k")
    case True
    then have "advance_rx_sn ?s r = r\<lparr>next_pdcp_rx_sn := ?s + 1\<rparr>"
      using gt by (simp add: advance_rx_sn_def Let_def)
    also have "\<dots> = expecting_after c r"
      unfolding w expecting_after_def Let_def assms(1) using Suc_div_mod_power(1) [OF True] v assms(4) by simp
    finally show ?thesis .
  next
    case False
    then have "advance_rx_sn ?s r = r\<lparr>next_pdcp_rx_sn := 0, rx_hfn := rx_hfn r + 1\<rparr>"
      using gt by (simp add: advance_rx_sn_def Let_def)
    also have "\<dots> = expecting_after c r"
      unfolding expecting_after_def Let_def assms(1) using Suc_div_mod_power(2) [OF False] v assms(4) by simp
    finally show ?thesis .
  qed
qed

lemma expecting_after_ok:
  assumes "drb_config r" "unat c + 1 < 2 ^ 32"
  shows "rx_ok (expecting_after c r)" "rx_expected (expecting_after c r) = unat c + 1"
proof -
  let ?k = "unat (sn_len (pcfg r))"
  have "(2 :: nat) ^ ?k \<le> 2 ^ 12" using drb_sn(4) [OF assms(1)] by (rule power_increasing) simp
  moreover have "(unat c + 1) mod 2 ^ ?k < 2 ^ ?k" by simp
  ultimately have "(unat c + 1) mod 2 ^ ?k < 2 ^ 12" by (rule less_le_trans [rotated])
  then have m: "(unat c + 1) mod 2 ^ ?k < 2 ^ 32" by (rule less_trans) simp
  have d: "(unat c + 1) div 2 ^ ?k < 2 ^ 32" using assms(2) by (rule le_less_trans [OF div_le_dividend])
  have n: "unat (next_pdcp_rx_sn (expecting_after c r)) = (unat c + 1) mod 2 ^ ?k"
    "unat (rx_hfn (expecting_after c r)) = (unat c + 1) div 2 ^ ?k"
    using unat_of_nat_u32 [OF m] unat_of_nat_u32 [OF d] by (simp_all add: expecting_after_def Let_def)
  have p: "pcfg (expecting_after c r) = pcfg r" by (simp add: expecting_after_def Let_def)
  show "rx_ok (expecting_after c r)" by (simp add: rx_ok_def n p)
  show "rx_expected (expecting_after c r) = unat c + 1" unfolding rx_expected_def n p by (rule div_mult_mod_eq)
qed

lemma lte_write_pdu_um:
  assumes "crypto_lib_ok L" "keys_ok r" "drb_config e" "drb_config r" "pdcp_peers e r" "rx_ok r"
    and pdu: "bytes pdu = drb_pdu L e c sdu" "0 < length sdu" "length sdu \<le> PDCP_MAX_SDU_SIZE"
    and c: "rx_expected r \<le> unat c" "unat c < rx_expected r + 2 ^ unat (sn_len (pcfg r))" "unat c + 1 < 2 ^ 32"
  shows "\<exists>b. lte_write_pdu L True r pdu = Some ((expecting_after c r)\<lparr>rx_count := rx_count r + 1\<rparr>, Some (To_GW (lcid r) b)) \<and>
    bytes b = sdu"
proof -
  let ?k = "unat (sn_len (pcfg r))" and ?d = "rx_direction (pcfg r)"
  define body where "body = (if do_encryption r then eea_of L r ?d c sdu else sdu)"
  have pe: "sn_len (pcfg r) = sn_len (pcfg e)" "tx_direction (pcfg e) = ?d" "do_encryption e = do_encryption r"
    using assms(5) by (simp_all add: pdcp_peers_def)
  have b: "bytes pdu = drb_header e c @ body"
    using pdu(1) pe pdcp_peers_security(1) [OF assms(5)] by (simp add: drb_pdu_def body_def)
  have bl: "length body = length sdu" using assms(1) by (simp add: body_def)
  define p where "p = snd (um_unpack r pdu)"
  have up: "um_unpack r pdu = (take_bit ?k c, p)" "bytes p = body"
    using um_unpack_drb [OF pe(1) assms(3) b] by (simp_all add: p_def pe prod_eq_iff)
  have Np: "unat (N_bytes p) = length sdu" using up(2) bl N_bytes_of_bytes [of p] by (simp del: length_bytes)
  have s: "take_bit ?k c < next_pdcp_rx_sn r \<longleftrightarrow> unat c mod 2 ^ ?k < unat (next_pdcp_rx_sn r)"
    by (simp only: word_less_nat_alt unat_take_bit_u32)
  have k: "?k \<le> 12" "unat (maximum_pdcp_sn r) = 2 ^ ?k - 1" using drb_sn [OF assms(4)] by simp_all
  have h: "unat c div 2 ^ ?k = (if unat c mod 2 ^ ?k < unat (next_pdcp_rx_sn r) then unat (rx_hfn r) + 1 else unat (rx_hfn r))"
    using assms(6) c(1,2) by (intro unwrap_count) (simp_all add: rx_ok_def rx_expected_def)
  define r1 where "r1 = (if take_bit ?k c < next_pdcp_rx_sn r then r\<lparr>rx_hfn := rx_hfn r + 1\<rparr> else r)"
  have hfn: "rx_hfn r1 = shr c ?k"
  proof (rule word_unat_eq_iff [THEN iffD2])
    have "unat c div 2 ^ ?k < 2 ^ 32" using c(3) by (intro le_less_trans [OF div_le_dividend]) simp
    with h have "unat (rx_hfn r) + 1 < 2 ^ 32 \<or> \<not> unat c mod 2 ^ ?k < unat (next_pdcp_rx_sn r)" by (auto split: if_splits)
    with h s show "unat (rx_hfn r1) = unat (shr c ?k)"
      by (auto simp: r1_def unat_shr unat_word_ariths)
  qed
  have same: "pcfg r1 = pcfg r" "do_encryption r1 = do_encryption r" "keys_ok r1" "cipher_decrypt L r1 = cipher_decrypt L r"
    "maximum_pdcp_sn r1 = maximum_pdcp_sn r" "lcid r1 = lcid r" "rx_count r1 = rx_count r" "is_srb r1 = is_srb r"
    using assms(2) cipher_call_cong [of r1 r L]
    by (simp_all add: r1_def keys_ok_def cipher_calls k_enc_def is_srb_def)
  have dec: "\<exists>b. (if do_encryption r then in_place (cipher_decrypt L r) p 0 (N_bytes p) c else Some p) = Some b \<and> bytes b = sdu"
  proof (cases "do_encryption r")
    case True
    have "\<exists>b. in_place (cipher_call L r ?d) p (int 0) (N_bytes p) c = Some b \<and>
        bytes b = take 0 (bytes p) @ eea_of L r ?d c (drop 0 (bytes p))"
      by (rule in_place_eea [OF assms(1,2)]) (use Np pdu(2,3) in simp_all)
    with True up(2) assms(1) show ?thesis by (simp add: cipher_calls body_def)
  qed (use up(2) in \<open>simp add: body_def\<close>)
  have adv: "advance_rx_sn (take_bit ?k c) r1 = expecting_after c r1"
    by (rule advance_after) (use same k hfn c(3) in simp_all)
  have ex: "expecting_after c r1 = expecting_after c r" by (simp add: expecting_after_def Let_def r1_def)
  have "handle_um_drb_pdu L r pdu = map_option (\<lambda>b. (expecting_after c r, b))
      (if do_encryption r then in_place (cipher_decrypt L r) p 0 (N_bytes p) c else Some p)"
    using adv up(1) same hfn
    by (cases "do_encryption r") (simp_all add: handle_um_drb_pdu_def um_unpack_def [symmetric] Let_def r1_def [symmetric]
        shr_take_bit_ident ex map_conv_bind_option o_def)
  moreover have "\<not> N_bytes pdu \<le> u32_of (hdr_len_bytes (pcfg r))" "is_drb r" "lcid (expecting_after c r) = lcid r"
    "rx_count (expecting_after c r) = rx_count r"
  proof -
    have "length (bytes pdu) = unat (hdr_len_bytes (pcfg r)) + length sdu"
      using b bl assms(3,5) by (auto simp: drb_header_def drb_config_def pdcp_peers_def simp del: length_bytes)
    then show "\<not> N_bytes pdu \<le> u32_of (hdr_len_bytes (pcfg r))"
      using pdu(2) assms(4) by (auto simp: word_le_nat_alt drb_config_def)
    show "is_drb r" using assms(4) by (simp add: drb_config_def)
  qed (simp_all add: expecting_after_def Let_def)
  ultimately show ?thesis
    using dec by (auto simp: lte_write_pdu_def)
qed

text \<open>The AM handler, as long as the COUNT is less than a window ahead of the expected one.\<close>

lemma sint_diff_small:
  fixes x y :: u32
  assumes "unat x < 2 ^ 31" "unat y < 2 ^ 31"
  shows "sint (x - y) = int (unat x) - int (unat y)"
proof -
  have e: "x - y = word_of_int (int (unat x) - int (unat y))" by simp
  have "signed_take_bit 31 (int (unat x) - int (unat y)) = int (unat x) - int (unat y)"
  proof (rule signed_take_bit_int_eq_self)
    have "unat x < 2147483648" "unat y < 2147483648" using assms by simp_all
    then have "- 2147483648 \<le> int (unat x) - int (unat y)" "int (unat x) - int (unat y) < 2147483648" by linarith+
    then show "- (2 ^ 31) \<le> int (unat x) - int (unat y)" "int (unat x) - int (unat y) < 2 ^ 31" by simp_all
  qed
  then show ?thesis unfolding e sint_sbintrunc' by simp
qed

definition am_ok :: "pdcp_entity_lte \<Rightarrow> bool" where
  "am_ok r \<longleftrightarrow> rx_ok r \<and> drb_config r \<and> sn_len (pcfg r) = 12 \<and> reordering_window r = 2048 \<and>
     unat (last_submitted_pdcp_rx_sn r) = (if next_pdcp_rx_sn r = 0 then 4095 else unat (next_pdcp_rx_sn r) - 1)"

lemma am_branch_in_window:
  assumes "am_ok r" "rx_expected r \<le> unat c" "unat c < rx_expected r + 2048" "unat c + 1 < 2 ^ 32"
  shows "am_branch r (take_bit 12 c) = (c, False, expecting_after c r)"
proof -
  let ?s = "take_bit 12 c"
  define s where "s = unat c mod 4096"
  define N where "N = unat (next_pdcp_rx_sn r)"
  define H where "H = unat (rx_hfn r)"
  define l where "l = unat (last_submitted_pdcp_rx_sn r)"
  have k: "unat (sn_len (pcfg r)) = 12" "unat (maximum_pdcp_sn r) = 2 ^ 12 - 1"
    using assms(1) drb_sn [of r] by (simp_all add: am_ok_def)
  have us: "unat ?s = s" using unat_take_bit_u32 [of 12 c] by (simp add: s_def)
  have N: "N < 4096" using assms(1) k by (simp add: am_ok_def rx_ok_def N_def)
  have s: "s < 4096" by (simp add: s_def)
  have l: "l = (if N = 0 then 4095 else N - 1)"
    using assms(1) by (simp add: am_ok_def l_def N_def unat_eq_0)
  have E: "rx_expected r = H * 4096 + N" by (simp add: rx_expected_def k H_def N_def)
  have q: "unat c div 4096 = (if s < N then H + 1 else H)"
    using unwrap_count [of N 12 H "unat c"] assms(2,3) N E by (simp add: s_def)
  have cs: "unat c = (unat c div 4096) * 4096 + s" by (simp add: s_def)
  have g: "s < N \<Longrightarrow> N < s + 4096 \<and> 2048 < s + 4096 - N + 4096 \<and> s + 4096 < N + 2048" "\<not> s < N \<Longrightarrow> s < N + 2048"
    using assms(2,3) E cs q N s by (auto split: if_splits)
  have w: "sint (reordering_window r) = 2048" using assms(1) by (simp add: am_ok_def)
  have d: "sint (last_submitted_pdcp_rx_sn r - ?s) = int l - int s" "sint (?s - last_submitted_pdcp_rx_sn r) = int s - int l"
    "sint (?s - next_pdcp_rx_sn r) = int s - int N" "sint (next_pdcp_rx_sn r - ?s) = int N - int s"
    using N s l by (simp_all add: sint_diff_small us N_def [symmetric] l_def [symmetric] split: if_splits)
  have ge: "next_pdcp_rx_sn r \<le> ?s \<longleftrightarrow> \<not> s < N" by (simp add: word_le_nat_alt us N_def [symmetric] not_less)
  have sh: "unat (shr c 12) = unat c div 4096" using unat_shr [of 12 c] by simp
  show ?thesis
  proof (cases "s < N")
    case False
    have c1: "\<not> ((0 \<le> int s - int l \<and> int s - int l > 2048) \<or> (0 \<le> int l - int s \<and> int l - int s < 2048))"
      "\<not> int N - int s > 2048" "\<not> int s - int N \<ge> 2048"
      using False g(2) l N s by (cases "N = 0"; simp; linarith)+
    have "rx_hfn r = shr c 12"
      by (rule word_unat_eq_iff [THEN iffD2]) (use False q sh in \<open>simp add: H_def\<close>)
    moreover from this have "advance_rx_sn ?s r = expecting_after c r"
      using k assms(4) by (intro advance_after) simp_all
    ultimately show ?thesis
      unfolding am_branch_def Let_def d w k(1) ge
      using False c1 by (simp only: if_False if_True simp_thms shr_take_bit_ident)
  next
    case True
    have qb: "unat c div 4096 < 2 ^ 32" by (intro le_less_trans [OF div_le_dividend]) (use assms(4) in simp)
    have h1: "rx_hfn r + 1 = shr c 12"
      by (rule word_unat_eq_iff [THEN iffD2]) (use True q sh qb in \<open>simp add: H_def unat_word_ariths\<close>)
    have s1: "s + 1 < 4096" using True N by linarith
    have ds: "(unat c + 1) div 4096 = unat c div 4096" "(unat c + 1) mod 4096 = s + 1"
      using Suc_div_mod_power(1) [of "unat c" 12] s1 by (simp_all add: s_def)
    have "?s + 1 = of_nat (s + 1)" by (simp only: us [symmetric]) simp
    moreover have "shr c 12 = of_nat (unat c div 4096)" by (simp only: sh [symmetric]) simp
    ultimately have "r\<lparr>rx_hfn := rx_hfn r + 1, next_pdcp_rx_sn := ?s + 1\<rparr> = expecting_after c r"
      using ds by (simp only: expecting_after_def Let_def k h1) simp
    moreover have c1: "\<not> ((0 \<le> int s - int l \<and> int s - int l > 2048) \<or> (0 \<le> int l - int s \<and> int l - int s < 2048))"
      "int N - int s > 2048"
      using True g(1) l N s by (cases "N = 0"; simp; linarith)+
    ultimately show ?thesis
      unfolding am_branch_def Let_def d w k(1) ge
      using True h1 by (simp add: shr_take_bit_ident)
  qed
qed

lemma expecting_after_am:
  assumes "am_ok r" "unat c + 1 < 2 ^ 32"
  shows "am_ok ((expecting_after c r)\<lparr>last_submitted_pdcp_rx_sn := take_bit 12 c, rx_count := x\<rparr>)"
proof -
  have d: "drb_config r" "sn_len (pcfg r) = 12" "reordering_window r = 2048" using assms(1) by (simp_all add: am_ok_def)
  have l: "unat (take_bit 12 c) = unat c mod 4096" using unat_take_bit_u32 [of 12 c] by simp
  have "(unat c + 1) mod 4096 < 2 ^ 32" by (rule less_trans [of _ 4096]) simp_all
  then have n: "unat (next_pdcp_rx_sn (expecting_after c r)) = (unat c + 1) mod 4096"
    using d(2) by (simp add: expecting_after_def Let_def unat_of_nat)
  have "unat c mod 4096 = (if (unat c + 1) mod 4096 = 0 then 4095 else (unat c + 1) mod 4096 - 1)"
    by (simp add: mod_Suc)
  then have "unat (take_bit 12 c) = (if next_pdcp_rx_sn (expecting_after c r) = 0 then 4095
      else unat (next_pdcp_rx_sn (expecting_after c r)) - 1)"
    unfolding l n [symmetric] by (simp add: unat_eq_0)
  with d expecting_after_ok(1) [OF d(1) assms(2)] show ?thesis
    by (simp add: am_ok_def rx_ok_def drb_config_def expecting_after_def Let_def is_drb_def)
qed

lemma lte_write_pdu_am:
  assumes "crypto_lib_ok L" "keys_ok r" "drb_config e" "pdcp_peers e r" "am_ok r"
    and pdu: "bytes pdu = drb_pdu L e c sdu" "0 < length sdu" "length sdu \<le> PDCP_MAX_SDU_SIZE"
    and c: "rx_expected r \<le> unat c" "unat c < rx_expected r + 2048" "unat c + 1 < 2 ^ 32"
  shows "\<exists>b. lte_write_pdu L False r pdu =
      Some ((expecting_after c r)\<lparr>last_submitted_pdcp_rx_sn := take_bit 12 c, rx_count := rx_count r + 1\<rparr>,
            Some (To_GW (lcid r) b)) \<and>
    bytes b = (if do_encryption r then sdu else eea_of L r (rx_direction (pcfg r)) c sdu)"
proof -
  let ?d = "rx_direction (pcfg r)"
  have dr: "drb_config r" "sn_len (pcfg r) = 12" using assms(5) by (simp_all add: am_ok_def)
  define body where "body = (if do_encryption r then eea_of L r ?d c sdu else sdu)"
  have pe: "sn_len (pcfg r) = sn_len (pcfg e)" "tx_direction (pcfg e) = ?d" "do_encryption e = do_encryption r"
    using assms(4) by (simp_all add: pdcp_peers_def)
  have b: "bytes pdu = drb_header e c @ body"
    using pdu(1) pe pdcp_peers_security(1) [OF assms(4)] by (simp add: drb_pdu_def body_def)
  have bl: "length body = length sdu" using assms(1) by (simp add: body_def)
  define p where "p = snd (pdcp_unpack_data_pdu_long_sn pdu)"
  have up: "pdcp_unpack_data_pdu_long_sn pdu = (take_bit 12 c, p)" "bytes p = body"
    using um_unpack_drb [OF pe(1) assms(3) b] dr(2) pe(1) by (simp_all add: p_def prod_eq_iff um_unpack_def)
  have Np: "unat (N_bytes p) = length sdu" using up(2) bl N_bytes_of_bytes [of p] by (simp del: length_bytes)
  define r1 where "r1 = expecting_after c r"
  have br: "am_branch r (take_bit 12 c) = (c, False, r1)"
    unfolding r1_def by (rule am_branch_in_window [OF assms(5) c])
  have same: "lcid r1 = lcid r" "rx_count r1 = rx_count r" "cipher_decrypt L r1 = cipher_decrypt L r"
    using cipher_call_cong [of r1 r L]
    by (simp_all add: r1_def expecting_after_def Let_def cipher_calls k_enc_def is_srb_def)
  have "\<exists>b. in_place (cipher_call L r ?d) p (int 0) (N_bytes p) c = Some b \<and>
      bytes b = take 0 (bytes p) @ eea_of L r ?d c (drop 0 (bytes p))"
    by (rule in_place_eea [OF assms(1,2)]) (use Np pdu(2,3) in simp_all)
  then obtain b2 where b2: "in_place (cipher_decrypt L r) p 0 (N_bytes p) c = Some b2" "bytes b2 = eea_of L r ?d c body"
    using up(2) by (auto simp: cipher_calls)
  have "handle_am_drb_pdu L r pdu = Some (r1\<lparr>last_submitted_pdcp_rx_sn := take_bit 12 c\<rparr>, b2)"
    using up(1) br same(3) b2(1) by (simp add: handle_am_drb_pdu_def)
  moreover have "\<not> N_bytes pdu \<le> u32_of (hdr_len_bytes (pcfg r))"
  proof -
    have "length (bytes pdu) = unat (hdr_len_bytes (pcfg r)) + length sdu"
      using b bl assms(3,4) by (auto simp: drb_header_def drb_config_def pdcp_peers_def simp del: length_bytes)
    then show ?thesis
      using pdu(2) dr by (auto simp: word_le_nat_alt drb_config_def)
  qed
  moreover have "is_drb r" using dr by (simp add: drb_config_def)
  ultimately show ?thesis
    using b2(2) same assms(1) by (auto simp: lte_write_pdu_def r1_def body_def)
qed

text \<open>A PDU whose sequence number was the last one submitted is marked as discarded, and decrypted.\<close>

lemma am_branch_duplicate:
  assumes "am_ok r" "unat c + 1 = rx_expected r" "(unat c + 1) mod 4096 \<noteq> 0"
  shows "am_branch r (take_bit 12 c) = (c, True, r)"
proof -
  let ?s = "take_bit 12 c"
  have k: "unat (sn_len (pcfg r)) = 12" using assms(1) drb_sn [of r] by (simp add: am_ok_def)
  have N: "unat (next_pdcp_rx_sn r) < 4096" using assms(1) k by (simp add: am_ok_def rx_ok_def)
  have E: "unat c + 1 = unat (rx_hfn r) * 4096 + unat (next_pdcp_rx_sn r)" using assms(2) by (simp add: rx_expected_def k)
  have n0: "unat (next_pdcp_rx_sn r) \<noteq> 0" using assms(3) E N by auto
  have us: "unat ?s = unat c mod 4096" using unat_take_bit_u32 [of 12 c] by simp
  have c: "unat c = unat (rx_hfn r) * 4096 + (unat (next_pdcp_rx_sn r) - 1)" using E n0 by linarith
  have s: "unat ?s = unat (next_pdcp_rx_sn r) - 1" unfolding us c using N by simp
  have l: "last_submitted_pdcp_rx_sn r = ?s"
    by (rule word_unat_eq_iff [THEN iffD2]) (use assms(1) n0 s in \<open>auto simp: am_ok_def\<close>)
  have ng: "\<not> ?s > next_pdcp_rx_sn r" using s by (simp add: word_less_nat_alt)
  have "unat c div 4096 = unat (rx_hfn r)" unfolding c using N by simp
  then have h: "rx_hfn r = shr c 12" using unat_shr [of 12 c] by (intro word_unat_eq_iff [THEN iffD2]) simp
  have w: "sint (reordering_window r) = 2048" using assms(1) by (simp add: am_ok_def)
  show ?thesis
    unfolding am_branch_def Let_def w k l using ng by (simp add: h shr_take_bit_ident)
qed

section \<open>Properties\<close>

text \<open>A configured entity for the witnesses: bearer 1, the given kind and SN length.\<close>

definition sample_entity :: "pdcp_rb_type_t \<Rightarrow> u8 \<Rightarrow> security_direction_t \<Rightarrow> security_direction_t \<Rightarrow> pdcp_entity_lte" where
  "sample_entity rb sl txd rxd =
     enable_integrity (enable_encryption
       (config_security (replicate 32 1) (replicate 32 2) (replicate 32 3) None
          CIPHERING_ALGORITHM_ID_128_EEA2 INTEGRITY_ALGORITHM_ID_128_EIA2
          (lte_init 1 (pdcp_config 1 rb txd rxd sl tr_ms0 td_infinity) new_pdcp_entity_lte)))"

abbreviation sample_tx :: "pdcp_rb_type_t \<Rightarrow> u8 \<Rightarrow> pdcp_entity_lte" where
  "sample_tx rb sl \<equiv> sample_entity rb sl SECURITY_DIRECTION_DOWNLINK SECURITY_DIRECTION_UPLINK"

abbreviation sample_rx :: "pdcp_rb_type_t \<Rightarrow> u8 \<Rightarrow> pdcp_entity_lte" where
  "sample_rx rb sl \<equiv> sample_entity rb sl SECURITY_DIRECTION_UPLINK SECURITY_DIRECTION_DOWNLINK"

lemmas sample_entity_defs =
  sample_entity_def enable_integrity_def enable_encryption_def config_security_def lte_init_def pdcp_config_def
  new_pdcp_entity_lte_def pdcp_entity_base_init_def pdcp_entity_base.defs copy_n_def Let_def is_srb_def is_drb_def

lemma sample_entity_ok [simp]:
  "keys_ok (sample_entity rb sl txd rxd)" "is_srb (sample_entity rb sl txd rxd) = (rb = PDCP_RB_IS_SRB)"
  "tx_count (sample_entity rb sl txd rxd) = 0" "sn_len (pcfg (sample_entity rb sl txd rxd)) = sl"
  "hdr_len_bytes (pcfg (sample_entity rb sl txd rxd)) = of_nat ((unat sl + 7) div 8)"
  "pdcp_peers (sample_tx rb sl) (sample_rx rb sl)"
  by (simp_all add: sample_entity_defs keys_ok_def pdcp_peers_def k_enc_def k_int_def)

lemma sample_drb_ok [simp]:
  "drb_config (sample_entity PDCP_RB_IS_DRB 12 txd rxd)" "am_ok (sample_entity PDCP_RB_IS_DRB 12 txd rxd)"
  "rx_ok (sample_entity PDCP_RB_IS_DRB 12 txd rxd)" "rx_expected (sample_entity PDCP_RB_IS_DRB 12 txd rxd) = 0"
  "do_encryption (sample_entity rb sl txd rxd)"
  by (simp_all add: sample_entity_defs drb_config_def am_ok_def rx_ok_def rx_expected_def)

text \<open>C1. A signalling bearer delivers to RRC the SDU its peer sent, for each of the first 32
  COUNT values, with any combination of ciphering and integrity protection: \<open>write_sdu\<close> of the
  sender followed by \<open>write_pdu\<close> of the receiver gives back the bytes, and the MAC is accepted.\<close>

theorem srb_roundtrip:
  assumes "crypto_lib_ok L" "keys_ok e" "keys_ok r" "pdcp_peers e r" "is_srb e" "hdr_len_bytes (pcfg e) = 1"
    and "unat (tx_count e) < 32" "length (bytes sdu) + 4 \<le> PDCP_MAX_SDU_SIZE"
  shows "\<exists>pdu b. lte_write_sdu L e sdu = Some (e\<lparr>tx_count := tx_count e + 1\<rparr>, pdu) \<and>
    lte_write_pdu L um r pdu = Some (r\<lparr>rx_count := rx_count r + 1\<rparr>, Some (To_RRC (lcid r) b)) \<and>
    bytes b = bytes sdu"
proof -
  obtain pdu where pdu: "lte_write_sdu L e sdu = Some (e\<lparr>tx_count := tx_count e + 1\<rparr>, pdu)"
    "bytes pdu = srb_pdu L e (tx_count e) (bytes sdu)"
    using lte_write_sdu_srb [OF assms(1,2,5,6,8)] by blast
  have r: "is_srb r" "hdr_len_bytes (pcfg r) = 1"
    using assms(4-6) by (simp_all add: pdcp_peers_def is_srb_def)
  have "length (bytes pdu) = length (bytes sdu) + 5"
    using assms(1,2,8) by (simp add: pdu(2) srb_pdu_def Let_def PDCP_MAX_SDU_SIZE_def)
  then have "5 \<le> length (bytes pdu)" "length (bytes pdu) \<le> PDCP_MAX_SDU_SIZE + 1" using assms(8) by simp_all
  from lte_write_pdu_srb [OF assms(1,3) r this, of um] srb_rx_srb_pdu [OF assms(1,2,4,7,8)] pdu(1)
  show ?thesis by (auto simp: pdu(2))
qed

lemma srb_roundtrip_witness:
  "\<exists>pdu b. lte_write_sdu sample_lib (sample_tx PDCP_RB_IS_SRB 5) (buffer_of [1, 2, 3]) =
      Some ((sample_tx PDCP_RB_IS_SRB 5)\<lparr>tx_count := tx_count (sample_tx PDCP_RB_IS_SRB 5) + 1\<rparr>, pdu) \<and>
    lte_write_pdu sample_lib False (sample_rx PDCP_RB_IS_SRB 5) pdu =
      Some ((sample_rx PDCP_RB_IS_SRB 5)\<lparr>rx_count := rx_count (sample_rx PDCP_RB_IS_SRB 5) + 1\<rparr>,
            Some (To_RRC (lcid (sample_rx PDCP_RB_IS_SRB 5)) b)) \<and>
    bytes b = bytes (buffer_of [1, 2, 3])"
  by (rule srb_roundtrip) (simp_all add: PDCP_MAX_SDU_SIZE_def)

text \<open>C2. A data bearer over RLC UM survives losses: whatever COUNT the sender has reached, as long
  as fewer than a full sequence-number range of PDUs was lost since the last one received, the
  receiver reconstructs the COUNT (with its HFN across the wrap of the SN), hands the sent bytes to
  GW and next expects the following COUNT.\<close>

theorem um_delivers:
  assumes "crypto_lib_ok L" "keys_ok e" "keys_ok r" "pdcp_peers e r" "drb_config e" "drb_config r" "rx_ok r"
    and "0 < length (bytes sdu)" "length (bytes sdu) \<le> PDCP_MAX_SDU_SIZE"
    and "rx_expected r \<le> unat (tx_count e)" "unat (tx_count e) < rx_expected r + 2 ^ unat (sn_len (pcfg r))"
    and "unat (tx_count e) + 1 < 2 ^ 32"
  shows "\<exists>pdu r' b. lte_write_sdu L e sdu = Some (e\<lparr>tx_count := tx_count e + 1\<rparr>, pdu) \<and>
    lte_write_pdu L True r pdu = Some (r', Some (To_GW (lcid r) b)) \<and> bytes b = bytes sdu \<and>
    rx_ok r' \<and> rx_expected r' = unat (tx_count e) + 1"
proof -
  obtain pdu where pdu: "lte_write_sdu L e sdu = Some (e\<lparr>tx_count := tx_count e + 1\<rparr>, pdu)"
    "bytes pdu = drb_pdu L e (tx_count e) (bytes sdu)"
    using lte_write_sdu_drb [OF assms(1,2,5,8,9)] by blast
  show ?thesis
    using pdu(1) lte_write_pdu_um [OF assms(1,3,5,6,4,7) pdu(2) assms(8-12)] expecting_after_ok [OF assms(6,12)]
    by (auto simp: rx_ok_def rx_expected_def)
qed

lemma um_delivers_witness:
  "\<exists>pdu r' b. lte_write_sdu sample_lib (sample_tx PDCP_RB_IS_DRB 12) (buffer_of [1, 2, 3]) =
      Some ((sample_tx PDCP_RB_IS_DRB 12)\<lparr>tx_count := tx_count (sample_tx PDCP_RB_IS_DRB 12) + 1\<rparr>, pdu) \<and>
    lte_write_pdu sample_lib True (sample_rx PDCP_RB_IS_DRB 12) pdu =
      Some (r', Some (To_GW (lcid (sample_rx PDCP_RB_IS_DRB 12)) b)) \<and>
    bytes b = bytes (buffer_of [1, 2, 3]) \<and> rx_ok r' \<and>
    rx_expected r' = unat (tx_count (sample_tx PDCP_RB_IS_DRB 12)) + 1"
  by (rule um_delivers) (simp_all add: PDCP_MAX_SDU_SIZE_def)

text \<open>C3. A data bearer over RLC AM delivers in the same way a PDU that is less than the reordering
  window of 2048 ahead of the expected COUNT, and keeps its state consistent, provided that
  ciphering is on or the algorithm is EEA0.\<close>

theorem am_delivers:
  assumes "crypto_lib_ok L" "keys_ok e" "keys_ok r" "pdcp_peers e r" "drb_config e" "am_ok r"
    and "do_encryption r \<or> cipher_algo r = CIPHERING_ALGORITHM_ID_EEA0"
    and "0 < length (bytes sdu)" "length (bytes sdu) \<le> PDCP_MAX_SDU_SIZE"
    and "rx_expected r \<le> unat (tx_count e)" "unat (tx_count e) < rx_expected r + 2048"
    and "unat (tx_count e) + 1 < 2 ^ 32"
  shows "\<exists>pdu r' b. lte_write_sdu L e sdu = Some (e\<lparr>tx_count := tx_count e + 1\<rparr>, pdu) \<and>
    lte_write_pdu L False r pdu = Some (r', Some (To_GW (lcid r) b)) \<and> bytes b = bytes sdu \<and>
    am_ok r' \<and> rx_expected r' = unat (tx_count e) + 1"
proof -
  obtain pdu where pdu: "lte_write_sdu L e sdu = Some (e\<lparr>tx_count := tx_count e + 1\<rparr>, pdu)"
    "bytes pdu = drb_pdu L e (tx_count e) (bytes sdu)"
    using lte_write_sdu_drb [OF assms(1,2,5,8,9)] by blast
  have d: "drb_config r" using assms(6) by (simp add: am_ok_def)
  show ?thesis
    using pdu(1) lte_write_pdu_am [OF assms(1,3,5,4,6) pdu(2) assms(8-12)] assms(7)
      expecting_after_ok [OF d assms(12)] expecting_after_am [OF assms(6,12)]
    by (auto simp: rx_expected_def eea_of_def)
qed

lemma am_delivers_witness:
  "\<exists>pdu r' b. lte_write_sdu sample_lib (sample_tx PDCP_RB_IS_DRB 12) (buffer_of [1, 2, 3]) =
      Some ((sample_tx PDCP_RB_IS_DRB 12)\<lparr>tx_count := tx_count (sample_tx PDCP_RB_IS_DRB 12) + 1\<rparr>, pdu) \<and>
    lte_write_pdu sample_lib False (sample_rx PDCP_RB_IS_DRB 12) pdu =
      Some (r', Some (To_GW (lcid (sample_rx PDCP_RB_IS_DRB 12)) b)) \<and>
    bytes b = bytes (buffer_of [1, 2, 3]) \<and> am_ok r' \<and>
    rx_expected r' = unat (tx_count (sample_tx PDCP_RB_IS_DRB 12)) + 1"
  by (rule am_delivers) (simp_all add: PDCP_MAX_SDU_SIZE_def)

text \<open>C31. With ciphering on and integrity off, the receiver of a signalling bearer uses the 5-bit SN as the COUNT, the sender the whole
  COUNT: what reaches RRC is the SDU encrypted with the sender's COUNT and decrypted with that COUNT
  modulo 32. From COUNT 32 on the two differ (the witness shows a corrupted SDU).\<close>

theorem srb_receiver_uses_sn:
  assumes "crypto_lib_ok L" "keys_ok e" "keys_ok r" "pdcp_peers e r" "is_srb e" "hdr_len_bytes (pcfg e) = 1"
    and "do_encryption e" "\<not> do_integrity e" "length (bytes sdu) + 4 \<le> PDCP_MAX_SDU_SIZE"
  shows "\<exists>pdu b. lte_write_sdu L e sdu = Some (e\<lparr>tx_count := tx_count e + 1\<rparr>, pdu) \<and>
    lte_write_pdu L um r pdu = Some (r\<lparr>rx_count := rx_count r + 1\<rparr>, Some (To_RRC (lcid r) b)) \<and>
    bytes b = take (length (bytes sdu))
      (eea_of L e (tx_direction (pcfg e)) (tx_count e AND 0x1F)
        (eea_of L e (tx_direction (pcfg e)) (tx_count e) (bytes sdu @ [0, 0, 0, 0])))"
proof -
  obtain pdu where pdu: "lte_write_sdu L e sdu = Some (e\<lparr>tx_count := tx_count e + 1\<rparr>, pdu)"
    "bytes pdu = srb_pdu L e (tx_count e) (bytes sdu)"
    using lte_write_sdu_srb [OF assms(1,2,5,6,9)] by blast
  have r: "is_srb r" "hdr_len_bytes (pcfg r) = 1" "do_encryption r" "\<not> do_integrity r"
    "rx_direction (pcfg r) = tx_direction (pcfg e)"
    using assms(4-8) by (simp_all add: pdcp_peers_def is_srb_def)
  have "length (bytes pdu) = length (bytes sdu) + 5"
    using assms(1,8) by (simp add: pdu(2) srb_pdu_def Let_def)
  then have l: "5 \<le> length (bytes pdu)" "length (bytes pdu) \<le> PDCP_MAX_SDU_SIZE + 1" using assms(9) by simp_all
  show ?thesis
    using lte_write_pdu_srb [OF assms(1,3) r(1,2) l, of um] pdu(1) r(3-5) assms(1,7,8) pdcp_peers_security(1) [OF assms(4)]
      control_sn_header [of "tx_count e"]
    by (simp add: pdu(2) srb_rx_def srb_pdu_def Let_def) blast
qed

definition sample_srb_32 :: "security_direction_t \<Rightarrow> security_direction_t \<Rightarrow> pdcp_entity_lte" where
  "sample_srb_32 txd rxd = (sample_entity PDCP_RB_IS_SRB 5 txd rxd)\<lparr>do_integrity := False, tx_count := 32\<rparr>"

abbreviation "srb_32_tx \<equiv> sample_srb_32 SECURITY_DIRECTION_DOWNLINK SECURITY_DIRECTION_UPLINK"
abbreviation "srb_32_rx \<equiv> sample_srb_32 SECURITY_DIRECTION_UPLINK SECURITY_DIRECTION_DOWNLINK"

lemma srb_receiver_uses_sn_witness:
  "\<exists>pdu b. lte_write_sdu sample_lib srb_32_tx (buffer_of [1, 2, 3]) =
      Some (srb_32_tx\<lparr>tx_count := tx_count srb_32_tx + 1\<rparr>, pdu) \<and>
    lte_write_pdu sample_lib False srb_32_rx pdu =
      Some (srb_32_rx\<lparr>rx_count := rx_count srb_32_rx + 1\<rparr>, Some (To_RRC (lcid srb_32_rx) b)) \<and>
    bytes b = [33, 34, 35]"
proof -
  have "take (length (bytes (buffer_of [1, 2, 3])))
      (eea_of sample_lib srb_32_tx (tx_direction (pcfg srb_32_tx)) (tx_count srb_32_tx AND 0x1F)
        (eea_of sample_lib srb_32_tx (tx_direction (pcfg srb_32_tx)) (tx_count srb_32_tx) (bytes (buffer_of [1, 2, 3]) @ [0, 0, 0, 0])))
    = [33, 34, 35]"
    by (simp add: sample_srb_32_def eea_of_def eea2_def sample_lib_def eea2_nonce_def sample_entity_defs)
  then show ?thesis
    using srb_receiver_uses_sn [of sample_lib srb_32_tx srb_32_rx "buffer_of [1, 2, 3]" False]
    by (simp add: sample_srb_32_def sample_entity_defs keys_ok_def pdcp_peers_def k_enc_def k_int_def PDCP_MAX_SDU_SIZE_def)
qed

text \<open>C32. The AM handler marks a repeated PDU as discarded but the caller hands it to GW all the same:
  the PDU with the COUNT received last is delivered a second time, with the same bytes.\<close>

theorem am_duplicate_delivered:
  assumes "crypto_lib_ok L" "keys_ok r" "drb_config e" "pdcp_peers e r" "am_ok r" "do_encryption r"
    and "bytes pdu = drb_pdu L e c sdu" "0 < length sdu" "length sdu \<le> PDCP_MAX_SDU_SIZE"
    and "unat c + 1 = rx_expected r" "(unat c + 1) mod 4096 \<noteq> 0"
  shows "\<exists>b. lte_write_pdu L False r pdu = Some (r\<lparr>rx_count := rx_count r + 1\<rparr>, Some (To_GW (lcid r) b)) \<and>
    bytes b = sdu"
proof -
  let ?d = "rx_direction (pcfg r)"
  have dr: "drb_config r" "sn_len (pcfg r) = 12" using assms(5) by (simp_all add: am_ok_def)
  have pe: "sn_len (pcfg r) = sn_len (pcfg e)" "tx_direction (pcfg e) = ?d" "do_encryption e = do_encryption r"
    using assms(4) by (simp_all add: pdcp_peers_def)
  have b: "bytes pdu = drb_header e c @ eea_of L r ?d c sdu"
    using assms(6,7) pe pdcp_peers_security(1) [OF assms(4)] by (simp add: drb_pdu_def)
  define p where "p = snd (pdcp_unpack_data_pdu_long_sn pdu)"
  have up: "pdcp_unpack_data_pdu_long_sn pdu = (take_bit 12 c, p)" "bytes p = eea_of L r ?d c sdu"
    using um_unpack_drb [OF pe(1) assms(3) b] dr(2) pe(1) by (simp_all add: p_def prod_eq_iff um_unpack_def)
  have Np: "unat (N_bytes p) = length sdu" using up(2) N_bytes_of_bytes [of p] assms(1) by (simp del: length_bytes)
  have "\<exists>b. in_place (cipher_call L r ?d) p (int 0) (N_bytes p) c = Some b \<and>
      bytes b = take 0 (bytes p) @ eea_of L r ?d c (drop 0 (bytes p))"
    by (rule in_place_eea [OF assms(1,2)]) (use Np assms(8,9) in simp_all)
  then obtain b2 where b2: "in_place (cipher_decrypt L r) p 0 (N_bytes p) c = Some b2" "bytes b2 = sdu"
    using up(2) assms(1) by (auto simp: cipher_calls)
  have "length (bytes pdu) = unat (hdr_len_bytes (pcfg r)) + length sdu"
    using b assms(1,3,4) by (auto simp: drb_header_def drb_config_def pdcp_peers_def simp del: length_bytes)
  then have "\<not> N_bytes pdu \<le> u32_of (hdr_len_bytes (pcfg r))"
    using assms(8) dr by (auto simp: word_le_nat_alt drb_config_def)
  with am_branch_duplicate [OF assms(5,10,11)] up b2 dr show ?thesis
    by (auto simp: lte_write_pdu_def handle_am_drb_pdu_def drb_config_def)
qed

definition sample_am_next :: "nat \<Rightarrow> pdcp_entity_lte" where
  "sample_am_next n = (sample_rx PDCP_RB_IS_DRB 12)\<lparr>next_pdcp_rx_sn := of_nat n, last_submitted_pdcp_rx_sn := of_nat n - 1\<rparr>"

lemma am_duplicate_delivered_witness:
  "\<exists>b. lte_write_pdu sample_lib False (sample_am_next 5)
      (buffer_of (drb_pdu sample_lib (sample_tx PDCP_RB_IS_DRB 12) 4 [1, 2, 3])) =
      Some ((sample_am_next 5)\<lparr>rx_count := rx_count (sample_am_next 5) + 1\<rparr>, Some (To_GW (lcid (sample_am_next 5)) b)) \<and>
    bytes b = [1, 2, 3]"
proof (rule am_duplicate_delivered)
  have "length (drb_pdu sample_lib (sample_tx PDCP_RB_IS_DRB 12) 4 [1, 2, 3]) < 2 ^ 32"
    by (simp add: drb_pdu_def drb_header_def)
  then show "bytes (buffer_of (drb_pdu sample_lib (sample_tx PDCP_RB_IS_DRB 12) 4 [1, 2, 3])) =
      drb_pdu sample_lib (sample_tx PDCP_RB_IS_DRB 12) 4 [1, 2, 3]" by simp
qed (simp_all add: sample_am_next_def sample_entity_defs keys_ok_def pdcp_peers_def k_enc_def k_int_def drb_config_def
    am_ok_def rx_ok_def rx_expected_def PDCP_MAX_SDU_SIZE_def)

text \<open>C33. The AM handler deciphers whether or not ciphering is enabled, \<open>write_sdu\<close> ciphers only when
  it is: a data bearer over RLC AM whose algorithm is configured and whose ciphering is not enabled
  hands the keystream-combined SDU to GW.\<close>

theorem am_deciphers_plaintext:
  assumes "crypto_lib_ok L" "keys_ok e" "keys_ok r" "pdcp_peers e r" "drb_config e" "am_ok r" "\<not> do_encryption r"
    and "0 < length (bytes sdu)" "length (bytes sdu) \<le> PDCP_MAX_SDU_SIZE" "unat (tx_count e) = rx_expected r"
    and "unat (tx_count e) + 1 < 2 ^ 32"
  shows "\<exists>pdu r' b. lte_write_sdu L e sdu = Some (e\<lparr>tx_count := tx_count e + 1\<rparr>, pdu) \<and>
    lte_write_pdu L False r pdu = Some (r', Some (To_GW (lcid r) b)) \<and>
    bytes b = eea_of L r (rx_direction (pcfg r)) (tx_count e) (bytes sdu)"
proof -
  obtain pdu where pdu: "lte_write_sdu L e sdu = Some (e\<lparr>tx_count := tx_count e + 1\<rparr>, pdu)"
    "bytes pdu = drb_pdu L e (tx_count e) (bytes sdu)"
    using lte_write_sdu_drb [OF assms(1,2,5,8,9)] by blast
  have c: "rx_expected r \<le> unat (tx_count e)" "unat (tx_count e) < rx_expected r + 2048" using assms(10) by simp_all
  show ?thesis
    using pdu(1) lte_write_pdu_am [OF assms(1,3,5,4,6) pdu(2) assms(8,9) c assms(11)] assms(7) by auto
qed

abbreviation "plain_tx \<equiv> (sample_tx PDCP_RB_IS_DRB 12)\<lparr>do_encryption := False, tx_count := 7\<rparr>"
abbreviation "plain_rx \<equiv> (sample_am_next 7)\<lparr>do_encryption := False\<rparr>"

lemma am_deciphers_plaintext_witness:
  "\<exists>pdu r' b. lte_write_sdu sample_lib plain_tx (buffer_of [1, 2, 3]) = Some (plain_tx\<lparr>tx_count := tx_count plain_tx + 1\<rparr>, pdu) \<and>
    lte_write_pdu sample_lib False plain_rx pdu = Some (r', Some (To_GW (lcid plain_rx) b)) \<and> bytes b = [6, 5, 4]"
proof -
  have "eea_of sample_lib plain_rx (rx_direction (pcfg plain_rx)) (tx_count plain_tx) (bytes (buffer_of [1, 2, 3])) = [6, 5, 4]"
    by (simp add: sample_am_next_def eea_of_def eea2_def sample_lib_def eea2_nonce_def sample_entity_defs)
  then show ?thesis
    using am_deciphers_plaintext [of sample_lib plain_tx plain_rx "buffer_of [1, 2, 3]"]
    by (simp add: sample_am_next_def sample_entity_defs keys_ok_def pdcp_peers_def k_enc_def k_int_def drb_config_def
        am_ok_def rx_ok_def rx_expected_def PDCP_MAX_SDU_SIZE_def)
qed

text \<open>\<open>get_bearer_status\<close> splits both counters so that HFN and SN recompose them, as long as the
  HFN fits its 16 bits: each counter is known modulo \<open>2 ^ (16 + k)\<close>, \<open>k\<close> being the length of the SN.\<close>

theorem bearer_status_recomposes:
  assumes "get_bearer_status e = (dlsn, dlhfn, ulsn, ulhfn)"
    and "k = (if rb_type (pcfg e) = PDCP_RB_IS_DRB then if sn_len (pcfg e) = 12 then 12 else 7 else 5)"
  shows "unat dlhfn * 2 ^ k + unat dlsn = unat (tx_count e) mod 2 ^ (16 + k) \<and>
    unat ulhfn * 2 ^ k + unat ulsn = unat (rx_count e) mod 2 ^ (16 + k)"
proof -
  have split: "unat (u16_of (shr (c - u32_of (u16_of (c AND mask k))) k)) * 2 ^ k + unat (u16_of (c AND mask k)) =
      unat c mod 2 ^ (16 + k)" if "k \<le> 12" for c :: u32 and k
  proof -
    have p: "(2 :: nat) ^ k \<le> 2 ^ 12" using that by (rule power_increasing) simp
    have "unat (c AND mask k) = unat c mod 2 ^ k" by (rule unat_and_mask)
    moreover have "unat c mod 2 ^ k < 2 ^ 12" by (rule less_le_trans [OF _ p]) simp
    then have "unat c mod 2 ^ k < 2 ^ 16" by (rule less_trans) simp
    ultimately have s: "unat (u16_of (c AND mask k)) = unat c mod 2 ^ k"
      "unat (u32_of (u16_of (c AND mask k))) = unat c mod 2 ^ k"
      by (simp_all only: unat_u16_of unat_u32_of_u16)
    have "unat (c - u32_of (u16_of (c AND mask k))) = unat c - unat c mod 2 ^ k"
      using s(2) by (subst unat_sub) (simp_all add: word_le_nat_alt)
    then have "unat (shr (c - u32_of (u16_of (c AND mask k))) k) = unat c div 2 ^ k"
      by (simp add: unat_shr minus_mod_eq_mult_div)
    then have "unat (u16_of (shr (c - u32_of (u16_of (c AND mask k))) k)) = unat c div 2 ^ k mod 2 ^ 16"
      by (simp add: unsigned_ucast_eq take_bit_eq_mod)
    with s(1) show ?thesis
      by (simp add: mod_mult2_eq power_add mult.commute [of "2 ^ 16"] mult.commute [of "65536"])
  qed
  have m: "(0xFFF :: u32) = mask 12" "(0x7F :: u32) = mask 7" "(0x1F :: u32) = mask 5"
    by (simp_all add: mask_eq_exp_minus_1)
  show ?thesis
    using assms split [of 12] split [of 7] split [of 5]
    by (auto simp only: get_bearer_status_def Let_def m prod.case prod.inject split: if_splits)
qed

lemma bearer_status_recomposes_witness:
  "unat (2 :: u16) * 2 ^ 12 + unat (5 :: u16) = unat (tx_count ((sample_tx PDCP_RB_IS_DRB 12)\<lparr>tx_count := 8197\<rparr>)) mod 2 ^ (16 + 12) \<and>
    unat (0 :: u16) * 2 ^ 12 + unat (0 :: u16) = unat (rx_count ((sample_tx PDCP_RB_IS_DRB 12)\<lparr>tx_count := 8197\<rparr>)) mod 2 ^ (16 + 12)"
  by (rule bearer_status_recomposes) (simp_all add: get_bearer_status_def sample_entity_defs)

text \<open>C36. A signalling PDU of two to four bytes passes the sanity check, which compares with the header
  only; with security off its length is then decreased by five and wraps: RRC gets a buffer that
  claims to hold about \<open>2 ^ 32\<close> bytes.\<close>

theorem srb_short_pdu_underflow:
  assumes "is_srb r" "hdr_len_bytes (pcfg r) = 1" "\<not> do_encryption r" "\<not> do_integrity r"
    and "1 < unat (N_bytes pdu)" "unat (N_bytes pdu) < 5"
  shows "\<exists>b. lte_write_pdu L um r pdu = Some (r\<lparr>rx_count := rx_count r + 1\<rparr>, Some (To_RRC (lcid r) b)) \<and>
    unat (N_bytes b) = 2 ^ 32 + unat (N_bytes pdu) - 5"
proof -
  have "\<not> N_bytes pdu \<le> 1" using assms(5) by (simp add: word_le_nat_alt)
  moreover have "\<not> is_drb r" using assms(1) by (simp add: is_srb_def is_drb_def)
  moreover have "unat (N_bytes pdu - 5) = 2 ^ 32 + unat (N_bytes pdu) - 5"
    using assms(6) by (simp add: unat_sub_if')
  ultimately show ?thesis
    using assms(1-4) by (simp add: lte_write_pdu_def pdcp_unpack_control_pdu_def Let_def)
qed

lemma srb_short_pdu_underflow_witness:
  "\<exists>b. lte_write_pdu sample_lib False (lte_init 1 (pdcp_config 1 PDCP_RB_IS_SRB SECURITY_DIRECTION_UPLINK
        SECURITY_DIRECTION_DOWNLINK 5 tr_ms0 td_infinity) new_pdcp_entity_lte) (buffer_of [0, 0, 0]) =
      Some ((lte_init 1 (pdcp_config 1 PDCP_RB_IS_SRB SECURITY_DIRECTION_UPLINK
        SECURITY_DIRECTION_DOWNLINK 5 tr_ms0 td_infinity) new_pdcp_entity_lte)\<lparr>rx_count := rx_count (lte_init 1 (pdcp_config 1
        PDCP_RB_IS_SRB SECURITY_DIRECTION_UPLINK SECURITY_DIRECTION_DOWNLINK 5 tr_ms0 td_infinity) new_pdcp_entity_lte) + 1\<rparr>,
        Some (To_RRC (lcid (lte_init 1 (pdcp_config 1 PDCP_RB_IS_SRB SECURITY_DIRECTION_UPLINK
        SECURITY_DIRECTION_DOWNLINK 5 tr_ms0 td_infinity) new_pdcp_entity_lte)) b)) \<and>
    unat (N_bytes b) = 2 ^ 32 + unat (N_bytes (buffer_of [0, 0, 0])) - 5"
proof -
  have "unat (N_bytes (buffer_of [0, 0, 0])) = 3" by (simp add: buffer_of_def append_bytes_def new_byte_buffer_def)
  then show ?thesis by (intro srb_short_pdu_underflow) (simp_all add: sample_entity_defs)
qed

end
