(* ===== verification/Timers.thy ===== *)
theory Timers
  imports Prelude "HOL-Library.Monad_Syntax"
begin

text \<open>
  The timer service of \<open>lib/include/srslte/common/timers.h\<close>. A \<open>timer_handler\<close> owns a vector of
  timers, a priority queue of (timer, timeout) entries and the current time; \<open>step_all\<close> is called
  once per TTI. Entries are never removed when a timer is stopped or restarted: \<open>step_all\<close> skips the
  entries whose timeout is no longer the one of the timer.

  A callback is a value of the parameter type \<open>'c\<close>; \<open>step_all\<close> takes the function that executes it on the
  handler and on the state of the rest of the program. It may start timers, so the loop of \<open>step_all\<close>
  need not end: it is a partial function, and \<open>None\<close> means that it does not return. The
  \<open>std::priority_queue\<close> is a list in insertion order, of which the oldest greatest entry is the top.

  Lemmas: on entries less than \<open>MAX_TIMER_DURATION\<close> apart \<open>operator<\<close> orders by timeout, across the
  wrap of the clock too; \<open>step_all\<close> triggers exactly the running timers that are due, once each, and
  keeps the invariant \<open>timers_ok\<close>.
\<close>

section \<open>State\<close>

definition MAX_TIMER_DURATION :: u32 where "MAX_TIMER_DURATION = 0xFFFFFFFF div 4"
definition MAX_TIMER_VALUE :: u32 where "MAX_TIMER_VALUE = 0xFFFFFFFF div 2"

record 'c timer_impl =
  duration :: u32
  timeout :: u32
  running :: bool
  timer_active :: bool
  callback :: "'c option"

record timer_run =
  run_timer_id :: u32
  run_timeout :: u32

record 'c timer_handler =
  timer_list :: "'c timer_impl list"
  running_timers :: "timer_run list"
  cur_time :: u32

definition new_timer_impl :: "'c timer_impl" where
  "new_timer_impl = \<lparr>duration = 0, timeout = 0, running = False, timer_active = False, callback = None\<rparr>"

definition new_timer_handler :: "'c timer_handler" where
  "new_timer_handler = \<lparr>timer_list = [], running_timers = [], cur_time = 0\<rparr>"

section \<open>The priority queue\<close>

text \<open>\<open>timer_run::operator<\<close>: the lower timeout has the higher priority.\<close>

definition run_less :: "timer_run \<Rightarrow> timer_run \<Rightarrow> bool" where
  "run_less a b =
     (if run_timeout a > run_timeout b then run_timeout a - run_timeout b < MAX_TIMER_VALUE div 2
      else run_timeout b - run_timeout a > MAX_TIMER_VALUE div 2)"

fun pq_top :: "timer_run list \<Rightarrow> timer_run" where
  "pq_top (e # q) = foldl (\<lambda>t x. if run_less t x then x else t) e q"
| "pq_top [] = undefined"

definition pq_push :: "timer_run \<Rightarrow> timer_run list \<Rightarrow> timer_run list" where
  "pq_push e q = q @ [e]"

definition pq_pop :: "timer_run list \<Rightarrow> timer_run list" where
  "pq_pop q = remove1 (pq_top q) q"

section \<open>Operations of one timer\<close>

definition impl :: "'c timer_handler \<Rightarrow> nat \<Rightarrow> 'c timer_impl" where
  "impl h i = timer_list h ! i"

definition impl_update :: "nat \<Rightarrow> ('c timer_impl \<Rightarrow> 'c timer_impl) \<Rightarrow> 'c timer_handler \<Rightarrow> 'c timer_handler" where
  "impl_update i f h = h\<lparr>timer_list := (timer_list h)[i := f (impl h i)]\<rparr>"

definition is_running :: "'c timer_impl \<Rightarrow> bool" where
  "is_running t \<longleftrightarrow> timer_active t \<and> running t \<and> timeout t > 0"

definition is_expired :: "u32 \<Rightarrow> 'c timer_impl \<Rightarrow> bool" where
  "is_expired now t \<longleftrightarrow> timer_active t \<and> \<not> running t \<and> timeout t > 0 \<and> timeout t \<le> now"

definition timer_value :: "u32 \<Rightarrow> 'c timer_impl \<Rightarrow> u32" where
  "timer_value now t = now - (timeout t - duration t)"

definition timer_run_op :: "nat \<Rightarrow> 'c timer_handler \<Rightarrow> 'c timer_handler" where
  "timer_run_op i h =
     (if \<not> timer_active (impl h i) then h
      else
        let t = cur_time h + duration (impl h i);
            h = impl_update i (\<lambda>p. p\<lparr>timeout := t\<rparr>) h;
            h = h\<lparr>running_timers := pq_push \<lparr>run_timer_id = of_nat i, run_timeout = t\<rparr> (running_timers h)\<rparr>
        in impl_update i (\<lambda>p. p\<lparr>running := True\<rparr>) h)"

definition timer_set :: "nat \<Rightarrow> u32 \<Rightarrow> 'c timer_handler \<Rightarrow> bool \<times> 'c timer_handler" where
  "timer_set i d h =
     (if d > MAX_TIMER_DURATION then (False, h)
      else if \<not> timer_active (impl h i) then (False, h)
      else
        let h = impl_update i (\<lambda>p. p\<lparr>duration := d\<rparr>) h
        in (True, if is_running (impl h i) then timer_run_op i h else h))"

definition timer_set_callback :: "nat \<Rightarrow> u32 \<Rightarrow> 'c \<Rightarrow> 'c timer_handler \<Rightarrow> bool \<times> 'c timer_handler" where
  "timer_set_callback i d c h =
     (case timer_set i d h of
        (True, h) \<Rightarrow> (True, impl_update i (\<lambda>p. p\<lparr>callback := Some c\<rparr>) h)
      | (False, h) \<Rightarrow> (False, h))"

definition timer_stop :: "nat \<Rightarrow> 'c timer_handler \<Rightarrow> 'c timer_handler" where
  "timer_stop i h =
     (let h = impl_update i (\<lambda>p. p\<lparr>running := False\<rparr>) h
      in if \<not> is_expired (cur_time h) (impl h i) then impl_update i (\<lambda>p. p\<lparr>timeout := 0\<rparr>) h else h)"

definition timer_clear :: "nat \<Rightarrow> 'c timer_handler \<Rightarrow> 'c timer_handler" where
  "timer_clear i h =
     impl_update i (\<lambda>p. p\<lparr>duration := 0, timer_active := False, callback := None\<rparr>) (timer_stop i h)"

type_synonym ('c, 's) exec = "'c \<Rightarrow> u32 \<Rightarrow> 'c timer_handler \<times> 's \<Rightarrow> 'c timer_handler \<times> 's"

definition trigger :: "('c, 's) exec \<Rightarrow> nat \<Rightarrow> 'c timer_handler \<times> 's \<Rightarrow> 'c timer_handler \<times> 's" where
  "trigger exec i = (\<lambda>(h, s).
     if is_running (impl h i)
     then let h = impl_update i (\<lambda>p. p\<lparr>running := False\<rparr>) h
          in case callback (impl h i) of None \<Rightarrow> (h, s) | Some c \<Rightarrow> exec c (of_nat i) (h, s)
     else (h, s))"

section \<open>Operations of the service\<close>

text \<open>The loop of \<open>step_all\<close>. The entry popped is the one on top after the callback has run.\<close>

definition due_now :: "'c timer_handler \<Rightarrow> bool" where
  "due_now h \<longleftrightarrow> running_timers h \<noteq> [] \<and> cur_time h \<ge> run_timeout (pq_top (running_timers h))"

definition handle_top :: "('c, 's) exec \<Rightarrow> 'c timer_handler \<times> 's \<Rightarrow> 'c timer_handler \<times> 's" where
  "handle_top exec = (\<lambda>(h, s).
     let e = pq_top (running_timers h); i = unat (run_timer_id e);
         (h, s) = (if timeout (impl h i) = run_timeout e then trigger exec i (h, s) else (h, s))
     in (h\<lparr>running_timers := pq_pop (running_timers h)\<rparr>, s))"

partial_function (option) run_due :: "('c, 's) exec \<Rightarrow> 'c timer_handler \<times> 's \<Rightarrow> ('c timer_handler \<times> 's) option" where
  "run_due exec st = (if due_now (fst st) then run_due exec (handle_top exec st) else Some st)"

definition step_all :: "('c, 's) exec \<Rightarrow> 'c timer_handler \<times> 's \<Rightarrow> ('c timer_handler \<times> 's) option" where
  "step_all exec = (\<lambda>(h, s). run_due exec (h\<lparr>cur_time := cur_time h + 1\<rparr>, s))"

primrec steps :: "nat \<Rightarrow> ('c, 's) exec \<Rightarrow> 'c timer_handler \<times> 's \<Rightarrow> ('c timer_handler \<times> 's) option" where
  "steps 0 exec st = Some st"
| "steps (Suc n) exec st = Option.bind (steps n exec st) (step_all exec)"

definition stop_all :: "'c timer_handler \<Rightarrow> 'c timer_handler" where
  "stop_all h = h\<lparr>running_timers := [], timer_list := map (\<lambda>p. p\<lparr>running := False\<rparr>) (timer_list h)\<rparr>"

fun first_inactive :: "'c timer_impl list \<Rightarrow> nat" where
  "first_inactive [] = 0"
| "first_inactive (p # ps) = (if timer_active p then Suc (first_inactive ps) else 0)"

definition get_unique_timer :: "'c timer_handler \<Rightarrow> nat \<times> 'c timer_handler" where
  "get_unique_timer h =
     (let i = first_inactive (timer_list h);
          h = (if i = length (timer_list h) then h\<lparr>timer_list := timer_list h @ [new_timer_impl]\<rparr> else h)
      in (i, impl_update i (\<lambda>p. p\<lparr>timer_active := True\<rparr>) h))"

text \<open>
  A \<open>unique_timer\<close> is the index of its slot, or \<open>None\<close> when it has no parent. Assigning to it moves the
  other handle in and does not clear the slot it owned before.
\<close>

type_synonym unique_timer = "nat option"

definition unique_timer_assign :: "unique_timer \<Rightarrow> unique_timer \<Rightarrow> unique_timer \<times> unique_timer" where
  "unique_timer_assign this other = (other, None)"

definition unique_timer_destroy :: "unique_timer \<Rightarrow> 'c timer_handler \<Rightarrow> 'c timer_handler" where
  "unique_timer_destroy t h = (case t of None \<Rightarrow> h | Some i \<Rightarrow> timer_clear i h)"

definition unique_timer_release :: "nat \<Rightarrow> 'c timer_handler \<Rightarrow> unique_timer \<times> 'c timer_handler" where
  "unique_timer_release i h = (None, timer_clear i h)"

definition nof_timers :: "'c timer_handler \<Rightarrow> nat" where
  "nof_timers h = length (filter timer_active (timer_list h))"

definition nof_running_timers :: "'c timer_handler \<Rightarrow> nat" where
  "nof_running_timers h = length (filter is_running (timer_list h))"

section \<open>The order of the queue\<close>

lemma quarter: "MAX_TIMER_VALUE div 2 = 0x3FFFFFFF" "MAX_TIMER_DURATION = 0x3FFFFFFF"
  by (simp_all add: MAX_TIMER_VALUE_def MAX_TIMER_DURATION_def)

lemma run_less_window:
  assumes "run_timeout a = base + x" "run_timeout b = base + y" "x < 0x3FFFFFFF" "y < 0x3FFFFFFF"
  shows "run_less a b \<longleftrightarrow> x > y"
proof -
  have xy: "unat x < 0x3FFFFFFF" "unat y < 0x3FFFFFFF" 
    using assms(3,4) by (simp_all add: word_less_nat_alt)
  show ?thesis
    unfolding run_less_def assms(1,2) quarter word_less_nat_alt using xy
    by (auto simp: unat_sub_if' unat_plus_if' split: if_splits)
qed

definition in_window :: "nat \<Rightarrow> timer_run \<Rightarrow> bool" where
  "in_window b e \<longleftrightarrow> b \<le> unat (run_timeout e) \<and> unat (run_timeout e) < b + 0x3FFFFFFF"

lemma run_less_in_window:
  assumes "in_window b e" "in_window b e'"
  shows "run_less e e' \<longleftrightarrow> run_timeout e > run_timeout e'"
  using assms unfolding run_less_def quarter in_window_def word_less_nat_alt
  by (auto simp: unat_sub_if')

lemma pq_top_min:
  assumes "q \<noteq> []" "\<forall>e \<in> set q. in_window b e"
  shows "pq_top q \<in> set q" "\<forall>e \<in> set q. run_timeout (pq_top q) \<le> run_timeout e"
proof -
  let ?better = "\<lambda>t x. if run_less t x then x else t"
  have "foldl ?better t xs \<in> set (t # xs) \<and> (\<forall>e \<in> set (t # xs). run_timeout (foldl ?better t xs) \<le> run_timeout e)"
    if "\<forall>e \<in> set (t # xs). in_window b e" for t xs
    using that
  proof (induction xs arbitrary: t)
    case (Cons x xs)
    from Cons.IH [of "?better t x"] Cons.prems show ?case
      by (auto simp: run_less_in_window split: if_splits)
  qed simp
  with assms show "pq_top q \<in> set q" "\<forall>e \<in> set q. run_timeout (pq_top q) \<le> run_timeout e"
    by (cases q; force)+
qed

lemma filter_remove1_neg: "\<not> P e \<Longrightarrow> filter P (remove1 e q) = filter P q"
  by (induction q) auto

definition timers_inv :: "nat \<Rightarrow> 'c timer_handler \<Rightarrow> bool" where
  "timers_inv b h \<longleftrightarrow>
     length (timer_list h) < 2 ^ 32 \<and>
     (\<forall>e \<in> set (running_timers h). unat (run_timer_id e) < length (timer_list h) \<and> in_window b e) \<and>
     (\<forall>i < length (timer_list h). is_running (impl h i) \<longrightarrow>
        \<lparr>run_timer_id = of_nat i, run_timeout = timeout (impl h i)\<rparr> \<in> set (running_timers h))"

abbreviation timers_ok :: "'c timer_handler \<Rightarrow> bool" where
  "timers_ok h \<equiv> timers_inv (unat (cur_time h)) h"

definition quiet_exec :: "('c \<Rightarrow> u32 \<Rightarrow> 's \<Rightarrow> 's) \<Rightarrow> ('c, 's) exec" where
  "quiet_exec f c i = (\<lambda>(h, s). (h, f c i s))"

definition notify :: "('c \<Rightarrow> u32 \<Rightarrow> 's \<Rightarrow> 's) \<Rightarrow> 'c timer_impl list \<Rightarrow> 's \<Rightarrow> nat \<Rightarrow> 's" where
  "notify f ts s i = (case callback (ts ! i) of None \<Rightarrow> s | Some c \<Rightarrow> f c (of_nat i) s)"

definition is_due :: "u32 \<Rightarrow> 'c timer_impl \<Rightarrow> bool" where
  "is_due now t \<longleftrightarrow> is_running t \<and> timeout t \<le> now"

definition retire :: "u32 \<Rightarrow> 'c timer_impl \<Rightarrow> 'c timer_impl" where
  "retire now t = (if is_due now t then t\<lparr>running := False\<rparr> else t)"

lemma impl_update_simps [simp]:
  "length (timer_list (impl_update i f h)) = length (timer_list h)"
  "cur_time (impl_update i f h) = cur_time h"
  "running_timers (impl_update i f h) = running_timers h"
  "i < length (timer_list h) \<Longrightarrow> impl (impl_update i f h) j = (if i = j then f (impl h i) else impl h j)"
  by (auto simp: impl_update_def impl_def)

lemma impl_running_timers [simp]: "impl (h\<lparr>running_timers := q\<rparr>) i = impl h i" "impl (h\<lparr>cur_time := t\<rparr>) i = impl h i"
  by (simp_all add: impl_def)

lemma not_running_stopped [simp]: "\<not> is_running (t\<lparr>running := False\<rparr>)" "\<not> is_due n (t\<lparr>running := False\<rparr>)"
  by (simp_all add: is_running_def is_due_def)

text \<open>What one round of the loop does: the due timer on top, if any, is retired and notified.\<close>

lemma handle_top_quiet:
  assumes inv: "timers_inv b h" and due: "due_now h"
  defines "e \<equiv> pq_top (running_timers h)"
  defines "i \<equiv> unat (run_timer_id e)"
  defines "hit \<equiv> is_running (impl h i) \<and> timeout (impl h i) = run_timeout e"
  defines "h2 \<equiv> h\<lparr>timer_list := (timer_list h)[i := if hit then (impl h i)\<lparr>running := False\<rparr> else impl h i],
                  running_timers := remove1 e (running_timers h)\<rparr>"
  shows "handle_top (quiet_exec f) (h, s) = (h2, if hit then notify f (timer_list h) s i else s)"
    and "timers_inv b h2" and "i < length (timer_list h)" and "e \<in> set (running_timers h)"
    and "run_timeout e \<le> cur_time h"
proof -
  have q: "running_timers h \<noteq> []" "cur_time h \<ge> run_timeout e"
    using due by (auto simp: due_now_def e_def)
  have win: "\<forall>e \<in> set (running_timers h). in_window b e" using inv by (auto simp: timers_inv_def)
  show e: "e \<in> set (running_timers h)" using pq_top_min(1) [OF q(1) win] by (simp add: e_def)
  show i: "i < length (timer_list h)" using inv e by (auto simp: timers_inv_def i_def)
  show "run_timeout e \<le> cur_time h" by (rule q(2))
  show "handle_top (quiet_exec f) (h, s) = (h2, if hit then notify f (timer_list h) s i else s)"
    using i by (auto simp: handle_top_def trigger_def quiet_exec_def h2_def hit_def notify_def pq_pop_def Let_def
        impl_update_def impl_def i_def [symmetric] e_def [symmetric] split: option.splits)
  have e_eq: "e = \<lparr>run_timer_id = of_nat i, run_timeout = run_timeout e\<rparr>"
    by (cases e) (simp add: i_def)
  have impl2: "impl h2 j = (if j = i \<and> hit then (impl h i)\<lparr>running := False\<rparr> else impl h j)" for j
    using i by (auto simp: h2_def impl_def)
  have h2: "length (timer_list h2) = length (timer_list h)" "running_timers h2 = remove1 e (running_timers h)"
    by (simp_all add: h2_def)
  have "\<lparr>run_timer_id = of_nat j, run_timeout = timeout (impl h2 j)\<rparr> \<in> set (running_timers h2)"
    if j: "j < length (timer_list h)" "is_running (impl h2 j)" for j
  proof -
    have r: "is_running (impl h j)" "\<not> (j = i \<and> hit)" using j(2) by (auto simp: impl2 split: if_splits)
    then have "\<lparr>run_timer_id = of_nat j, run_timeout = timeout (impl h j)\<rparr> \<in> set (running_timers h)"
      using inv j(1) by (auto simp: timers_inv_def)
    moreover have "\<lparr>run_timer_id = of_nat j, run_timeout = timeout (impl h j)\<rparr> \<noteq> e"
    proof
      assume eq: "\<lparr>run_timer_id = of_nat j, run_timeout = timeout (impl h j)\<rparr> = e"
      have "unat (of_nat j :: u32) = j" using j(1) inv by (simp add: timers_inv_def unat_of_nat_u32)
      with eq have "j = i" by (auto simp: i_def)
      with eq r show False by (auto simp: hit_def)
    qed
    ultimately show ?thesis using r by (auto simp: impl2 h2)
  qed
  then show "timers_inv b h2"
    using inv by (auto simp: timers_inv_def h2 dest: notin_set_remove1 set_remove1_subset [THEN subsetD])
qed

definition after_due :: "'c timer_handler \<Rightarrow> 'c timer_handler" where
  "after_due h = h\<lparr>timer_list := map (retire (cur_time h)) (timer_list h),
     running_timers := filter (\<lambda>e. cur_time h < run_timeout e) (running_timers h)\<rparr>"

lemma run_due_quiet:
  assumes "timers_inv b h"
  shows "\<exists>fired. run_due (quiet_exec f) (h, s) = Some (after_due h, foldl (notify f (timer_list h)) s fired) \<and>
    distinct fired \<and> set fired = {i. i < length (timer_list h) \<and> is_due (cur_time h) (impl h i)}"
  using assms
proof (induction "length (running_timers h)" arbitrary: h s rule: less_induct)
  case less
  note inv = less.prems
  show ?case
  proof (cases "due_now h")
    case False
    have later: "cur_time h < run_timeout e" if "e \<in> set (running_timers h)" for e
    proof -
      have "\<forall>e \<in> set (running_timers h). in_window b e" using inv by (auto simp: timers_inv_def)
      from pq_top_min(2) [OF _ this] that have "run_timeout (pq_top (running_timers h)) \<le> run_timeout e"
        by (metis empty_iff empty_set)
      with False that show ?thesis by (fastforce simp: due_now_def)
    qed
    then have "\<not> is_due (cur_time h) (impl h i)" if "i < length (timer_list h)" for i
      using inv that by (fastforce simp: timers_inv_def is_due_def)
    then have "map (retire (cur_time h)) (timer_list h) = timer_list h"
      by (intro map_idI) (metis in_set_conv_nth impl_def retire_def)
    then have "after_due h = h"
      using later by (simp add: after_due_def filter_id_conv)
    then show ?thesis
      using False \<open>\<And>i. _ \<Longrightarrow> \<not> is_due (cur_time h) (impl h i)\<close>
      by (intro exI [of _ "[]"]) (auto simp: run_due.simps)
  next
    case True
    define e where "e = pq_top (running_timers h)"
    define i where "i = unat (run_timer_id e)"
    define hit where "hit \<longleftrightarrow> is_running (impl h i) \<and> timeout (impl h i) = run_timeout e"
    define h2 where "h2 = h\<lparr>timer_list := (timer_list h)[i := if hit then (impl h i)\<lparr>running := False\<rparr> else impl h i],
                  running_timers := remove1 e (running_timers h)\<rparr>"
    define s2 where "s2 = (if hit then notify f (timer_list h) s i else s)"
    note step = handle_top_quiet(1) [OF inv True, of f s, folded e_def, folded i_def, folded hit_def, folded h2_def s2_def]
      handle_top_quiet(2-) [OF inv True, folded e_def, folded i_def, folded hit_def, folded h2_def]
    have "length (running_timers h2) < length (running_timers h)"
      using step(4) length_pos_if_in_set [OF step(4)] by (simp add: h2_def length_remove1)
    from less.hyps [OF this step(2), of s2] obtain fired where fired:
      "run_due (quiet_exec f) (h2, s2) = Some (after_due h2, foldl (notify f (timer_list h2)) s2 fired)"
      "distinct fired" "set fired = {j. j < length (timer_list h2) \<and> is_due (cur_time h2) (impl h2 j)}" by blast
    have cur: "cur_time h2 = cur_time h" and len: "length (timer_list h2) = length (timer_list h)" by (simp_all add: h2_def)
    have impl2: "impl h2 j = (if j = i \<and> hit then (impl h i)\<lparr>running := False\<rparr> else impl h j)" for j
      using step(3) by (auto simp: h2_def impl_def)
    have due_i: "hit \<Longrightarrow> is_due (cur_time h) (impl h i)" using step(5) by (simp add: hit_def is_due_def)
    have not_e: "\<not> cur_time h < run_timeout e" using step(5) by simp
    have "map (retire (cur_time h)) (timer_list h2) = map (retire (cur_time h)) (timer_list h)"
      using due_i len by (intro nth_equalityI) (auto simp: impl2 [unfolded impl_def] impl_def retire_def)
    then have after: "after_due h2 = after_due h"
      using filter_remove1_neg [of "\<lambda>e. cur_time h < run_timeout e" e "running_timers h", OF not_e]
      by (simp add: after_due_def h2_def)
    have note2: "notify f (timer_list h2) = notify f (timer_list h)"
      by (intro ext) (auto simp: notify_def impl2 [unfolded impl_def] split: option.splits)
    have "run_due (quiet_exec f) (h, s) = Some (after_due h, foldl (notify f (timer_list h)) s2 fired)"
      using fired(1) True step(1) after note2 by (simp add: run_due.simps [of _ "(h, s)"])
    moreover have "i \<notin> set fired" if hit using fired(3) that by (simp add: impl2)
    moreover have "set fired = {j. j < length (timer_list h) \<and> is_due (cur_time h) (impl h j)} - (if hit then {i} else {})"
      unfolding fired(3) by (auto simp: impl2 len cur)
    ultimately show ?thesis
      using fired(2) due_i step(3) by (intro exI [of _ "if hit then i # fired else fired"]) (auto simp: s2_def)
  qed
qed

text \<open>One call of \<open>step_all\<close>, and the invariant.\<close>

lemma timers_inv_after_due:
  assumes "timers_inv b h" "b \<le> unat (cur_time h)"
  shows "timers_ok (after_due h)"
proof -
  have "impl (after_due h) i = retire (cur_time h) (impl h i)" if "i < length (timer_list h)" for i
    using that by (simp add: after_due_def impl_def)
  then show ?thesis
    using assms by (auto simp: timers_inv_def after_due_def retire_def is_due_def in_window_def word_less_nat_alt
        not_le split: if_splits)
qed

lemma step_all_quiet:
  assumes "timers_ok h" "unat (cur_time h) + 1 < 2 ^ 32"
  defines "now \<equiv> cur_time h + 1"
  shows "\<exists>fired. step_all (quiet_exec f) (h, s) =
      Some (after_due (h\<lparr>cur_time := now\<rparr>), foldl (notify f (timer_list h)) s fired) \<and>
    distinct fired \<and> set fired = {i. i < length (timer_list h) \<and> is_due now (impl h i)} \<and>
    timers_ok (after_due (h\<lparr>cur_time := now\<rparr>))"
proof -
  have "timers_inv (unat (cur_time h)) (h\<lparr>cur_time := now\<rparr>)"
    using assms(1) by (simp add: timers_inv_def)
  moreover have "unat (cur_time h) \<le> unat now"
    using assms(2) by (simp add: now_def unat_word_ariths)
  ultimately show ?thesis
    using run_due_quiet [of "unat (cur_time h)" "h\<lparr>cur_time := now\<rparr>" f s] timers_inv_after_due [of "unat (cur_time h)" "h\<lparr>cur_time := now\<rparr>"]
    by (auto simp: step_all_def now_def [symmetric])
qed

lemma timers_ok_run:
  assumes "timers_ok h" "i < length (timer_list h)" "timer_active (impl h i)"
    and "duration (impl h i) < MAX_TIMER_DURATION" "unat (cur_time h) + unat (duration (impl h i)) < 2 ^ 32"
  shows "timers_ok (timer_run_op i h)"
proof -
  let ?t = "cur_time h + duration (impl h i)"
  have t: "unat ?t = unat (cur_time h) + unat (duration (impl h i))"
    using assms(5) by (simp add: unat_word_ariths)
  have "unat (duration (impl h i)) < 0x3FFFFFFF"
    using assms(4) by (simp add: quarter word_less_nat_alt)
  moreover have "unat (of_nat i :: u32) = i" using assms(1,2) by (simp add: timers_inv_def unat_of_nat_u32)
  ultimately show ?thesis
    using assms(1,2,3) t by (auto simp: timers_inv_def timer_run_op_def in_window_def pq_push_def is_running_def Let_def)
qed

lemma foldl_notify_log:
  "foldl (notify (\<lambda>c i log. log @ [i]) ts) log fired =
   log @ map of_nat (filter (\<lambda>i. callback (ts ! i) \<noteq> None) fired)"
  by (induction fired arbitrary: log) (auto simp: notify_def)

lemma count_list_map_of_nat:
  assumes "distinct xs" "\<forall>x \<in> set xs. x < 2 ^ 32" "i < 2 ^ 32"
  shows "count_list (map of_nat xs) (of_nat i :: u32) = (if i \<in> set xs then 1 else 0)"
proof -
  have "(of_nat x = (of_nat i :: u32)) = (x = i)" if "x < 2 ^ 32" for x
    by (metis assms(3) that unat_of_nat_u32)
  with assms show ?thesis by (induction xs) auto
qed

lemma run_due_stuck:
  assumes "handle_top exec st = st" "due_now (fst st)"
  shows "run_due exec st = None"
proof (rule ccontr)
  assume "run_due exec st \<noteq> None"
  then obtain r where r: "run_due exec st = Some r" by blast
  have "exec = exec \<longrightarrow> st \<noteq> st"
  proof (rule run_due.raw_induct [of "\<lambda>exec' st' r. exec' = exec \<longrightarrow> st' \<noteq> st", OF _ r])
  qed (use assms in metis)
  then show False by simp
qed

lemma run_due_unfold: "due_now (fst st) \<Longrightarrow> run_due exec st = run_due exec (handle_top exec st)"
  by (subst run_due.simps) simp

lemma timers_inv_update:
  assumes "timers_inv b h" "i < length (timer_list h)"
    and "is_running (f (impl h i)) \<Longrightarrow> is_running (impl h i) \<and> timeout (f (impl h i)) = timeout (impl h i)"
  shows "timers_inv b (impl_update i f h)"
  using assms by (auto simp: timers_inv_def)

definition slot_ok :: "'c timer_impl \<Rightarrow> bool" where
  "slot_ok t \<longleftrightarrow> duration t < MAX_TIMER_DURATION \<and> (running t \<longrightarrow> timer_active t)"

definition slots_ok :: "'c timer_handler \<Rightarrow> bool" where
  "slots_ok h \<longleftrightarrow> (\<forall>t \<in> set (timer_list h). slot_ok t)"

definition in_time :: "'c timer_handler \<Rightarrow> bool" where
  "in_time h \<longleftrightarrow> unat (cur_time h) + 0x3FFFFFFF < 2 ^ 32"

abbreviation handler_ok :: "'c timer_handler \<Rightarrow> bool" where
  "handler_ok h \<equiv> timers_ok h \<and> slots_ok h \<and> in_time h"

lemma slots_ok_update:
  "slots_ok h \<Longrightarrow> slot_ok (f (impl h i)) \<Longrightarrow> slots_ok (impl_update i f h)"
  by (auto simp: slots_ok_def impl_update_def dest!: set_update_subset_insert [THEN subsetD])

lemma slots_okD: "slots_ok h \<Longrightarrow> i < length (timer_list h) \<Longrightarrow> slot_ok (impl h i)"
  by (auto simp: slots_ok_def impl_def)

lemma handler_ok_update:
  assumes "handler_ok h" "i < length (timer_list h)" "slot_ok (f (impl h i))"
    and "is_running (f (impl h i)) \<Longrightarrow> is_running (impl h i) \<and> timeout (f (impl h i)) = timeout (impl h i)"
  shows "handler_ok (impl_update i f h)"
  using assms timers_inv_update [of "unat (cur_time h)" h i f] slots_ok_update [of h f i]
  by (simp add: in_time_def)

lemma run_fields:
  "timer_list (timer_run_op i h) = (if timer_active (impl h i)
     then (timer_list h)[i := (impl h i)\<lparr>timeout := cur_time h + duration (impl h i), running := True\<rparr>] else timer_list h)"
  "cur_time (timer_run_op i h) = cur_time h"
  "length (timer_list (timer_run_op i h)) = length (timer_list h)"
  by (cases "i < length (timer_list h)"; simp add: timer_run_op_def impl_update_def impl_def Let_def list_update_beyond)+

lemma handler_ok_run:
  assumes "handler_ok h" "i < length (timer_list h)"
  shows "handler_ok (timer_run_op i h)"
proof (cases "timer_active (impl h i)")
  case True
  have d: "slot_ok (impl h i)" using assms by (simp add: slots_okD)
  then have "unat (duration (impl h i)) < 0x3FFFFFFF" by (simp add: slot_ok_def quarter word_less_nat_alt)
  then have "timers_ok (timer_run_op i h)"
    using assms True d by (intro timers_ok_run) (simp_all add: in_time_def slot_ok_def)
  then show ?thesis
    using assms d True by (auto simp: slots_ok_def slot_ok_def in_time_def run_fields dest!: set_update_subset_insert [THEN subsetD])
qed (use assms in \<open>simp add: timer_run_op_def\<close>)

lemma is_running_duration [simp]: "is_running (t\<lparr>duration := d\<rparr>) = is_running t" "is_running (t\<lparr>callback := c\<rparr>) = is_running t"
  by (simp_all add: is_running_def)

lemma handler_ok_set:
  assumes "handler_ok h" "i < length (timer_list h)" "d < MAX_TIMER_DURATION"
  shows "handler_ok (snd (timer_set i d h))" "length (timer_list (snd (timer_set i d h))) = length (timer_list h)"
proof -
  have "handler_ok (impl_update i (\<lambda>p. p\<lparr>duration := d\<rparr>) h)"
    using assms slots_okD [of h i] by (intro handler_ok_update) (simp_all add: slot_ok_def)
  with assms handler_ok_run [OF this, of i]
  show "handler_ok (snd (timer_set i d h))" "length (timer_list (snd (timer_set i d h))) = length (timer_list h)"
    by (auto simp: timer_set_def Let_def run_fields)
qed

lemma handler_ok_stop:
  assumes "handler_ok h" "i < length (timer_list h)"
  shows "handler_ok (timer_stop i h)" "length (timer_list (timer_stop i h)) = length (timer_list h)"
proof -
  have d: "slot_ok (impl h i)" using assms by (simp add: slots_okD)
  have 1: "handler_ok (impl_update i (\<lambda>p. p\<lparr>running := False\<rparr>) h)" (is "handler_ok ?h")
    using assms d by (intro handler_ok_update) (simp_all add: slot_ok_def)
  have "handler_ok (impl_update i (\<lambda>p. p\<lparr>timeout := 0\<rparr>) ?h)"
    using assms d by (intro handler_ok_update [OF 1]) (simp_all add: is_running_def slot_ok_def)
  with 1 show "handler_ok (timer_stop i h)" "length (timer_list (timer_stop i h)) = length (timer_list h)"
    by (simp_all add: timer_stop_def Let_def)
qed

lemma handler_ok_clear:
  assumes "handler_ok h" "i < length (timer_list h)"
  shows "handler_ok (timer_clear i h)"
proof -
  have "\<not> running (impl (timer_stop i h) i)" using assms(2) by (simp add: timer_stop_def Let_def)
  then show ?thesis
    using handler_ok_stop [OF assms] assms(2) unfolding timer_clear_def
    by (intro handler_ok_update) (simp_all add: quarter is_running_def slot_ok_def)
qed

lemma first_inactive_le: "first_inactive ts \<le> length ts"
  by (induction ts) auto

lemma nth_first_inactive: "first_inactive ts < length ts \<Longrightarrow> \<not> timer_active (ts ! first_inactive ts)"
  by (induction ts) auto

lemma handler_ok_get:
  assumes "handler_ok h" "length (timer_list h) + 1 < 2 ^ 32"
  shows "handler_ok (snd (get_unique_timer h))"
proof -
  let ?i = "first_inactive (timer_list h)"
  let ?h = "if ?i = length (timer_list h) then h\<lparr>timer_list := timer_list h @ [new_timer_impl]\<rparr> else h"
  have h: "handler_ok ?h"
    using assms by (auto simp: timers_inv_def impl_def nth_append slots_ok_def slot_ok_def in_time_def new_timer_impl_def
        quarter is_running_def less_Suc_eq)
  moreover have i: "?i < length (timer_list ?h)" using first_inactive_le [of "timer_list h"] by auto
  moreover have "\<not> running (impl ?h ?i)"
  proof -
    have "\<not> timer_active (impl ?h ?i)"
      using first_inactive_le [of "timer_list h"] nth_first_inactive [of "timer_list h"]
      by (auto simp: impl_def new_timer_impl_def)
    then show ?thesis using slots_okD [of ?h ?i] h i by (simp add: slot_ok_def)
  qed
  ultimately have "handler_ok (impl_update ?i (\<lambda>p. p\<lparr>timer_active := True\<rparr>) ?h)"
    using slots_okD [of ?h ?i] by (intro handler_ok_update) (simp_all add: slot_ok_def is_running_def)
  then show ?thesis by (simp add: get_unique_timer_def Let_def)
qed

lemma handler_ok_stop_all: "handler_ok h \<Longrightarrow> handler_ok (stop_all h)"
  by (auto simp: timers_inv_def stop_all_def slots_ok_def slot_ok_def in_time_def impl_def)

lemma handler_ok_tick:
  assumes "handler_ok h" "in_time h'" "step_all (quiet_exec f) (h, s) = Some (h', s')"
  shows "handler_ok h'"
proof -
  have "unat (cur_time h) + 1 < 2 ^ 32" using assms(1) by (simp add: in_time_def)
  then have "h' = after_due (h\<lparr>cur_time := cur_time h + 1\<rparr>)" "timers_ok h'"
    using step_all_quiet [of h f s] assms by auto
  then show ?thesis
    using assms(1,2) by (auto simp: after_due_def slots_ok_def slot_ok_def retire_def)
qed

text \<open>The states of the service that the program can reach before its clock comes near the wrap.\<close>

inductive timer_reach :: "'c timer_handler \<Rightarrow> bool" where
  init: "timer_reach new_timer_handler"
| get: "timer_reach h \<Longrightarrow> length (timer_list h) + 1 < 2 ^ 32 \<Longrightarrow> timer_reach (snd (get_unique_timer h))"
| set: "timer_reach h \<Longrightarrow> i < length (timer_list h) \<Longrightarrow> d < MAX_TIMER_DURATION \<Longrightarrow> timer_reach (snd (timer_set i d h))"
| set_callback: "timer_reach h \<Longrightarrow> i < length (timer_list h) \<Longrightarrow> d < MAX_TIMER_DURATION \<Longrightarrow>
    timer_reach (snd (timer_set_callback i d c h))"
| run: "timer_reach h \<Longrightarrow> i < length (timer_list h) \<Longrightarrow> timer_reach (timer_run_op i h)"
| stop: "timer_reach h \<Longrightarrow> i < length (timer_list h) \<Longrightarrow> timer_reach (timer_stop i h)"
| clear: "timer_reach h \<Longrightarrow> i < length (timer_list h) \<Longrightarrow> timer_reach (timer_clear i h)"
| stop_all: "timer_reach h \<Longrightarrow> timer_reach (stop_all h)"
| tick: "timer_reach h \<Longrightarrow> step_all (quiet_exec f) (h, ()) = Some (h', s') \<Longrightarrow> in_time h' \<Longrightarrow> timer_reach h'"

lemma timer_reach_ok: "timer_reach h \<Longrightarrow> handler_ok h"
proof (induction rule: timer_reach.induct)
  case init
  then show ?case by (simp add: timers_inv_def new_timer_handler_def slots_ok_def in_time_def)
next
  case (set_callback h i d c)
  note ok = handler_ok_set [OF set_callback.IH set_callback.hyps(2,3)]
  then have "handler_ok (impl_update i (\<lambda>p. p\<lparr>callback := Some c\<rparr>) (snd (timer_set i d h)))"
    using slots_okD [of "snd (timer_set i d h)" i] set_callback.hyps(2)
    by (intro handler_ok_update) (simp_all add: slot_ok_def)
  with ok show ?case by (auto simp: timer_set_callback_def split: prod.splits bool.splits)
next
  case (tick h f h' s')
  from handler_ok_tick [OF tick.IH tick.hyps(3,2)] show ?case .
qed ((rule handler_ok_get handler_ok_set handler_ok_run handler_ok_stop handler_ok_clear handler_ok_stop_all; assumption)+)

text \<open>
  \<open>stop_all\<close> does not reset the timeouts: a timer it stopped reports, once its timeout has passed, that
  it has expired.
\<close>

lemma stop_all_expires:
  assumes "i < length (timer_list h)" "is_running (impl h i)" "timeout (impl h i) \<le> t"
  shows "is_expired t (impl (stop_all h) i)"
  using assms by (simp add: stop_all_def impl_def is_running_def is_expired_def)

section \<open>The interface of one timer\<close>

text \<open>
  What the owner of a timer relies on. \<open>live\<close> says that the handle is usable: its slot is active and its
  timeout would not be 0.
\<close>

locale one_timer =
  fixes live :: "'h \<Rightarrow> bool" and is_on :: "'h \<Rightarrow> bool" and start :: "'h \<Rightarrow> 'h" and halt :: "'h \<Rightarrow> 'h"
  assumes live_start: "live h \<Longrightarrow> live (start h)"
    and live_halt: "live h \<Longrightarrow> live (halt h)"
    and on_start: "live h \<Longrightarrow> is_on (start h)"
    and on_halt: "live h \<Longrightarrow> \<not> is_on (halt h)"
begin

text \<open>
  The pattern of the reordering windows: a timer that has served its purpose is stopped, and one that is
  not running while something is \<open>waiting\<close> is started. Afterwards it runs iff something is waiting or its
  purpose still holds.
\<close>

lemma supervise:
  fixes served waiting :: bool
  assumes "live h"
  defines "h1 \<equiv> (if is_on h \<and> served then halt h else h)"
  defines "h2 \<equiv> (if \<not> is_on h1 \<and> waiting then start h1 else h1)"
  shows "live h2" "is_on h2 \<longleftrightarrow> waiting \<or> is_on h \<and> \<not> served"
    and "h2 = h \<or> h2 = halt h \<or> h2 = start h \<or> h2 = start (halt h)"
  using assms live_start live_halt on_start on_halt by (auto simp: h1_def h2_def split: if_splits)

end

definition timer_live :: "nat \<Rightarrow> 'c timer_handler \<Rightarrow> bool" where
  "timer_live i h \<longleftrightarrow> i < length (timer_list h) \<and> timer_active (impl h i) \<and> cur_time h + duration (impl h i) > 0"

interpretation slot: one_timer "timer_live i" "\<lambda>h. is_running (impl h i)" "timer_run_op i" "timer_stop i"
  by unfold_locales
     (auto simp: timer_live_def run_fields timer_stop_def timer_run_op_def is_running_def Let_def)

section \<open>Properties\<close>

definition sample_handler :: "u32 \<Rightarrow> u32 \<Rightarrow> unit timer_handler" where
  "sample_handler now d =
     \<lparr>timer_list = [\<lparr>duration = d, timeout = 0, running = False, timer_active = True, callback = Some ()\<rparr>],
      running_timers = [], cur_time = now\<rparr>"

lemma sample_handler_simps:
  "length (timer_list (sample_handler now d)) = 1" "running_timers (sample_handler now d) = []"
  "cur_time (sample_handler now d) = now"
  "impl (sample_handler now d) 0 = \<lparr>duration = d, timeout = 0, running = False, timer_active = True, callback = Some ()\<rparr>"
  by (simp_all add: sample_handler_def impl_def)

lemma sample_handler_ok: "timers_ok (sample_handler now d)"
  by (simp add: sample_handler_def impl_def timers_inv_def is_running_def)

text \<open>C15. A timer that is started with duration \<open>d\<close>, and that nothing touches afterwards, fires in the
  \<open>d\<close>-th call of \<open>step_all\<close> and in no other one, whatever else the queue holds (entries of an earlier
  start of the same timer included), as long as the clock does not wrap.\<close>

theorem timer_fires_once:
  assumes "timers_ok h" "i < length (timer_list h)" "timer_active (impl h i)" "callback (impl h i) = Some c"
    and "duration (impl h i) = d" "0 < d" "d < MAX_TIMER_DURATION"
    and "unat (cur_time h) + unat d < 2 ^ 32" "unat (cur_time h) + n < 2 ^ 32"
  shows "\<exists>h' log. steps n (quiet_exec (\<lambda>c i log. log @ [i])) (timer_run_op i h, []) = Some (h', log) \<and>
    count_list log (of_nat i) = (if n < unat d then 0 else 1)"
proof -
  let ?exec = "quiet_exec (\<lambda>c i log. log @ [i])" and ?t = "cur_time h + d"
  have t: "unat ?t = unat (cur_time h) + unat d" using assms(8) by (simp add: unat_word_ariths)
  have d: "0 < unat d" using assms(6) by (simp add: unat_gt_0)
  have i32: "i < 2 ^ 32" using assms(1,2) by (simp add: timers_inv_def)
  have "\<exists>h' log. steps n ?exec (timer_run_op i h, []) = Some (h', log) \<and> timers_ok h' \<and>
      cur_time h' = cur_time h + of_nat n \<and> length (timer_list h') = length (timer_list h) \<and>
      timer_active (impl h' i) \<and> callback (impl h' i) = Some c \<and> timeout (impl h' i) = ?t \<and>
      (running (impl h' i) \<longleftrightarrow> n < unat d) \<and> count_list log (of_nat i) = (if n < unat d then 0 else 1)"
    using assms(9)
  proof (induction n)
    case 0
    then show ?case
      using timers_ok_run [OF assms(1-3)] assms d by (auto simp: timer_run_op_def Let_def)
  next
    case (Suc n)
    then obtain h' log where IH: "steps n ?exec (timer_run_op i h, []) = Some (h', log)" "timers_ok h'"
      "cur_time h' = cur_time h + of_nat n" "length (timer_list h') = length (timer_list h)"
      "timer_active (impl h' i)" "callback (impl h' i) = Some c" "timeout (impl h' i) = ?t"
      "running (impl h' i) \<longleftrightarrow> n < unat d" "count_list log (of_nat i) = (if n < unat d then 0 else 1)" by auto
    have now: "unat (cur_time h') = unat (cur_time h) + n" "unat (cur_time h' + 1) = unat (cur_time h) + Suc n"
      using Suc.prems by (simp_all add: IH(3) unat_word_ariths unat_of_nat)
    obtain fired where fired: "step_all ?exec (h', log) =
        Some (after_due (h'\<lparr>cur_time := cur_time h' + 1\<rparr>),
          log @ map of_nat (filter (\<lambda>i. callback (impl h' i) \<noteq> None) fired))"
      "distinct fired" "set fired = {j. j < length (timer_list h') \<and> is_due (cur_time h' + 1) (impl h' j)}"
      "timers_ok (after_due (h'\<lparr>cur_time := cur_time h' + 1\<rparr>))"
      using step_all_quiet [OF IH(2), of "\<lambda>c i log. log @ [i]" log] Suc.prems now
      by (auto simp: foldl_notify_log impl_def)
    have due: "is_due (cur_time h' + 1) (impl h' i) \<longleftrightarrow> Suc n = unat d"
      using IH d t now(2) by (auto simp: is_due_def is_running_def word_le_nat_alt word_less_nat_alt)
    have "count_list (map of_nat (filter (\<lambda>i. callback (impl h' i) \<noteq> None) fired)) (of_nat i :: u32) =
        (if Suc n = unat d then 1 else 0)"
      using fired(2,3) IH(2,4,6) due i32 assms(2)
      by (subst count_list_map_of_nat) (auto simp: timers_inv_def)
    moreover have "impl (after_due (h'\<lparr>cur_time := cur_time h' + 1\<rparr>)) i = retire (cur_time h' + 1) (impl h' i)"
      using assms(2) IH(4) by (simp add: after_due_def impl_def)
    ultimately show ?case
      using IH fired due assms(2) by (auto simp: after_due_def retire_def)
  qed
  then show ?thesis by blast
qed

theorem timer_fires_once_witness:
  "\<exists>h' log. steps 3 (quiet_exec (\<lambda>c i log. log @ [i])) (timer_run_op 0 (sample_handler 5 3), []) = Some (h', log) \<and>
     count_list log 0 = 1"
  using timer_fires_once [OF sample_handler_ok [of 5 3], of 0 "()" 3 3] by (simp add: sample_handler_simps quarter)

text \<open>C16. From every state that the operations of the service can reach, until the clock comes within
  \<open>MAX_TIMER_DURATION\<close> of its wrap, \<open>step_all\<close> returns when the callbacks do not start timers: it calls the callback
  of each running timer that is due, once, with the index of the timer, and of no other one; afterwards the
  running timers are exactly those that were running and are not yet due, and the state is a reachable one.\<close>

theorem reachable_step_all:
  assumes "timer_reach h"
  shows "\<exists>h' fired. step_all (quiet_exec f) (h, s) =
      Some (h', foldl (\<lambda>s i. case callback (impl h i) of None \<Rightarrow> s | Some c \<Rightarrow> f c (of_nat i) s) s fired) \<and>
    distinct fired \<and>
    set fired = {i. i < length (timer_list h) \<and> is_running (impl h i) \<and> timeout (impl h i) \<le> cur_time h + 1} \<and>
    cur_time h' = cur_time h + 1 \<and>
    (\<forall>i < length (timer_list h). is_running (impl h' i) \<longleftrightarrow> is_running (impl h i) \<and> timeout (impl h i) > cur_time h + 1) \<and>
    (\<forall>i < length (timer_list h). timeout (impl h' i) = timeout (impl h i)) \<and>
    (in_time h' \<longrightarrow> timer_reach h')"
proof -
  let ?h = "after_due (h\<lparr>cur_time := cur_time h + 1\<rparr>)"
  have ok: "timers_ok h" "unat (cur_time h) + 1 < 2 ^ 32"
    using timer_reach_ok [OF assms] by (auto simp: in_time_def)
  obtain fired where fired: "step_all (quiet_exec f) (h, s) = Some (?h, foldl (notify f (timer_list h)) s fired)"
      "distinct fired" "set fired = {i. i < length (timer_list h) \<and> is_due (cur_time h + 1) (impl h i)}"
    using step_all_quiet [OF ok, of f s] by blast
  have "timer_reach ?h" if "in_time ?h"
    using step_all_quiet [OF ok, of "\<lambda>c i s. s" "()"] timer_reach.tick [OF assms] that by blast
  moreover have "notify f (timer_list h) = (\<lambda>s i. case callback (impl h i) of None \<Rightarrow> s | Some c \<Rightarrow> f c (of_nat i) s)"
    by (intro ext) (simp add: notify_def impl_def)
  moreover have "cur_time ?h = cur_time h + 1"
    "\<forall>i < length (timer_list h). is_running (impl ?h i) \<longleftrightarrow> is_running (impl h i) \<and> timeout (impl h i) > cur_time h + 1"
    "\<forall>i < length (timer_list h). timeout (impl ?h i) = timeout (impl h i)"
    by (auto simp: after_due_def impl_def retire_def is_due_def is_running_def not_le)
  ultimately show ?thesis
    using fired unfolding is_due_def by (intro exI [of _ ?h] exI [of _ fired]) simp
qed

theorem reachable_step_all_witness:
  "\<exists>h'. step_all (quiet_exec (\<lambda>c i s. s + (1::nat)))
      (timer_run_op 0 (snd (timer_set_callback 0 1 () (snd (get_unique_timer new_timer_handler)))), 0) = Some (h', 1) \<and>
    \<not> is_running (impl h' 0) \<and> timer_reach h'"
proof -
  let ?h = "timer_run_op 0 (snd (timer_set_callback 0 1 () (snd (get_unique_timer new_timer_handler))))"
  have len: "length (timer_list (snd (get_unique_timer (new_timer_handler :: unit timer_handler)))) = 1"
    by (simp add: get_unique_timer_def new_timer_handler_def)
  have eq: "?h = timer_run_op 0 (sample_handler 0 1)"
    by (simp add: timer_set_callback_def timer_set_def get_unique_timer_def new_timer_handler_def new_timer_impl_def
        impl_update_def impl_def is_running_def quarter sample_handler_def)
  have "timer_reach (snd (get_unique_timer (new_timer_handler :: unit timer_handler)))"
    by (intro timer_reach.get timer_reach.init) (simp add: new_timer_handler_def)
  then have "timer_reach (snd (timer_set_callback 0 1 () (snd (get_unique_timer new_timer_handler))))"
    using len by (intro timer_reach.set_callback) (simp_all add: quarter flip: length_greater_0_conv)
  then have "timer_reach ?h"
    by (rule timer_reach.run) (simp add: timer_set_callback_def timer_set_def get_unique_timer_def new_timer_handler_def
        new_timer_impl_def impl_update_def impl_def is_running_def quarter)
  have one: "fired = [0]" if "distinct fired" "set fired = {0}" for fired :: "nat list"
  proof -
    have "length fired = Suc 0" using distinct_card [OF that(1)] that(2) by simp
    then obtain x where "fired = [x]" by (auto simp: length_Suc_conv)
    with that(2) show ?thesis by simp
  qed
  have h: "timer_list ?h = [\<lparr>duration = 1, timeout = 1, running = True, timer_active = True, callback = Some ()\<rparr>]" "cur_time ?h = 0"
    unfolding eq by (simp_all add: sample_handler_def timer_run_op_def impl_update_def impl_def Let_def)
  then have due: "{i. i < length (timer_list ?h) \<and> is_running (impl ?h i) \<and> timeout (impl ?h i) \<le> cur_time ?h + 1} = {0}"
    by (auto simp: impl_def is_running_def)
  obtain h' fired where "step_all (quiet_exec (\<lambda>c i s. s + (1::nat))) (?h, 0) =
      Some (h', foldl (\<lambda>s i. case callback (impl ?h i) of None \<Rightarrow> s | Some c \<Rightarrow> s + 1) 0 fired)"
      "distinct fired" "set fired = {0}" "cur_time h' = cur_time ?h + 1"
      and run: "\<forall>i < length (timer_list ?h). is_running (impl h' i) \<longleftrightarrow> is_running (impl ?h i) \<and> timeout (impl ?h i) > cur_time ?h + 1"
      and "in_time h' \<longrightarrow> timer_reach h'"
    using reachable_step_all [OF \<open>timer_reach ?h\<close>, of "\<lambda>c i s. s + (1::nat)" 0] unfolding due by blast
  moreover have "fired = [0]" by (rule one) fact+
  moreover have "\<not> is_running (impl h' 0)" using run h by (simp add: impl_def)
  moreover have "callback (impl ?h 0) = Some ()" using h(1) by (simp add: impl_def)
  moreover have "in_time h'" using \<open>cur_time h' = cur_time ?h + 1\<close> h(2) by (simp add: in_time_def)
  ultimately show ?thesis by auto
qed

text \<open>C37. \<open>operator<\<close> accounts for the wrap of the clock but the loop of \<open>step_all\<close> compares
  \<open>cur_time >= timeout\<close>: a timer whose timeout lies beyond the wrap fires in the very next step, however
  long its duration.\<close>

theorem timer_fires_early_at_wrap:
  assumes "running_timers h = []" "i < length (timer_list h)" "length (timer_list h) < 2 ^ 32"
    and "timer_active (impl h i)" "callback (impl h i) = Some c" "duration (impl h i) = d" "d \<le> MAX_TIMER_DURATION"
    and "unat (cur_time h) + unat d > 2 ^ 32" "unat (cur_time h) + 1 < 2 ^ 32"
  shows "\<exists>h'. step_all (quiet_exec (\<lambda>c i log. log @ [i])) (timer_run_op i h, []) = Some (h', [of_nat i]) \<and>
    unat d > 1"
proof -
  let ?exec = "quiet_exec (\<lambda>c i log. log @ [i])" and ?now = "cur_time h + 1" and ?t = "cur_time h + d"
  let ?h = "h\<lparr>timer_list := (timer_list h)[i := (impl h i)\<lparr>timeout := ?t, running := True\<rparr>],
              running_timers := [\<lparr>run_timer_id = of_nat i, run_timeout = ?t\<rparr>], cur_time := ?now\<rparr>"
  have i: "unat (of_nat i :: u32) = i" using assms(2,3) by (simp add: unat_of_nat_u32)
  have now: "unat ?now = unat (cur_time h) + 1" using assms(9) by (simp add: unat_word_ariths)
  have "unat d \<le> 0x3FFFFFFF" using assms(7) by (simp add: quarter word_le_nat_alt)
  moreover have "unat d < 2 ^ 32" "unat (cur_time h) < 2 ^ 32"
    using unsigned_less [of d] unsigned_less [of "cur_time h"] by simp_all
  ultimately have "unat ?t = unat (cur_time h) + unat d - 2 ^ 32" "unat ?t \<le> unat ?now"
    using assms(8) now by (simp_all add: unat_plus_if')
  then have t: "0 < ?t" "?t \<le> ?now" using assms(8) by (simp_all add: word_less_nat_alt word_le_nat_alt)
  have start: "(timer_run_op i h)\<lparr>cur_time := ?now\<rparr> = ?h"
    using assms(1,2,4,6) by (simp add: timer_run_op_def impl_update_def impl_def pq_push_def Let_def)
  have "step_all ?exec (timer_run_op i h, []) = run_due ?exec (?h, [])"
    using start assms(2,4) by (simp add: step_all_def timer_run_op_def Let_def)
  also have "\<dots> = run_due ?exec (handle_top ?exec (?h, []))"
    using t by (intro run_due_unfold) (simp add: due_now_def)
  also have "\<exists>h'. handle_top ?exec (?h, []) = (h', [of_nat i]) \<and> running_timers h' = []"
    using assms(2,4,5) t
    by (auto simp: handle_top_def trigger_def quiet_exec_def impl_update_def impl_def pq_pop_def is_running_def i Let_def)
  then obtain h' where "handle_top ?exec (?h, []) = (h', [of_nat i])" "running_timers h' = []" by blast
  then have "run_due ?exec (handle_top ?exec (?h, [])) = Some (h', [of_nat i])"
    by (subst run_due.simps) (simp add: due_now_def)
  finally show ?thesis using assms(8,9) by auto
qed

theorem timer_fires_early_at_wrap_witness:
  "\<exists>h'. step_all (quiet_exec (\<lambda>c i log. log @ [i])) (timer_run_op 0 (sample_handler 0xFFFFFFFE 1000), []) = Some (h', [0])"
  using timer_fires_early_at_wrap [of "sample_handler 0xFFFFFFFE 1000" 0 "()" 1000]
  by (auto simp: sample_handler_simps quarter)

text \<open>C38. A callback that starts its timer again with duration 0 keeps \<open>step_all\<close> from returning: each round of
  the loop pushes an entry that is due at once.\<close>

theorem zero_duration_rearm_loops:
  assumes "running_timers h = []" "i < length (timer_list h)" "length (timer_list h) < 2 ^ 32"
    and "timer_active (impl h i)" "callback (impl h i) = Some c" "duration (impl h i) = 0"
    and "0 < unat (cur_time h)" "unat (cur_time h) + 1 < 2 ^ 32"
  shows "step_all (\<lambda>c i (h, s). (timer_run_op (unat i) h, s)) (timer_run_op i h, s) = None"
proof -
  let ?exec = "\<lambda>c i (h, s). (timer_run_op (unat i) h, s)" and ?now = "cur_time h + 1"
  let ?e = "\<lambda>t. \<lparr>run_timer_id = of_nat i, run_timeout = t\<rparr> :: timer_run"
  let ?h = "\<lambda>t. h\<lparr>timer_list := (timer_list h)[i := (impl h i)\<lparr>timeout := t, running := True\<rparr>],
                  running_timers := [?e t], cur_time := ?now\<rparr>"
  have i: "unat (of_nat i :: u32) = i" using assms(2,3) by (simp add: unat_of_nat_u32)
  have now: "unat ?now = unat (cur_time h) + 1" using assms(8) by (simp add: unat_word_ariths)
  have pos: "0 < ?now" "0 < cur_time h" "cur_time h \<le> ?now" "\<not> ?now < cur_time h"
    using now assms(7) by (simp_all add: word_less_nat_alt word_le_nat_alt)
  have start: "(timer_run_op i h)\<lparr>cur_time := ?now\<rparr> = ?h (cur_time h)"
    using assms(1,2,4,6) by (simp add: timer_run_op_def impl_update_def impl_def pq_push_def Let_def)
  have less: "\<not> run_less (?e (cur_time h)) (?e ?now)" "\<not> run_less (?e ?now) (?e ?now)"
    using pos by (simp_all add: run_less_def quarter)
  have round: "handle_top ?exec (?h t, s) = (?h ?now, s)" if t: "t = cur_time h \<or> t = ?now" for t
    using assms(2,4,5,6) t pos less
    by (auto simp: handle_top_def trigger_def timer_run_op_def impl_update_def impl_def pq_push_def pq_pop_def
        is_running_def i Let_def)
  have due: "due_now (?h t)" if "t = cur_time h \<or> t = ?now" for t
    using that pos by (auto simp: due_now_def)
  have "step_all ?exec (timer_run_op i h, s) = run_due ?exec (?h (cur_time h), s)"
    using start assms(2,4) by (simp add: step_all_def timer_run_op_def Let_def)
  also have "\<dots> = run_due ?exec (?h ?now, s)"
    using run_due_unfold [of "(?h (cur_time h), s)" ?exec] due [of "cur_time h"] round [of "cur_time h"] by simp
  also have "\<dots> = None"
    using round [of ?now] due [of ?now] by (intro run_due_stuck) simp_all
  finally show ?thesis .
qed

theorem zero_duration_rearm_loops_witness:
  "step_all (\<lambda>c i (h, s). (timer_run_op (unat i) h, s)) (timer_run_op 0 (sample_handler 5 0), ()) = None"
  using zero_duration_rearm_loops [of "sample_handler 5 0" 0 "()"] by (simp add: sample_handler_simps)

text \<open>C39. \<open>clear\<close> keeps the timeout of an expired timer and \<open>get_unique_timer\<close> does not reset it: the next owner of
  the slot gets a timer that was never started, has no callback, and reports that it has expired.\<close>

theorem reused_timer_is_expired:
  assumes "i < length (timer_list h)" "\<forall>j < i. timer_active (impl h j)" "is_expired (cur_time h) (impl h i)"
  shows "\<exists>h'. get_unique_timer (timer_clear i h) = (i, h') \<and> is_expired (cur_time h') (impl h' i) \<and>
    callback (impl h' i) = None"
proof -
  let ?h = "timer_clear i h"
  have c: "timer_list ?h = (timer_list h)[i := (impl h i)\<lparr>running := False, duration := 0, timer_active := False, callback := None\<rparr>]"
      "cur_time ?h = cur_time h"
    using assms(1,3) by (simp_all add: timer_clear_def timer_stop_def is_expired_def impl_update_def impl_def Let_def)
  have "first_inactive ts = i" if "i < length ts" "\<forall>j < i. timer_active (ts ! j)" "\<not> timer_active (ts ! i)" for ts :: "'a timer_impl list"
    using that
  proof (induction ts arbitrary: i)
    case (Cons t ts)
    then show ?case by (cases i) (auto simp: All_less_Suc2)
  qed simp
  then have "first_inactive (timer_list ?h) = i"
    using assms(1,2) by (simp add: c impl_def)
  then show ?thesis
    using assms(1,3) by (simp add: get_unique_timer_def c impl_update_def impl_def is_expired_def Let_def)
qed

theorem reused_timer_is_expired_witness:
  "\<exists>h'. get_unique_timer (timer_clear 0 ((sample_handler 9 5)\<lparr>timer_list := [\<lparr>duration = 5, timeout = 8, running = False,
      timer_active = True, callback = Some ()\<rparr>]\<rparr>)) = (0, h') \<and> is_expired (cur_time h') (impl h' 0)"
  using reused_timer_is_expired [of 0 "(sample_handler 9 5)\<lparr>timer_list := [\<lparr>duration = 5, timeout = 8, running = False,
      timer_active = True, callback = Some ()\<rparr>]\<rparr>"]
  by (auto simp: sample_handler_def impl_def is_expired_def)

end
