(* ===== verification/Pdcp_Nr.thy ===== *)
theory Pdcp_Nr
  imports Pdcp_Lte Timers
begin

text \<open>
  The PDCP entity of 5G NR, \<open>lib/src/upper/pdcp_entity_nr.cc\<close> and \<open>pdcp_entity_nr.h\<close>, together with the
  timers it starts: the state of the model is the timer service, whose callbacks are those of the entity,
  and the entity. \<open>std::map\<close> is an association list sorted by its keys. The array \<open>mac\<close> that \<open>write_sdu\<close> and
  \<open>write_pdu\<close> declare without initialising it is an argument, \<open>mac0\<close>. What the entity hands to RLC, RRC
  and GW is returned as a list of \<open>nr_out\<close>.

  Lemmas: the reconstruction of the COUNT, the reordering queue and the order of delivery, the bytes of a PDU,
  the reordering timer, a series of SDUs through \<open>write_sdu\<close> and of PDUs through \<open>write_pdu\<close>. The properties rest
  on them.
\<close>

section \<open>State\<close>

datatype nr_callback = reordering_callback | discard_callback u32

datatype nr_out = To_RLC u32 byte_buffer | To_upper delivery | RLC_discard u32 u32

record pdcp_entity_nr = pdcp_entity_base +
  initialized :: bool
  tx_next :: u32
  rx_next :: u32
  rx_deliv :: u32
  rx_reord :: u32
  window_size :: u32
  reorder_queue :: "(u32 \<times> byte_buffer) list"
  reordering_timer :: unique_timer
  discard_timers_map :: "(u32 \<times> nat) list"
  tx_overflow :: bool
  rx_overflow :: bool

type_synonym nr_state = "nr_callback timer_handler \<times> pdcp_entity_nr"

definition new_pdcp_entity_nr :: pdcp_entity_nr where
  "new_pdcp_entity_nr =
     pdcp_entity_base.extend pdcp_entity_base_init
       \<lparr>initialized = False, tx_next = 0, rx_next = 0, rx_deliv = 0, rx_reord = 0, window_size = 0,
        reorder_queue = [], reordering_timer = None, discard_timers_map = [],
        tx_overflow = False, rx_overflow = False\<rparr>"

definition nr_init :: "u32 \<Rightarrow> pdcp_config_t \<Rightarrow> nr_state \<Rightarrow> nr_state" where
  "nr_init lcid' cfg' = (\<lambda>(h, e).
     let e = e\<lparr>lcid := lcid', pcfg := cfg', active := True, do_integrity := False, do_encryption := False,
               window_size := shl 1 (unat (sn_len cfg') - 1)\<rparr>;
         (i, h) = get_unique_timer h;
         e = e\<lparr>reordering_timer := fst (unique_timer_assign (reordering_timer e) (Some i))\<rparr>;
         h = (if t_reordering_ms (t_reordering cfg') > 0
              then snd (timer_set_callback i (t_reordering_ms (t_reordering cfg')) reordering_callback h) else h)
     in (h, e\<lparr>initialized := True\<rparr>))"

definition nr_reestablish :: "pdcp_entity_nr \<Rightarrow> pdcp_entity_nr" where
  "nr_reestablish e = e"

definition nr_reset :: "pdcp_entity_nr \<Rightarrow> pdcp_entity_nr" where
  "nr_reset e = e\<lparr>active := False\<rparr>"

definition set_tx_next :: "u32 \<Rightarrow> pdcp_entity_nr \<Rightarrow> pdcp_entity_nr" where "set_tx_next n e = e\<lparr>tx_next := n\<rparr>"
definition set_rx_next :: "u32 \<Rightarrow> pdcp_entity_nr \<Rightarrow> pdcp_entity_nr" where "set_rx_next n e = e\<lparr>rx_next := n\<rparr>"
definition set_rx_deliv :: "u32 \<Rightarrow> pdcp_entity_nr \<Rightarrow> pdcp_entity_nr" where "set_rx_deliv n e = e\<lparr>rx_deliv := n\<rparr>"
definition set_rx_reord :: "u32 \<Rightarrow> pdcp_entity_nr \<Rightarrow> pdcp_entity_nr" where "set_rx_reord n e = e\<lparr>rx_reord := n\<rparr>"

definition nof_discard_timers :: "pdcp_entity_nr \<Rightarrow> u32" where
  "nof_discard_timers e = of_nat (length (discard_timers_map e))"

section \<open>Packing and unpacking\<close>

definition read_data_header :: "pdcp_entity_nr \<Rightarrow> byte_buffer \<Rightarrow> u32 \<times> byte_buffer" where
  "read_data_header e pdu =
     (let n = u32_of (hdr_len_bytes (pcfg e))
      in if N_bytes pdu \<le> n then (0, pdu)
         else
           let rcvd_sn = (if sn_len (pcfg e) = PDCP_SN_LEN_12 then pdcp_SN e (u32_of (uint8_to_uint16 (buf_read pdu 0 2)))
                          else if sn_len (pcfg e) = PDCP_SN_LEN_18 then pdcp_SN e (uint8_to_uint24 (buf_read pdu 0 3))
                          else 0)
           in (rcvd_sn, pdu\<lparr>msg_ptr := msg_ptr pdu + uint n, N_bytes := N_bytes pdu - n\<rparr>))"

definition write_data_header :: "pdcp_entity_nr \<Rightarrow> byte_buffer \<Rightarrow> u32 \<Rightarrow> byte_buffer" where
  "write_data_header e sdu count =
     (let n = u32_of (hdr_len_bytes (pcfg e))
      in if n > get_headroom sdu then sdu
         else
           let sdu = sdu\<lparr>msg_ptr := msg_ptr sdu - uint n, N_bytes := N_bytes sdu + n\<rparr>;
               set_D = (\<lambda>sdu. buf_set sdu 0 (buf_get sdu 0 OR 0x80))
           in if sn_len (pcfg e) = PDCP_SN_LEN_12
              then let sdu = buf_write sdu 0 (uint16_to_uint8 (u16_of (pdcp_SN e count)))
                   in if is_drb e then set_D sdu else sdu
              else if sn_len (pcfg e) = PDCP_SN_LEN_18
              then set_D (buf_write sdu 0 (uint24_to_uint8 (pdcp_SN e count)))
              else sdu)"

definition extract_mac :: "byte_buffer \<Rightarrow> u8 list \<Rightarrow> u8 list \<times> byte_buffer" where
  "extract_mac pdu mac =
     (if N_bytes pdu < 4 then (mac, pdu)
      else (buf_read pdu (uint (N_bytes pdu - 4)) 4, pdu\<lparr>N_bytes := N_bytes pdu - 4\<rparr>))"

definition append_mac :: "byte_buffer \<Rightarrow> u8 list \<Rightarrow> byte_buffer" where
  "append_mac sdu mac = (if N_bytes sdu + 4 > get_tailroom sdu then sdu else append_bytes sdu mac 4)"

section \<open>Transmission\<close>

definition nr_start_discard_timer :: "nr_state \<Rightarrow> nr_state" where
  "nr_start_discard_timer = (\<lambda>(h, e).
     if discard_timer (pcfg e) = td_infinity then (h, e)
     else
       let (i, h) = get_unique_timer h;
           h = snd (timer_set_callback i (discard_timer_ms (discard_timer (pcfg e))) (discard_callback (tx_next e)) h);
           h = timer_run_op i h
       in if tx_next e \<in> fst ` set (discard_timers_map e) then (unique_timer_destroy (Some i) h, e)
          else (h, e\<lparr>discard_timers_map := (tx_next e, i) # discard_timers_map e\<rparr>))"

definition nr_write_sdu :: "crypto_lib \<Rightarrow> u8 list \<Rightarrow> nr_state \<Rightarrow> byte_buffer \<Rightarrow> (nr_state \<times> nr_out list) option" where
  "nr_write_sdu L mac0 = (\<lambda>(h, e) sdu.
     if \<not> initialized e then Some ((h, e), [])
     else if tx_overflow e then Some ((h, e), [])
     else do {
       let e = (if tx_next e + 1 = 0 then e\<lparr>tx_overflow := True\<rparr> else e);
       let (h, e) = nr_start_discard_timer (h, e);
       mac \<leftarrow> integrity_generate L e (bytes sdu) (N_bytes sdu) (tx_next e) mac0;
       sdu \<leftarrow> in_place (cipher_encrypt L e) sdu 0 (N_bytes sdu) (tx_next e);
       let sdu = write_data_header e sdu (tx_next e);
       let sdu = append_mac sdu mac;
       Some ((h, e\<lparr>tx_next := tx_next e + 1\<rparr>), [To_RLC (lcid e) sdu])
     })"

section \<open>Reception\<close>

definition pass_to_upper_layers :: "pdcp_entity_nr \<Rightarrow> byte_buffer \<Rightarrow> nr_out" where
  "pass_to_upper_layers e sdu = To_upper (if is_srb e then To_RRC (lcid e) sdu else To_GW (lcid e) sdu)"

fun consecutive :: "(u32 \<times> byte_buffer) list \<Rightarrow> u32 \<Rightarrow> bool
    \<Rightarrow> byte_buffer list \<times> (u32 \<times> byte_buffer) list \<times> u32 \<times> bool" where
  "consecutive [] d ov = ([], [], d, ov)"
| "consecutive ((c, b) # q) d ov =
     (if c \<noteq> d then ([], (c, b) # q, d, ov)
      else if ov then ([], (c, b) # q, d, ov)
      else let (out, q', d', ov') = consecutive q (d + 1) (d + 1 = 0) in (b # out, q', d', ov'))"

definition deliver_all_consecutive_counts :: "pdcp_entity_nr \<Rightarrow> pdcp_entity_nr \<times> nr_out list" where
  "deliver_all_consecutive_counts e =
     (let (out, q, d, ov) = consecutive (reorder_queue e) (rx_deliv e) (rx_overflow e)
      in (e\<lparr>reorder_queue := q, rx_deliv := d, rx_overflow := ov\<rparr>, map (pass_to_upper_layers e) out))"

definition nr_rcvd_count :: "pdcp_entity_nr \<Rightarrow> u32 \<Rightarrow> u32" where
  "nr_rcvd_count e rcvd_sn =
     (let d = rx_deliv e;
          rcvd_hfn = (if uint rcvd_sn < uint (pdcp_SN e d) - uint (window_size e) then pdcp_HFN e d + 1
                      else if rcvd_sn \<ge> pdcp_SN e d + window_size e then pdcp_HFN e d - 1
                      else pdcp_HFN e d)
      in pdcp_COUNT e rcvd_hfn rcvd_sn)"

fun queue_insert :: "u32 \<Rightarrow> 'b \<Rightarrow> (u32 \<times> 'b) list \<Rightarrow> (u32 \<times> 'b) list" where
  "queue_insert c b [] = [(c, b)]"
| "queue_insert c b ((c', b') # q) = (if c < c' then (c, b) # (c', b') # q else (c', b') # queue_insert c b q)"

text \<open>From the check of the COUNT to the delivery of what has become consecutive.\<close>

definition nr_accept :: "u32 \<Rightarrow> byte_buffer \<Rightarrow> pdcp_entity_nr \<Rightarrow> (pdcp_entity_nr \<times> nr_out list) option" where
  "nr_accept rcvd_count pdu e =
     (if rcvd_count < rx_deliv e then None
      else if rcvd_count \<in> fst ` set (reorder_queue e) then None
      else
        let e = e\<lparr>reorder_queue := queue_insert rcvd_count pdu (reorder_queue e)\<rparr>;
            e = (if rcvd_count \<ge> rx_next e then e\<lparr>rx_next := rcvd_count + 1\<rparr> else e)
        in Some (if rcvd_count = rx_deliv e then deliver_all_consecutive_counts e else (e, [])))"

definition handle_reordering_timer :: "nat \<Rightarrow> nr_state \<Rightarrow> nr_state" where
  "handle_reordering_timer i = (\<lambda>(h, e).
     let h = (if is_running (impl h i) \<and> rx_deliv e \<ge> rx_reord e then timer_stop i h else h)
     in if \<not> is_running (impl h i) \<and> rx_deliv e < rx_next e
        then (timer_run_op i h, e\<lparr>rx_reord := rx_next e\<rparr>) else (h, e))"

definition nr_write_pdu :: "crypto_lib \<Rightarrow> u8 list \<Rightarrow> nr_state \<Rightarrow> byte_buffer \<Rightarrow> (nr_state \<times> nr_out list) option" where
  "nr_write_pdu L mac0 = (\<lambda>(h, e) pdu.
     if \<not> initialized e then Some ((h, e), [])
     else if N_bytes pdu \<le> u32_of (hdr_len_bytes (pcfg e)) then Some ((h, e), [])
     else do {
       let (rcvd_sn, pdu) = read_data_header e pdu;
       let (mac, pdu) = extract_mac pdu mac0;
       let rcvd_count = nr_rcvd_count e rcvd_sn;
       pdu \<leftarrow> in_place (cipher_decrypt L e) pdu 0 (N_bytes pdu) rcvd_count;
       is_valid \<leftarrow> integrity_verify L e (bytes pdu) (N_bytes pdu) rcvd_count mac;
       if \<not> is_valid then Some ((h, e), [])
       else case nr_accept rcvd_count pdu e of
           None \<Rightarrow> Some ((h, e), [])
         | Some (e, out) \<Rightarrow>
             (case reordering_timer e of
                None \<Rightarrow> None
              | Some i \<Rightarrow> Some (handle_reordering_timer i (h, e), out))
     })"

section \<open>Timer callbacks\<close>

definition reordering_expired :: "nr_state \<Rightarrow> nr_state \<times> nr_out list" where
  "reordering_expired = (\<lambda>(h, e).
     let before = takeWhile (\<lambda>(c, b). c < rx_reord e) (reorder_queue e);
         e = e\<lparr>reorder_queue := dropWhile (\<lambda>(c, b). c < rx_reord e) (reorder_queue e)\<rparr>;
         (e, out) = deliver_all_consecutive_counts e;
         out = map (pass_to_upper_layers e \<circ> snd) before @ out
     in if rx_deliv e < rx_next e
        then ((case reordering_timer e of Some i \<Rightarrow> timer_run_op i h | None \<Rightarrow> h, e\<lparr>rx_reord := rx_next e\<rparr>), out)
        else ((h, e), out))"

definition discard_expired :: "u32 \<Rightarrow> nr_state \<Rightarrow> nr_state \<times> nr_out list" where
  "discard_expired discard_sn = (\<lambda>(h, e).
     ((unique_timer_destroy (map_of (discard_timers_map e) discard_sn) h,
       e\<lparr>discard_timers_map := filter (\<lambda>(c, _). c \<noteq> discard_sn) (discard_timers_map e)\<rparr>),
      [RLC_discard (lcid e) discard_sn]))"

fun nr_exec :: "(nr_callback, pdcp_entity_nr \<times> nr_out list) exec" where
  "nr_exec reordering_callback timer_id (h, e, out) =
     (let ((h, e), out') = reordering_expired (h, e) in (h, e, out @ out'))"
| "nr_exec (discard_callback sn) timer_id (h, e, out) =
     (let ((h, e), out') = discard_expired sn (h, e) in (h, e, out @ out'))"

definition nr_tick :: "nr_state \<Rightarrow> (nr_state \<times> nr_out list) option" where
  "nr_tick = (\<lambda>(h, e). map_option (\<lambda>(h, e, out). ((h, e), out)) (step_all nr_exec (h, e, [])))"

definition nr_config :: "pdcp_entity_nr \<Rightarrow> bool" where
  "nr_config e \<longleftrightarrow>
     (sn_len (pcfg e) = 12 \<and> hdr_len_bytes (pcfg e) = 2 \<and> window_size e = 2048 \<or>
      sn_len (pcfg e) = 18 \<and> hdr_len_bytes (pcfg e) = 3 \<and> window_size e = 131072)"

lemma nr_config_window:
  assumes "nr_config e"
  shows "2 ^ unat (sn_len (pcfg e)) = 2 * unat (window_size e)" "unat (sn_len (pcfg e)) \<le> 18"
    "0 < unat (window_size e)" "unat (window_size e) \<le> 131072"
  using assms by (auto simp: nr_config_def)

text \<open>The three cases of the reconstruction, as a statement on numbers.\<close>

lemma window_cases:
  fixes D C s t w :: nat
  assumes "s < 2 * w" "t < 2 * w" "D * (2 * w) + s \<le> C * (2 * w) + t + w" "C * (2 * w) + t < D * (2 * w) + s + w"
  shows "C = (if t + w < s then D + 1 else if s + w \<le> t then D - 1 else D)" and "s + w \<le> t \<Longrightarrow> 0 < D"
proof -
  have "C < D + 2"
  proof (rule ccontr)
    assume "\<not> C < D + 2"
    then have "(D + 2) * (2 * w) \<le> C * (2 * w)" by (intro mult_le_mono1) simp
    with assms show False by (simp add: algebra_simps)
  qed
  moreover have "D < C + 2"
  proof (rule ccontr)
    assume "\<not> D < C + 2"
    then have "(C + 2) * (2 * w) \<le> D * (2 * w)" by (intro mult_le_mono1) simp
    with assms show False by (simp add: algebra_simps)
  qed
  ultimately have "C = D \<or> C = D + 1 \<or> D = C + 1" by linarith
  then show "C = (if t + w < s then D + 1 else if s + w \<le> t then D - 1 else D)" "s + w \<le> t \<Longrightarrow> 0 < D"
    using assms by (auto simp: algebra_simps)
qed

lemma nr_rcvd_count_in_window:
  assumes "nr_config e"
    and "unat (rx_deliv e) \<le> unat c + unat (window_size e)" "unat c < unat (rx_deliv e) + unat (window_size e)"
  shows "nr_rcvd_count e (pdcp_SN e c) = c"
proof -
  let ?w = "unat (window_size e)" and ?m = "2 ^ unat (sn_len (pcfg e)) :: nat"
  define D s C t where "D = unat (rx_deliv e) div ?m" and "s = unat (rx_deliv e) mod ?m"
    and "C = unat c div ?m" and "t = unat c mod ?m"
  note m = nr_config_window [OF assms(1)]
  have sn: "unat (pdcp_SN e (rx_deliv e)) = s" "unat (pdcp_SN e c) = t"
    using m(2) by (simp_all add: unat_SN s_def t_def)
  have hfn: "unat (pdcp_HFN e (rx_deliv e)) = D" by (simp add: unat_HFN D_def)
  have eq: "unat (rx_deliv e) = D * (2 * ?w) + s" "unat c = C * (2 * ?w) + t" "s < 2 * ?w" "t < 2 * ?w"
    unfolding m(1) [symmetric] D_def s_def C_def t_def by (simp_all only: div_mult_mod_eq) simp_all
  note cases = window_cases [OF eq(3,4) assms(2) [unfolded eq(1,2)] assms(3) [unfolded eq(1,2)]]
  have D32: "D * (2 * ?w) < 2 ^ 32" using eq(1) unat_u32_less [of "rx_deliv e"] by linarith
  moreover have "1 \<le> 2 * ?w" using m(3) by simp
  ultimately have "D < 2 ^ 32" by (metis le_less_trans mult.right_neutral mult_le_mono2)
  have c1: "uint (pdcp_SN e c) < uint (pdcp_SN e (rx_deliv e)) - uint (window_size e) \<longleftrightarrow> t + ?w < s"
    unfolding uint_nat sn by linarith
  have "unat (pdcp_SN e (rx_deliv e) + window_size e) = s + ?w"
    using m(4) eq(3) by (simp add: unat_word_ariths sn)
  then have c2: "pdcp_SN e c \<ge> pdcp_SN e (rx_deliv e) + window_size e \<longleftrightarrow> s + ?w \<le> t"
    by (simp add: word_le_nat_alt sn)
  define h where "h = (if uint (pdcp_SN e c) < uint (pdcp_SN e (rx_deliv e)) - uint (window_size e) then pdcp_HFN e (rx_deliv e) + 1
                      else if pdcp_SN e c \<ge> pdcp_SN e (rx_deliv e) + window_size e then pdcp_HFN e (rx_deliv e) - 1
                      else pdcp_HFN e (rx_deliv e))"
  have c32: "C * (2 * ?w) < 2 ^ 32" using eq(2) unat_u32_less [of c] by linarith
  then have "C < 2 ^ 32" using \<open>1 \<le> 2 * ?w\<close> by (metis le_less_trans mult.right_neutral mult_le_mono2)
  have h: "unat h = C"
    unfolding h_def c1 c2
    using cases hfn \<open>C < 2 ^ 32\<close> \<open>D < 2 ^ 32\<close>
    by (auto simp: unat_word_ariths unat_minus_one unat_gt_0)
  have "unat (pdcp_COUNT e h (pdcp_SN e c)) = unat c"
    using sn(2) eq(2,4) c32 by (subst unat_COUNT) (simp_all add: m(1) h mult.commute)
  then show ?thesis by (simp add: nr_rcvd_count_def Let_def h_def word_unat_eq_iff)
qed


section \<open>Delivery\<close>

text \<open>Entries of the queue for the COUNT values \<open>xs\<close>, the SDU of COUNT \<open>n\<close> being \<open>f n\<close>.\<close>

abbreviation entries :: "(nat \<Rightarrow> 'b) \<Rightarrow> nat list \<Rightarrow> (u32 \<times> 'b) list" where
  "entries f xs \<equiv> map (\<lambda>n. (of_nat n, f n)) xs"

lemma of_nat_u32_less: "n < 2 ^ 32 \<Longrightarrow> m < 2 ^ 32 \<Longrightarrow> (of_nat n :: u32) < of_nat m \<longleftrightarrow> n < m"
  by (simp add: word_less_nat_alt unat_of_nat_u32)

lemma of_nat_u32_eq: "n < 2 ^ 32 \<Longrightarrow> m < 2 ^ 32 \<Longrightarrow> (of_nat n :: u32) = of_nat m \<longleftrightarrow> n = m"
  by (metis unat_of_nat_u32)

lemma queue_insert_entries:
  assumes "sorted_wrt (<) xs" "\<forall>x \<in> set xs. x < 2 ^ 32" "n < 2 ^ 32" "n \<notin> set xs"
  shows "\<exists>ys. queue_insert (of_nat n) (f n) (entries f xs) = entries f ys \<and> sorted_wrt (<) ys \<and> set ys = insert n (set xs)"
  using assms
proof (induction xs)
  case (Cons x xs)
  then obtain ys where ys: "queue_insert (of_nat n) (f n) (entries f xs) = entries f ys" "sorted_wrt (<) ys"
    "set ys = insert n (set xs)" by auto
  show ?case
  proof (cases "n < x")
    case True
    then show ?thesis
      using Cons.prems by (intro exI [of _ "n # x # xs"]) (auto simp: of_nat_u32_less)
  next
    case False
    then show ?thesis
      using Cons.prems ys by (intro exI [of _ "x # ys"]) (auto simp: of_nat_u32_less)
  qed
qed (intro exI [of _ "[n]"], simp)

lemma consecutive_entries:
  assumes "sorted_wrt (<) xs" "\<forall>x \<in> set xs. d \<le> x \<and> x + 1 < 2 ^ 32" "d < 2 ^ 32"
  shows "\<exists>d' ys. consecutive (entries f xs) (of_nat d) False = (map f [d..<d'], entries f ys, of_nat d', False) \<and>
    d \<le> d' \<and> d' < 2 ^ 32 \<and> sorted_wrt (<) ys \<and> set xs = {d..<d'} \<union> set ys \<and> (\<forall>y \<in> set ys. d' < y)"
  using assms
proof (induction xs arbitrary: d)
  case (Cons x xs)
  show ?case
  proof (cases "x = d")
    case False
    then show ?thesis
      using Cons.prems by (intro exI [of _ d] exI [of _ "x # xs"]) (auto simp: of_nat_u32_eq)
  next
    case True
    have "sorted_wrt (<) xs" "\<forall>y \<in> set xs. d + 1 \<le> y \<and> y + 1 < 2 ^ 32" "d + 1 < 2 ^ 32"
      using Cons.prems True by auto
    from Cons.IH [OF this] obtain d' ys where IH:
      "consecutive (entries f xs) (of_nat (d + 1)) False = (map f [d + 1..<d'], entries f ys, of_nat d', False)"
      "d + 1 \<le> d'" "d' < 2 ^ 32" "sorted_wrt (<) ys" "set xs = {d + 1..<d'} \<union> set ys" "\<forall>y \<in> set ys. d' < y" by blast
    have "(of_nat d + 1 :: u32) \<noteq> 0"
      using of_nat_u32_eq [of "d + 1" 0] \<open>d + 1 < 2 ^ 32\<close> by (simp add: add.commute)
    then show ?thesis
      using IH True by (intro exI [of _ d'] exI [of _ ys]) (auto simp: upt_conv_Cons add.commute)
  qed
qed auto

text \<open>The entity waits for COUNT \<open>d\<close> and holds back the SDUs \<open>xs\<close>, all later than \<open>d\<close>.\<close>

definition nr_waits :: "(nat \<Rightarrow> byte_buffer) \<Rightarrow> nat \<Rightarrow> nat list \<Rightarrow> pdcp_entity_nr \<Rightarrow> bool" where
  "nr_waits f d xs e \<longleftrightarrow>
     reorder_queue e = entries f xs \<and> sorted_wrt (<) xs \<and> (\<forall>x \<in> set xs. d < x \<and> x + 1 < 2 ^ 32) \<and>
     rx_deliv e = of_nat d \<and> d < 2 ^ 32 \<and> \<not> rx_overflow e"

lemma nr_waits_keys:
  assumes "nr_waits f d xs e" "n + 1 < 2 ^ 32"
  shows "of_nat n \<in> fst ` set (reorder_queue e) \<longleftrightarrow> n \<in> set xs" "of_nat n < rx_deliv e \<longleftrightarrow> n < d"
proof -
  have "fst ` set (reorder_queue e) = of_nat ` set xs" using assms(1) by (auto simp: nr_waits_def image_iff)
  moreover have "(of_nat n :: u32) = of_nat x \<longleftrightarrow> n = x" if "x \<in> set xs" for x
    using that assms by (intro of_nat_u32_eq) (auto simp: nr_waits_def)
  ultimately show "of_nat n \<in> fst ` set (reorder_queue e) \<longleftrightarrow> n \<in> set xs" by (auto simp: image_iff)
  show "of_nat n < rx_deliv e \<longleftrightarrow> n < d" using assms by (simp add: nr_waits_def of_nat_u32_less)
qed

lemma nr_accept_drop:
  assumes "nr_waits f d xs e" "n + 1 < 2 ^ 32" "n < d \<or> n \<in> set xs"
  shows "nr_accept (of_nat n) b e = None"
  using assms(3) nr_waits_keys [OF assms(1,2)] by (auto simp: nr_accept_def)

lemma nr_accept_keep:
  assumes "nr_waits f d xs e" "n + 1 < 2 ^ 32" "d \<le> n" "n \<notin> set xs"
  shows "\<exists>e' d' ys. nr_accept (of_nat n) (f n) e = Some (e', map (pass_to_upper_layers e \<circ> f) [d..<d']) \<and>
    nr_waits f d' ys e' \<and> d \<le> d' \<and> insert n (set xs) = {d..<d'} \<union> set ys \<and>
    pass_to_upper_layers e' = pass_to_upper_layers e"
proof -
  note w = assms(1) [unfolded nr_waits_def]
  have xs: "sorted_wrt (<) xs" "\<forall>x \<in> set xs. x < 2 ^ 32" "n < 2 ^ 32" "\<forall>x \<in> set xs. d < x \<and> x + 1 < 2 ^ 32"
    using w assms(2) by auto
  obtain ys where ys: "queue_insert (of_nat n) (f n) (entries f xs) = entries f ys" "sorted_wrt (<) ys"
    "set ys = insert n (set xs)"
    using queue_insert_entries [OF xs(1-3) assms(4), of f] by blast
  define e1 where "e1 = (if of_nat n \<ge> rx_next e then e\<lparr>reorder_queue := entries f ys, rx_next := of_nat n + 1\<rparr>
              else e\<lparr>reorder_queue := entries f ys\<rparr>)"
  have e1: "rx_deliv e1 = of_nat d" "rx_overflow e1 = False" "reorder_queue e1 = entries f ys"
    "pass_to_upper_layers e1 = pass_to_upper_layers e"
    using w by (auto simp: e1_def pass_to_upper_layers_def is_srb_def fun_eq_iff)
  have eq: "(of_nat n :: u32) = of_nat d \<longleftrightarrow> n = d" using w assms(2) by (simp add: of_nat_u32_eq)
  have acc: "nr_accept (of_nat n) (f n) e = Some (if n = d then deliver_all_consecutive_counts e1 else (e1, []))"
    using nr_waits_keys [OF assms(1,2)] assms(3,4) ys(1) w
    by (cases "n = d"; cases "rx_next e \<le> of_nat n") (simp_all add: nr_accept_def e1_def eq)
  show ?thesis
  proof (cases "n = d")
    case True
    have y: "\<forall>x \<in> set ys. d \<le> x \<and> x + 1 < 2 ^ 32" using xs(4) ys(3) True assms(2) by auto
    obtain d' zs where c: "consecutive (entries f ys) (of_nat d) False = (map f [d..<d'], entries f zs, of_nat d', False)"
      "d \<le> d'" "d' < 2 ^ 32" "sorted_wrt (<) zs" "set ys = {d..<d'} \<union> set zs" "\<forall>y \<in> set zs. d' < y"
      using consecutive_entries [OF ys(2) y, of f] w by blast
    let ?e' = "e1\<lparr>reorder_queue := entries f zs, rx_deliv := of_nat d', rx_overflow := False\<rparr>"
    have "nr_accept (of_nat n) (f n) e = Some (?e', map (pass_to_upper_layers e \<circ> f) [d..<d'])"
      unfolding acc by (simp add: True deliver_all_consecutive_counts_def e1 c(1))
    moreover have "nr_waits f d' zs ?e'"
      using c(3-6) y by (simp add: nr_waits_def)
    moreover have "pass_to_upper_layers ?e' = pass_to_upper_layers e"
      unfolding e1(4) [symmetric] by (simp add: pass_to_upper_layers_def is_srb_def fun_eq_iff)
    ultimately show ?thesis using c(2,5) ys(3) by blast
  next
    case False
    have "nr_waits f d ys e1"
      using xs(4) ys(2,3) assms(2,3) False w by (simp add: nr_waits_def e1)
    moreover have "nr_accept (of_nat n) (f n) e = Some (e1, map (pass_to_upper_layers e \<circ> f) [d..<d])"
      using acc False by simp
    moreover have "insert n (set xs) = {d..<d} \<union> set ys" using ys(3) by simp
    ultimately show ?thesis using e1(4) by blast
  qed
qed

lemma nr_waits_upd:
  assumes "nr_waits f d xs e" "n \<notin> set xs"
  shows "nr_waits (f(n := b)) d xs e"
proof -
  have "entries (f(n := b)) xs = entries f xs" using assms(2) by (intro map_cong) auto
  with assms(1) show ?thesis by (simp add: nr_waits_def)
qed

text \<open>When all COUNTs from \<open>d\<close> on have come, none is held back.\<close>

lemma all_delivered:
  fixes d d' k :: nat
  assumes "{d..<d + k} = {d..<d'} \<union> set ys" "d \<le> d'" "\<forall>y \<in> set ys. d' < y"
  shows "d' = d + k" "ys = []"
proof -
  show d': "d' = d + k"
  proof (rule ccontr)
    assume ne: "d' \<noteq> d + k"
    have "\<not> d' < d + k"
    proof
      assume "d' < d + k"
      then have "d' \<in> {d..<d'} \<union> set ys" using assms(2) by (simp flip: assms(1))
      then show False using assms(3) by auto
    qed
    with ne have "d + k \<in> {d..<d'}" using assms(2) by simp
    with assms(1) have "d + k \<in> {d..<d + k}" by blast
    then show False by simp
  qed
  have sub: "set ys \<subseteq> {d..<d + k}" unfolding assms(1) by blast
  show "ys = []"
  proof (cases ys)
    case (Cons y zs)
    then have "d + k < y" "y < d + k" using assms(3) sub d' by auto
    then show ?thesis by simp
  qed
qed

section \<open>The bytes of a PDU\<close>

definition nr_header :: "pdcp_entity_nr \<Rightarrow> u32 \<Rightarrow> u8 list" where
  "nr_header e count =
     (let hs = (if sn_len (pcfg e) = 12 then uint16_to_uint8 (u16_of (pdcp_SN e count)) else uint24_to_uint8 (pdcp_SN e count))
      in if sn_len (pcfg e) = 12 \<and> \<not> is_drb e then hs else (hs ! 0 OR 0x80) # tl hs)"

definition nr_fits :: "byte_buffer \<Rightarrow> bool" where
  "nr_fits b \<longleftrightarrow> 3 \<le> msg_ptr b \<and> msg_ptr b + 2 * int (length (bytes b)) + 7 \<le> SRSLTE_MAX_BUFFER_SIZE_BYTES"

lemma length_nr_header [simp]: "nr_config e \<Longrightarrow> length (nr_header e c) = unat (hdr_len_bytes (pcfg e))"
  by (auto simp: nr_header_def nr_config_def Let_def)

lemma uint_to_uint8_nonempty [simp]: "uint16_to_uint8 i \<noteq> []" "uint24_to_uint8 j \<noteq> []"
  by (simp_all add: uint16_to_uint8_def uint24_to_uint8_def)

lemma bytes_prepend:
  assumes "unat (N_bytes b) + length hs < 2 ^ 32" "unat n = length hs"
  shows "bytes (buf_write (b\<lparr>msg_ptr := msg_ptr b - uint n, N_bytes := N_bytes b + n\<rparr>) 0 hs) = hs @ bytes b"
proof (rule bytes_eqI)
  let ?b = "b\<lparr>msg_ptr := msg_ptr b - uint n, N_bytes := N_bytes b + n\<rparr>"
  have n: "unat (N_bytes b + n) = unat (N_bytes b) + length hs" using assms by (simp add: unat_word_ariths)
  then show "length (hs @ bytes b) = unat (N_bytes (buf_write ?b 0 hs))" by simp
  have u: "uint n = int (length hs)" using assms(2) by (simp add: uint_nat)
  fix i
  assume "i < length (hs @ bytes b)"
  then show "buf_get (buf_write ?b 0 hs) (int i) = (hs @ bytes b) ! i"
    by (cases "i < length hs") (simp_all add: buf_get_write nth_append nth_bytes, simp add: buf_get_def u of_nat_diff algebra_simps)
qed

lemma bytes_buf_set_0:
  assumes "bytes b = x # xs"
  shows "bytes (buf_set b 0 v) = v # xs"
proof (rule bytes_eqI)
  have n: "unat (N_bytes b) = Suc (length xs)" using arg_cong [OF assms, of length] by simp
  then show "length (v # xs) = unat (N_bytes (buf_set b 0 v))" by simp
  fix i assume "i < length (v # xs)"
  then show "buf_get (buf_set b 0 v) (int i) = (v # xs) ! i"
    using nth_bytes [of i b] n by (cases i) (simp_all add: assms)
qed

lemma write_data_header_bytes:
  assumes "nr_config e" "3 \<le> msg_ptr b" "msg_ptr b < 2 ^ 31" "unat (N_bytes b) + 3 < 2 ^ 32"
  defines "n \<equiv> hdr_len_bytes (pcfg e)"
  shows "bytes (write_data_header e b c) = nr_header e c @ bytes b"
    and "msg_ptr (write_data_header e b c) = msg_ptr b - uint n"
    and "N_bytes (write_data_header e b c) = N_bytes b + u32_of n"
proof -
  let ?b = "b\<lparr>msg_ptr := msg_ptr b - uint (u32_of n), N_bytes := N_bytes b + u32_of n\<rparr>"
  define hs where "hs = (if sn_len (pcfg e) = 12 then uint16_to_uint8 (u16_of (pdcp_SN e c)) else uint24_to_uint8 (pdcp_SN e c))"
  have n: "n = 2 \<or> n = 3" "length hs = unat n" "unat (u32_of n) = unat n" "uint (u32_of n) = uint n"
    using assms(1) by (auto simp: nr_config_def n_def hs_def unsigned_ucast_eq)
  have "uint (word_of_int (msg_ptr b) :: u32) = msg_ptr b"
    using assms(2,3) by (simp add: uint_word_of_int_eq take_bit_int_eq_self)
  then have room: "\<not> u32_of n > get_headroom b"
    using n(1) assms(2) by (auto simp: get_headroom_def not_less word_le_def)
  have pre: "bytes (buf_write ?b 0 hs) = hs @ bytes b"
    using assms(4) n by (intro bytes_prepend) auto
  have ne: "hs \<noteq> []" using n(1,2) by auto
  let ?w = "buf_write ?b 0 hs"
  have "bytes ?w = hs ! 0 # (tl hs @ bytes b)" using ne unfolding pre by (cases hs) simp_all
  then have setD: "bytes (buf_set ?w 0 v) = v # tl hs @ bytes b" for v by (rule bytes_buf_set_0)
  have w0: "buf_get ?w 0 = hs ! 0" using ne by (simp add: buf_get_write)
  have len: "PDCP_SN_LEN_12 = 12" "PDCP_SN_LEN_18 = 18" "sn_len (pcfg e) = 12 \<or> sn_len (pcfg e) = 18"
    using assms(1) by (auto simp: nr_config_def PDCP_SN_LEN_defs)
  have w: "write_data_header e b c = (if sn_len (pcfg e) = 12 \<and> \<not> is_drb e then ?w else buf_set ?w 0 (buf_get ?w 0 OR 0x80))"
    using room len by (auto simp: write_data_header_def Let_def hs_def simp flip: n_def)
  show "bytes (write_data_header e b c) = nr_header e c @ bytes b"
    unfolding w nr_header_def Let_def hs_def [symmetric] by (simp add: pre setD w0)
  show "msg_ptr (write_data_header e b c) = msg_ptr b - uint n" "N_bytes (write_data_header e b c) = N_bytes b + u32_of n"
    unfolding w using n(4) by simp_all
qed

lemma append_mac_bytes:
  assumes "0 \<le> msg_ptr b" "msg_ptr b + 2 * int (length (bytes b)) + 4 \<le> SRSLTE_MAX_BUFFER_SIZE_BYTES" "length mac = 4"
  shows "bytes (append_mac b mac) = bytes b @ mac"
proof -
  obtain p where p: "msg_ptr b = int p" using assms(1) by (rule nonneg_int_cases)
  have M: "SRSLTE_MAX_BUFFER_SIZE_BYTES = 13257" by (simp add: buffer_size_defs)
  have room: "p + 2 * unat (N_bytes b) + 4 \<le> 13257"
    using assms(2) unfolding M p length_bytes by linarith
  have "(word_of_int (SRSLTE_MAX_BUFFER_SIZE_BYTES - msg_ptr b) :: u32) = of_nat (13257 - p)"
    using room unfolding M p by (simp add: of_nat_diff)
  moreover have "unat (of_nat (13257 - p) :: u32) = 13257 - p" by (rule unat_of_nat_u32) simp
  moreover have "unat (N_bytes b + 4) = unat (N_bytes b) + 4" using room by (simp add: unat_word_ariths)
  ultimately have "\<not> N_bytes b + 4 > get_tailroom b"
    using room by (simp add: get_tailroom_def not_less word_le_nat_alt unat_sub)
  then show ?thesis
    using room assms(3) by (simp add: append_mac_def) (rule bytes_append_bytes; simp)
qed

lemma bit_0x80: "bit (0x80 :: int) k \<longleftrightarrow> k = 7"
proof -
  have "(0x80 :: int) = push_bit 7 1" by simp
  then show ?thesis by (simp only: bit_push_bit_iff_int bit_1_iff) auto
qed

lemma nr_header_sn:
  assumes "nr_config e" "bytes pdu = nr_header e c @ rest" "rest \<noteq> []"
  shows "fst (read_data_header e pdu) = pdcp_SN e c" "bytes (snd (read_data_header e pdu)) = rest"
proof -
  let ?n = "unat (hdr_len_bytes (pcfg e))"
  have n: "?n = 2 \<or> ?n = 3" "uint (u32_of (hdr_len_bytes (pcfg e))) = uint (u32_of (hdr_len_bytes (pcfg e)))"
    "unat (u32_of (hdr_len_bytes (pcfg e))) = ?n"
    using assms(1) by (auto simp: nr_config_def)
  have N: "unat (N_bytes pdu) = ?n + length rest"
    using arg_cong [OF assms(2), of length] assms(1) by simp
  then have big: "\<not> N_bytes pdu \<le> u32_of (hdr_len_bytes (pcfg e))"
    using assms(3) n(3) by (simp add: word_le_nat_alt)
  have len: "PDCP_SN_LEN_12 = 12" "PDCP_SN_LEN_18 = 18" by (simp_all add: PDCP_SN_LEN_defs)
  show "bytes (snd (read_data_header e pdu)) = rest"
    using bytes_drop [of "u32_of (hdr_len_bytes (pcfg e))" pdu] N n(3) assms(1)
    by (simp add: read_data_header_def Let_def big assms(2))
  have "take ?n (bytes pdu) = nr_header e c" using assms(1) by (simp add: assms(2))
  then have rd: "buf_read pdu 0 ?n = nr_header e c"
    using buf_read_bytes [of 0 ?n pdu] N by simp
  show "fst (read_data_header e pdu) = pdcp_SN e c"
  proof (cases "sn_len (pcfg e) = 12")
    case True
    then have "buf_read pdu 0 2 = nr_header e c" using rd assms(1) by (auto simp: nr_config_def)
    moreover have "pdcp_SN e (u32_of (uint8_to_uint16 (nr_header e c))) = pdcp_SN e c"
      using True by (intro bit_word_eqI)
        (auto simp: pdcp_SN_mask nr_header_def Let_def uint8_to_uint16_def uint16_to_uint8_def bit_0x80 word_bits)
    ultimately show ?thesis using True by (simp add: read_data_header_def Let_def big len)
  next
    case False
    then have k: "sn_len (pcfg e) = 18" "?n = 3" using assms(1) by (auto simp: nr_config_def)
    then have "buf_read pdu 0 3 = nr_header e c" using rd by simp
    moreover have "pdcp_SN e (uint8_to_uint24 (nr_header e c)) = pdcp_SN e c"
      using k by (intro bit_word_eqI)
        (auto simp: pdcp_SN_mask nr_header_def Let_def uint8_to_uint24_def uint24_to_uint8_def bit_0x80 word_bits)
    ultimately show ?thesis using k by (simp add: read_data_header_def Let_def big len)
  qed
qed

lemma extract_mac_bytes:
  assumes "bytes pdu = msg @ mac" "length mac = 4"
  shows "fst (extract_mac pdu mac0) = mac" "bytes (snd (extract_mac pdu mac0)) = msg"
proof -
  have N: "unat (N_bytes pdu) = length msg + 4" using arg_cong [OF assms(1), of length] assms(2) by simp
  have big: "\<not> N_bytes pdu < 4" using N by (simp add: word_less_nat_alt)
  then have n4: "unat (N_bytes pdu - 4) = length msg"
    using N by (simp add: unat_sub word_le_nat_alt)
  show "fst (extract_mac pdu mac0) = mac"
    using buf_read_bytes [of "length msg" 4 pdu] N assms by (simp add: extract_mac_def big uint_nat n4)
  show "bytes (snd (extract_mac pdu mac0)) = msg"
    using bytes_take [of "N_bytes pdu - 4" pdu] n4 N assms(1) by (simp add: extract_mac_def big)
qed

section \<open>What the operations compute\<close>

definition nr_mac :: "crypto_lib \<Rightarrow> u8 list \<Rightarrow> pdcp_entity_nr \<Rightarrow> u32 \<Rightarrow> u8 list \<Rightarrow> u8 list" where
  "nr_mac L mac0 e count sdu =
     (if integ_algo e = INTEGRITY_ALGORITHM_ID_EIA0 \<or> integ_algo e = INTEGRITY_ALGORITHM_ID_N_ITEMS then mac0
      else eia_of L e (tx_direction (pcfg e)) count sdu)"

definition nr_pdu :: "crypto_lib \<Rightarrow> u8 list \<Rightarrow> pdcp_entity_nr \<Rightarrow> u32 \<Rightarrow> u8 list \<Rightarrow> u8 list" where
  "nr_pdu L mac0 e count sdu =
     nr_header e count @ eea_of L e (tx_direction (pcfg e)) count sdu @ nr_mac L mac0 e count sdu"

lemma start_discard_timer_fields:
  "\<exists>h' m. nr_start_discard_timer (h, e) = (h', e\<lparr>discard_timers_map := m\<rparr>)"
proof (cases "discard_timer (pcfg e) = td_infinity \<or> tx_next e \<in> fst ` set (discard_timers_map e)")
  case True
  then have "snd (nr_start_discard_timer (h, e)) = e"
    by (auto simp: nr_start_discard_timer_def Let_def split: prod.split)
  moreover have "e\<lparr>discard_timers_map := discard_timers_map e\<rparr> = e" by simp
  ultimately show ?thesis by (metis prod.collapse)
next
  case False
  obtain i h1 where "get_unique_timer h = (i, h1)" by force
  with False have "snd (nr_start_discard_timer (h, e)) = e\<lparr>discard_timers_map := (tx_next e, i) # discard_timers_map e\<rparr>"
    by (simp add: nr_start_discard_timer_def Let_def)
  then show ?thesis by (metis prod.collapse)
qed

lemma integrity_generate_nr:
  assumes "crypto_lib_ok L" "keys_ok e" "0 < length (bytes sdu)" "length (bytes sdu) \<le> PDCP_MAX_SDU_SIZE" "length mac0 = 4"
  shows "integrity_generate L e (bytes sdu) (N_bytes sdu) c mac0 = Some (nr_mac L mac0 e c (bytes sdu))"
    and "length (nr_mac L mac0 e c (bytes sdu)) = 4"
proof -
  have l: "length (bytes sdu) + 24 < 2 ^ 24" "8 * length (bytes sdu) < 2 ^ 32" using assms(4) by (simp_all add: PDCP_MAX_SDU_SIZE_def)
  show "length (nr_mac L mac0 e c (bytes sdu)) = 4"
    using assms l by (simp add: nr_mac_def)
  show "integrity_generate L e (bytes sdu) (N_bytes sdu) c mac0 = Some (nr_mac L mac0 e c (bytes sdu))"
  proof (cases "integ_algo e = INTEGRITY_ALGORITHM_ID_EIA0 \<or> integ_algo e = INTEGRITY_ALGORITHM_ID_N_ITEMS")
    case True
    then show ?thesis by (auto simp: integrity_generate_def integrity_call_def nr_mac_def Let_def)
  next
    case False
    then show ?thesis
      using integrity_call_eia [OF assms(1,2,3) l(1), of "N_bytes sdu" mac0 "tx_direction (pcfg e)" c] assms(5)
      by (simp add: integrity_generate_def nr_mac_def)
  qed
qed

lemma nr_fits_max: "nr_fits sdu \<Longrightarrow> length (bytes sdu) \<le> PDCP_MAX_SDU_SIZE"
proof -
  assume "nr_fits sdu"
  then have "3 \<le> msg_ptr sdu" "msg_ptr sdu + 2 * int (length (bytes sdu)) + 7 \<le> 13257"
    by (simp_all add: nr_fits_def buffer_size_defs)
  then have "length (bytes sdu) \<le> 9000" by linarith
  then show ?thesis by (simp add: PDCP_MAX_SDU_SIZE_def)
qed

text \<open>What sending changes of the entity, and what it therefore keeps.\<close>

definition nr_tx_of :: "pdcp_entity_nr \<Rightarrow> pdcp_entity_nr \<Rightarrow> bool" where
  "nr_tx_of e e' \<longleftrightarrow> (\<exists>ov m c. e' = e\<lparr>tx_overflow := ov, discard_timers_map := m, tx_next := c\<rparr>)"

lemma nr_tx_of_refl: "nr_tx_of e e"
  unfolding nr_tx_of_def by (rule exI [of _ "tx_overflow e"], rule exI [of _ "discard_timers_map e"], rule exI [of _ "tx_next e"]) simp

lemma nr_tx_of_trans: "nr_tx_of e e' \<Longrightarrow> nr_tx_of e' e'' \<Longrightarrow> nr_tx_of e e''"
  by (fastforce simp: nr_tx_of_def)

lemma nr_tx_of_keeps:
  assumes "nr_tx_of e e'"
  shows "keys_ok e' = keys_ok e" "nr_config e' = nr_config e" "initialized e' = initialized e" "lcid e' = lcid e"
    and "nr_pdu L mac0 e' = nr_pdu L mac0 e"
proof -
  obtain ov m c where e': "e' = e\<lparr>tx_overflow := ov, discard_timers_map := m, tx_next := c\<rparr>"
    using assms unfolding nr_tx_of_def by blast
  have s: "pcfg e' = pcfg e" "is_drb e' = is_drb e" "pdcp_SN e' = pdcp_SN e" "integ_algo e' = integ_algo e"
    "cipher_algo e' = cipher_algo e" "k_enc e' = k_enc e" "k_int e' = k_int e"
    by (simp_all add: e' is_drb_def is_srb_def pdcp_SN_def k_enc_def k_int_def fun_eq_iff)
  have f: "eea_of L e' = eea_of L e" "eia_of L e' = eia_of L e" "nr_header e' = nr_header e"
    unfolding fun_eq_iff by (simp_all only: eea_of_def eia_of_def nr_header_def s simp_thms)
  show "keys_ok e' = keys_ok e" "nr_config e' = nr_config e" "initialized e' = initialized e" "lcid e' = lcid e"
    by (simp_all add: e' keys_ok_def nr_config_def)
  show "nr_pdu L mac0 e' = nr_pdu L mac0 e"
    by (intro ext) (simp add: nr_pdu_def nr_mac_def f s)
qed

lemma nr_write_sdu_steps:
  assumes "crypto_lib_ok L" "keys_ok e" "nr_config e" "initialized e" "\<not> tx_overflow e"
    and "3 \<le> msg_ptr sdu" "msg_ptr sdu < 2 ^ 31" "0 < length (bytes sdu)" "length (bytes sdu) \<le> PDCP_MAX_SDU_SIZE"
    and "length mac0 = 4"
  shows "\<exists>h' e' b. nr_write_sdu L mac0 (h, e) sdu =
      Some ((h', e'), [To_RLC (lcid e) (append_mac b (nr_mac L mac0 e (tx_next e) (bytes sdu)))]) \<and>
    bytes b = nr_header e (tx_next e) @ eea_of L e (tx_direction (pcfg e)) (tx_next e) (bytes sdu) \<and>
    msg_ptr b = msg_ptr sdu - uint (hdr_len_bytes (pcfg e)) \<and>
    tx_next e' = tx_next e + 1 \<and> tx_overflow e' = (tx_next e + 1 = 0) \<and> nr_tx_of e e'"
proof -
  let ?c = "tx_next e" and ?d = "tx_direction (pcfg e)"
  define e1 where "e1 = (if ?c + 1 = 0 then e\<lparr>tx_overflow := True\<rparr> else e)"
  obtain h' m where dt: "nr_start_discard_timer (h, e1) = (h', e1\<lparr>discard_timers_map := m\<rparr>)"
    using start_discard_timer_fields by blast
  define e2 where "e2 = e1\<lparr>discard_timers_map := m\<rparr>"
  have e2: "keys_ok e2" "pcfg e2 = pcfg e" "tx_next e2 = ?c" "lcid e2 = lcid e" "nr_config e2"
    "tx_overflow e2 = (?c + 1 = 0)" "eea_of L e2 = eea_of L e" "nr_mac L mac0 e2 = nr_mac L mac0 e"
    "nr_header e2 = nr_header e"
    using assms(2-5)
    by (auto simp: e2_def e1_def keys_ok_def nr_config_def eea_of_def eia_of_def nr_mac_def nr_header_def k_enc_def k_int_def
        is_srb_def is_drb_def pdcp_SN_def fun_eq_iff Let_def)
  obtain ct where ct: "in_place (cipher_call L e2 ?d) sdu 0 (N_bytes sdu) ?c = Some ct" "bytes ct = eea_of L e2 ?d ?c (bytes sdu)"
    using in_place_eea [OF assms(1) e2(1), of 0 "N_bytes sdu" sdu ?d ?c] assms(8,9) by auto
  have "length (bytes ct) = length (bytes sdu)" using ct(2) assms(1) by (simp add: e2)
  then have "unat (N_bytes ct) + 3 < 2 ^ 32" using assms(9) by (simp add: PDCP_MAX_SDU_SIZE_def)
  moreover have ptr: "msg_ptr ct = msg_ptr sdu" using ct(1) by (auto simp: in_place_def Let_def)
  ultimately have hdr: "bytes (write_data_header e2 ct ?c) = nr_header e2 ?c @ bytes ct"
    "msg_ptr (write_data_header e2 ct ?c) = msg_ptr sdu - uint (hdr_len_bytes (pcfg e))"
    using write_data_header_bytes [OF e2(5), of ct ?c] assms(6,7) by (simp_all add: e2(2))
  have "nr_write_sdu L mac0 (h, e) sdu = Some ((h', e2\<lparr>tx_next := ?c + 1\<rparr>),
      [To_RLC (lcid e) (append_mac (write_data_header e2 ct ?c) (nr_mac L mac0 e ?c (bytes sdu)))])"
    using assms(4,5) integrity_generate_nr(1) [OF assms(1) e2(1) assms(8,9,10), of ?c] ct(1)
    by (simp add: nr_write_sdu_def dt cipher_calls e2 flip: e1_def e2_def)
  moreover have "nr_tx_of e (e2\<lparr>tx_next := ?c + 1\<rparr>)"
  proof -
    have "e2\<lparr>tx_next := ?c + 1\<rparr> = e\<lparr>tx_overflow := (?c + 1 = 0), discard_timers_map := m, tx_next := ?c + 1\<rparr>"
      using assms(5) by (cases "?c + 1 = 0") (simp_all add: e2_def e1_def)
    then show ?thesis unfolding nr_tx_of_def by blast
  qed
  ultimately show ?thesis using hdr ct(2) e2 by auto
qed

lemma nr_write_sdu_pdu:
  assumes "crypto_lib_ok L" "keys_ok e" "nr_config e" "initialized e" "\<not> tx_overflow e"
    and "nr_fits sdu" "0 < length (bytes sdu)" "length mac0 = 4"
  shows "\<exists>h' e' pdu. nr_write_sdu L mac0 (h, e) sdu = Some ((h', e'), [To_RLC (lcid e) pdu]) \<and>
    bytes pdu = nr_pdu L mac0 e (tx_next e) (bytes sdu) \<and> tx_next e' = tx_next e + 1 \<and>
    tx_overflow e' = (tx_next e + 1 = 0) \<and> nr_tx_of e e'"
proof -
  let ?c = "tx_next e"
  have fit: "3 \<le> msg_ptr sdu" "msg_ptr sdu + 2 * int (length (bytes sdu)) + 7 \<le> 13257"
    using assms(6) by (simp_all add: nr_fits_def buffer_size_defs)
  then have "msg_ptr sdu \<le> 13257" by linarith
  then have ptr: "msg_ptr sdu < 2 ^ 31" by simp
  have max: "length (bytes sdu) \<le> PDCP_MAX_SDU_SIZE" by (rule nr_fits_max [OF assms(6)])
  from nr_write_sdu_steps [OF assms(1-5) fit(1) ptr assms(7) max assms(8), of h] obtain h' e' b where
    r: "nr_write_sdu L mac0 (h, e) sdu = Some ((h', e'), [To_RLC (lcid e) (append_mac b (nr_mac L mac0 e ?c (bytes sdu)))])"
      "bytes b = nr_header e ?c @ eea_of L e (tx_direction (pcfg e)) ?c (bytes sdu)"
      "msg_ptr b = msg_ptr sdu - uint (hdr_len_bytes (pcfg e))" "tx_next e' = ?c + 1"
      "tx_overflow e' = (?c + 1 = 0)" "nr_tx_of e e'" by blast
  have n: "uint (hdr_len_bytes (pcfg e)) \<le> 3"
    using assms(3) by (auto simp: nr_config_def)
  have "bytes (append_mac b (nr_mac L mac0 e ?c (bytes sdu))) = bytes b @ nr_mac L mac0 e ?c (bytes sdu)"
  proof (rule append_mac_bytes)
    show "0 \<le> msg_ptr b" using fit(1) n by (simp add: r(3))
    show "msg_ptr b + 2 * int (length (bytes b)) + 4 \<le> SRSLTE_MAX_BUFFER_SIZE_BYTES"
      unfolding r(2,3) length_append length_nr_header [OF assms(3)] eea_of_eea_of(2) [OF assms(1)]
      using fit n by (simp add: buffer_size_defs)
    show "length (nr_mac L mac0 e ?c (bytes sdu)) = 4"
      by (rule integrity_generate_nr(2) [OF assms(1,2,7) max assms(8)])
  qed
  with r show ?thesis by (auto simp: nr_pdu_def)
qed

lemma nr_write_pdu_accept:
  assumes "crypto_lib_ok L" "keys_ok r" "nr_config r" "initialized r" "reordering_timer r = Some i"
    and "bytes pdu = nr_header r c @ eea_of L r (rx_direction (pcfg r)) c sdu @ mac"
    and "0 < length sdu" "length sdu \<le> PDCP_MAX_SDU_SIZE" "length mac = 4"
    and "integ_algo r = INTEGRITY_ALGORITHM_ID_EIA0 \<or> mac = eia_of L r (rx_direction (pcfg r)) c sdu"
    and "unat (rx_deliv r) \<le> unat c + unat (window_size r)" "unat c < unat (rx_deliv r) + unat (window_size r)"
  shows "\<exists>b. bytes b = sdu \<and> nr_write_pdu L mac0 (h, r) pdu =
    (case nr_accept c b r of
       None \<Rightarrow> Some ((h, r), [])
     | Some (e, out) \<Rightarrow> (case reordering_timer e of
           None \<Rightarrow> None | Some i \<Rightarrow> Some (handle_reordering_timer i (h, e), out)))"
proof -
  let ?d = "rx_direction (pcfg r)" and ?rest = "eea_of L r (rx_direction (pcfg r)) c sdu @ mac"
  obtain sn p1 where h1: "read_data_header r pdu = (sn, p1)" by force
  have "?rest \<noteq> []" using assms(9) by auto
  from nr_header_sn [OF assms(3,6) this] h1 have p1: "sn = pdcp_SN r c" "bytes p1 = ?rest" by simp_all
  obtain m p2 where h2: "extract_mac p1 mac0 = (m, p2)" by force
  from extract_mac_bytes [OF p1(2) assms(9), of mac0] h2
  have p2: "m = mac" "bytes p2 = eea_of L r ?d c sdu" by simp_all
  have cnt: "nr_rcvd_count r sn = c" unfolding p1(1) by (rule nr_rcvd_count_in_window [OF assms(3,11,12)])
  have N2: "unat (N_bytes p2) = length sdu" using arg_cong [OF p2(2), of length] assms(1) by simp
  then obtain b where b: "in_place (cipher_call L r ?d) p2 0 (N_bytes p2) c = Some b" "bytes b = sdu"
    using in_place_eea [OF assms(1,2), of 0 "N_bytes p2" p2 ?d c] assms(1,7,8) p2(2) by auto
  have Nb: "N_bytes b = of_nat (length (bytes b))" by simp
  have "integrity_verify L r (bytes b) (N_bytes b) c mac = Some True"
    using integrity_verify_eia [OF assms(1,2) _ _ Nb assms(9), of c] assms(7,8,10) by (simp add: b(2) PDCP_MAX_SDU_SIZE_def)
  moreover have "\<not> N_bytes pdu \<le> u32_of (hdr_len_bytes (pcfg r))"
  proof -
    have "unat (u32_of (hdr_len_bytes (pcfg r))) = unat (hdr_len_bytes (pcfg r))"
      using assms(3) by (auto simp: nr_config_def)
    moreover have "unat (N_bytes pdu) > unat (hdr_len_bytes (pcfg r))"
      using arg_cong [OF assms(6), of length] assms(3,9) by simp
    ultimately show ?thesis by (simp add: word_le_nat_alt)
  qed
  ultimately have "nr_write_pdu L mac0 (h, r) pdu =
    (case nr_accept c b r of
       None \<Rightarrow> Some ((h, r), [])
     | Some (e, out) \<Rightarrow> (case reordering_timer e of
           None \<Rightarrow> None | Some i \<Rightarrow> Some (handle_reordering_timer i (h, e), out)))"
    using assms(4) b(1) by (simp add: nr_write_pdu_def h1 h2 cnt p2(1) cipher_calls)
  then show ?thesis using b(2) by blast
qed

lemma nr_rcvd_count_beyond:
  assumes "nr_config e" "unat (rx_deliv e) + unat (window_size e) \<le> unat c"
    and "unat c < unat (rx_deliv e) + 3 * unat (window_size e)"
  shows "nr_rcvd_count e (pdcp_SN e c) = c - 2 * window_size e"
proof -
  let ?w = "unat (window_size e)" and ?m = "2 ^ unat (sn_len (pcfg e)) :: nat"
  note m = nr_config_window [OF assms(1)]
  have w2: "unat (2 * window_size e) = 2 * ?w" using m(4) by (simp add: unat_word_ariths)
  show ?thesis
  proof (cases "2 * ?w \<le> unat c")
    case True
    then have c': "unat (c - 2 * window_size e) = unat c - 2 * ?w" by (simp add: unat_sub word_le_nat_alt w2)
    have "unat (pdcp_SN e (c - 2 * window_size e)) = unat (pdcp_SN e c)"
      using m(2) True by (simp add: unat_SN c' m(1) le_mod_geq [symmetric])
    then have "pdcp_SN e c = pdcp_SN e (c - 2 * window_size e)" by (simp add: word_unat_eq_iff)
    moreover have "nr_rcvd_count e (pdcp_SN e (c - 2 * window_size e)) = c - 2 * window_size e"
      using assms(2,3) True by (intro nr_rcvd_count_in_window [OF assms(1)]) (simp_all add: c')
    ultimately show ?thesis by simp
  next
    case False
    then have d: "unat (rx_deliv e) < 2 * ?w" using assms(2) by simp
    have sn: "unat (pdcp_SN e c) = unat c" "unat (pdcp_SN e (rx_deliv e)) = unat (rx_deliv e)" "pdcp_HFN e (rx_deliv e) = 0"
      using m(2) False d by (simp_all add: unat_SN m(1) word_unat_eq_iff unat_HFN)
    have "\<not> uint (pdcp_SN e c) < uint (pdcp_SN e (rx_deliv e)) - uint (window_size e)"
      unfolding uint_nat sn using assms(2) by linarith
    moreover have "unat (pdcp_SN e (rx_deliv e) + window_size e) = unat (rx_deliv e) + ?w"
      using m(4) d by (simp add: unat_word_ariths sn)
    then have "pdcp_SN e c \<ge> pdcp_SN e (rx_deliv e) + window_size e"
      using assms(2) by (simp add: word_le_nat_alt sn)
    moreover have m1: "unat (-1 :: u32) = 2 ^ 32 - 1"
      by (simp add: unsigned_minus_1_eq_mask mask_eq_exp_minus_1)
    ultimately have r: "nr_rcvd_count e (pdcp_SN e c) = pdcp_COUNT e (-1) (pdcp_SN e c)"
      by (simp add: nr_rcvd_count_def Let_def sn(3))
    have "(2 ^ 32 - 1) * (2 * ?w) mod 2 ^ 32 = 2 ^ 32 - 2 * ?w"
      using assms(1) by (auto simp: nr_config_def)
    then have "unat (nr_rcvd_count e (pdcp_SN e c)) = 2 ^ 32 - 2 * ?w + unat c"
      using False unfolding r by (subst unat_COUNT) (simp_all add: sn m(1) m1)
    moreover have "unat (c - 2 * window_size e) = 2 ^ 32 + unat c - 2 * ?w"
      using False m(4) by (simp add: unat_sub_if' w2)
    ultimately show ?thesis using m(4) by (simp add: word_unat_eq_iff)
  qed
qed

text \<open>C22. COUNT reconstruction: for every COUNT less than a window behind RX_DELIV or less than three windows ahead of it, the receiver recovers the sender's COUNT from its sequence number exactly when it lies in the receive window; a COUNT a window or more ahead is taken for the one two windows earlier, which near the start of the bearer is below zero.\<close>

theorem nr_count_window:
  assumes "nr_config e" "unat (rx_deliv e) \<le> unat c + unat (window_size e)"
    and "unat c < unat (rx_deliv e) + 3 * unat (window_size e)"
  shows "nr_rcvd_count e (pdcp_SN e c) =
    (if unat c < unat (rx_deliv e) + unat (window_size e) then c else c - 2 * window_size e)"
  using nr_rcvd_count_in_window [OF assms(1,2)] nr_rcvd_count_beyond [OF assms(1) _ assms(3)] by simp

text \<open>C5. Round trip of NR PDCP: an SDU short enough for its MAC to be appended (\<open>nr_fits\<close>), written by one entity and received by its peer, with the same keys, algorithms and sequence number length and RX_DELIV at the sender's TX_NEXT, is deciphered, its MAC verified, and delivered unchanged; both sides advance by one.\<close>

theorem nr_roundtrip:
  assumes "crypto_lib_ok L" "keys_ok e" "keys_ok r" "pdcp_peers e r" "nr_config e" "nr_config r"
    and "initialized e" "initialized r" "reordering_timer r = Some i" "integ_algo e \<noteq> INTEGRITY_ALGORITHM_ID_N_ITEMS"
    and "\<not> tx_overflow e" "\<not> rx_overflow r" "reorder_queue r = []" "rx_deliv r = tx_next e" "tx_next e + 1 \<noteq> 0"
    and "nr_fits sdu" "0 < length (bytes sdu)" "length mac0 = 4"
  shows "\<exists>h1 e1 pdu h2 r2 b. nr_write_sdu L mac0 (h, e) sdu = Some ((h1, e1), [To_RLC (lcid e) pdu]) \<and>
    nr_write_pdu L mac0' (h', r) pdu = Some ((h2, r2), [pass_to_upper_layers r b]) \<and> bytes b = bytes sdu \<and>
    tx_next e1 = tx_next e + 1 \<and> rx_deliv r2 = tx_next e1"
proof -
  let ?c = "tx_next e"
  from nr_write_sdu_pdu [OF assms(1,2,5,7,11,16,17,18), of h] obtain h1 e1 pdu where
    tx: "nr_write_sdu L mac0 (h, e) sdu = Some ((h1, e1), [To_RLC (lcid e) pdu])"
      "bytes pdu = nr_pdu L mac0 e ?c (bytes sdu)" "tx_next e1 = ?c + 1" by blast
  have max: "length (bytes sdu) \<le> PDCP_MAX_SDU_SIZE"
    by (rule nr_fits_max [OF assms(16)])
  have peer: "nr_header e = nr_header r" "tx_direction (pcfg e) = rx_direction (pcfg r)" "integ_algo e = integ_algo r"
    using assms(4) by (auto simp: pdcp_peers_def nr_header_def is_drb_def pdcp_SN_def fun_eq_iff Let_def)
  have bytes: "bytes pdu = nr_header r ?c @ eea_of L r (rx_direction (pcfg r)) ?c (bytes sdu) @ nr_mac L mac0 e ?c (bytes sdu)"
    unfolding tx(2) nr_pdu_def by (simp add: peer pdcp_peers_security [OF assms(4)])
  have mac: "length (nr_mac L mac0 e ?c (bytes sdu)) = 4"
    by (rule integrity_generate_nr(2) [OF assms(1,2,17) max assms(18)])
  have ok: "integ_algo r = INTEGRITY_ALGORITHM_ID_EIA0 \<or>
      nr_mac L mac0 e ?c (bytes sdu) = eia_of L r (rx_direction (pcfg r)) ?c (bytes sdu)"
    using assms(10) by (auto simp: nr_mac_def peer pdcp_peers_security [OF assms(4)])
  have win: "unat (rx_deliv r) \<le> unat ?c + unat (window_size r)" "unat ?c < unat (rx_deliv r) + unat (window_size r)"
    using assms(14) nr_config_window(3) [OF assms(6)] by simp_all
  from nr_write_pdu_accept [OF assms(1,3,6,8,9) bytes assms(17) max mac ok win, of mac0' h'] obtain b where
    b: "bytes b = bytes sdu" "nr_write_pdu L mac0' (h', r) pdu =
      (case nr_accept ?c b r of None \<Rightarrow> Some ((h', r), [])
       | Some (e, out) \<Rightarrow> (case reordering_timer e of
           None \<Rightarrow> None | Some i \<Rightarrow> Some (handle_reordering_timer i (h', e), out)))" by blast
  obtain r1 where acc: "nr_accept ?c b r = Some (r1, [pass_to_upper_layers r b])" "rx_deliv r1 = ?c + 1" "reordering_timer r1 = Some i"
    using assms(9,12-14) that
    by (cases "rx_next r \<le> ?c")
      (simp_all add: nr_accept_def deliver_all_consecutive_counts_def pass_to_upper_layers_def is_srb_def Let_def)
  obtain h2 r2 where t: "handle_reordering_timer i (h', r1) = (h2, r2)" by force
  then have "rx_deliv r2 = ?c + 1"
    using acc(2) by (auto simp: handle_reordering_timer_def Let_def split: if_splits)
  with tx b acc t show ?thesis by auto
qed

lemma takeWhile_entries:
  assumes "sorted_wrt (<) xs" "\<forall>x \<in> set xs. x < 2 ^ 32" "m < 2 ^ 32"
  shows "takeWhile (\<lambda>(c, b). c < of_nat m) (entries f xs) = entries f (filter (\<lambda>x. x < m) xs)"
    and "dropWhile (\<lambda>(c, b). c < of_nat m) (entries f xs) = entries f (filter (\<lambda>x. m \<le> x) xs)"
  using assms
proof (induction xs)
  case (Cons x xs)
  case 1
  show ?case
  proof (cases "x < m")
    case False
    then have "filter (\<lambda>x. x < m) xs = []" using 1 by (auto simp: filter_empty_conv)
    with False 1 show ?thesis by (simp add: of_nat_u32_less)
  qed (use 1 Cons in \<open>simp add: of_nat_u32_less\<close>)
  case 2
  show ?case
  proof (cases "x < m")
    case False
    then have "filter (\<lambda>x. m \<le> x) xs = xs" using 2 by (auto simp: filter_id_conv)
    with False 2 show ?thesis by (simp add: of_nat_u32_less)
  qed (use 2 Cons in \<open>simp add: of_nat_u32_less\<close>)
qed simp_all

text \<open>C34. Expiry of t-Reordering delivers the queued SDUs below RX_REORD but leaves RX_DELIV where it was: a late copy of an SDU just delivered is accepted again, and the missing SDU, when it comes, is delivered after the later ones.\<close>

theorem nr_expiry_keeps_rx_deliv:
  assumes "nr_waits f d xs e" "rx_reord e = of_nat m" "m < 2 ^ 32" "x \<in> set xs" "x < m"
  shows "\<exists>h' e'. reordering_expired (h, e) = ((h', e'), map (pass_to_upper_layers e \<circ> f) (filter (\<lambda>x. x < m) xs)) \<and>
    rx_deliv e' = of_nat d \<and> nr_accept (of_nat x) b e' \<noteq> None \<and>
    (\<exists>r out. nr_accept (of_nat d) (f d) e' = Some (r, pass_to_upper_layers e (f d) # out))"
proof -
  note w = assms(1) [unfolded nr_waits_def]
  have xs: "sorted_wrt (<) xs" "\<forall>x \<in> set xs. x < 2 ^ 32" using w by auto
  let ?ys = "filter (\<lambda>x. m \<le> x) xs"
  define e1 where "e1 = e\<lparr>reorder_queue := entries f ?ys\<rparr>"
  have e1: "nr_waits f d ?ys e1"
    using w by (simp add: nr_waits_def e1_def sorted_wrt_filter)
  have none: "deliver_all_consecutive_counts e1 = (e1, [])"
  proof (cases ?ys)
    case Nil
    then show ?thesis by (simp add: deliver_all_consecutive_counts_def e1_def)
  next
    case (Cons y ys')
    then have "d < y" "y < 2 ^ 32" using e1 by (auto simp: nr_waits_def)
    then have "(of_nat y :: u32) \<noteq> of_nat d" by (simp add: of_nat_u32_eq)
    then show ?thesis using w unfolding e1_def Cons by (simp add: deliver_all_consecutive_counts_def)
  qed
  define e2 where "e2 = (if rx_deliv e1 < rx_next e1 then e1\<lparr>rx_reord := rx_next e1\<rparr> else e1)"
  have e2: "nr_waits f d ?ys e2" "pass_to_upper_layers e2 = pass_to_upper_layers e"
    using e1 by (auto simp: e2_def e1_def nr_waits_def pass_to_upper_layers_def is_srb_def fun_eq_iff)
  have exp: "\<exists>h'. reordering_expired (h, e) = ((h', e2), map (pass_to_upper_layers e \<circ> f) (filter (\<lambda>x. x < m) xs))"
    unfolding reordering_expired_def using w assms(2)
    by (simp add: takeWhile_entries [OF xs assms(3)] none e2_def comp_def pass_to_upper_layers_def is_srb_def flip: e1_def)
      (simp add: e1_def)
  have x: "x + 1 < 2 ^ 32" "d \<le> x" "x \<notin> set ?ys" using w assms(4,5) by auto
  have "nr_accept (of_nat x) b e2 \<noteq> None"
    using nr_waits_keys [OF e2(1) x(1)] x by (simp add: nr_accept_def Let_def)
  moreover have "d + 1 < 2 ^ 32" "d \<notin> set ?ys" using w assms(4) by auto
  from nr_accept_keep [OF e2(1) this(1) order_refl this(2)] obtain r d' ys where
    "nr_accept (of_nat d) (f d) e2 = Some (r, map (pass_to_upper_layers e \<circ> f) [d..<d'])"
    "insert d (set ?ys) = {d..<d'} \<union> set ys" "nr_waits f d' ys r" "d \<le> d'" by (auto simp: e2(2))
  moreover have "d < d'"
  proof (rule ccontr)
    assume "\<not> d < d'"
    then have "d \<in> set ys" using calculation(3,5) by auto
    then have "d' < d" using calculation(4) by (simp add: nr_waits_def)
    then show False using calculation(5) by simp
  qed
  moreover have "rx_deliv e2 = of_nat d" using e2(1) by (simp add: nr_waits_def)
  ultimately show ?thesis using exp by (auto simp: upt_conv_Cons)
qed

lemma handle_reordering_timer_runs:
  assumes "timer_live i h" "is_running (impl h i) \<longrightarrow> rx_reord e \<le> rx_next e"
    and "handle_reordering_timer i (h, e) = (h', e')"
  shows "(is_running (impl h' i) \<longleftrightarrow> rx_deliv e' < rx_next e') \<and>
    (is_running (impl h' i) \<longrightarrow> rx_deliv e' < rx_reord e' \<and> rx_reord e' \<le> rx_next e') \<and> timer_live i h'"
proof -
  let ?served = "rx_deliv e \<ge> rx_reord e" and ?waiting = "rx_deliv e < rx_next e"
  let ?h1 = "if is_running (impl h i) \<and> ?served then timer_stop i h else h"
  let ?h2 = "if \<not> is_running (impl ?h1 i) \<and> ?waiting then timer_run_op i ?h1 else ?h1"
  have h': "h' = ?h2" "rx_deliv e' = rx_deliv e" "rx_next e' = rx_next e"
    "rx_reord e' = (if \<not> is_running (impl ?h1 i) \<and> ?waiting then rx_next e else rx_reord e)"
    using assms(3) by (auto simp: handle_reordering_timer_def Let_def split: if_splits)
  note s = slot.supervise(1,2) [OF assms(1), of ?served ?waiting, folded h'(1)]
  have on: "is_running (impl h' i) \<longleftrightarrow> ?waiting"
    unfolding s(2) using assms(2) by auto
  have off: "\<not> is_running (impl (timer_stop i h) i)" by (rule slot.on_halt [OF assms(1)])
  show ?thesis
    unfolding on h'(2-4) using s(1) off assms(2) by (auto simp: not_le)
qed

lemma handle_reordering_timer_fields:
  assumes "handle_reordering_timer i (h, e) = (h', e')"
  shows "\<exists>ro. e' = e\<lparr>rx_reord := ro\<rparr>"
proof -
  have "e' = e\<lparr>rx_reord := rx_next e\<rparr> \<or> e' = e\<lparr>rx_reord := rx_reord e\<rparr>"
    using assms by (auto simp: handle_reordering_timer_def Let_def split: if_splits)
  then show ?thesis by blast
qed

text \<open>The invariant of the reordering timer, which lives in slot \<open>i\<close>.\<close>

definition nr_timer_ok :: "nat \<Rightarrow> nr_state \<Rightarrow> bool" where
  "nr_timer_ok i = (\<lambda>(h, e).
     timer_live i h \<and> reordering_timer e = Some i \<and> (is_running (impl h i) \<longleftrightarrow> rx_deliv e < rx_next e) \<and>
     (is_running (impl h i) \<longrightarrow> rx_deliv e < rx_reord e \<and> rx_reord e \<le> rx_next e))"

lemma nr_accept_fields:
  assumes "nr_accept c b e = Some (e', out)"
  shows "rx_reord e' = rx_reord e" "reordering_timer e' = reordering_timer e"
  using assms by (auto simp: nr_accept_def deliver_all_consecutive_counts_def Let_def split: if_splits prod.splits)

lemma nr_write_pdu_timer_ok:
  assumes "nr_timer_ok i (h, e)" "nr_write_pdu L mac0 (h, e) pdu = Some ((h', e'), out)" "rx_next e \<le> rx_next e'"
  shows "nr_timer_ok i (h', e')"
proof (cases "(h', e') = (h, e)")
  case False
  then obtain c b e1 j where acc: "nr_accept c b e = Some (e1, out)" "reordering_timer e1 = Some j"
      "handle_reordering_timer j (h, e1) = (h', e')"
    using assms(2)
    by (auto simp: nr_write_pdu_def Let_def split: if_splits Option.bind_splits option.splits prod.splits)
  note f = nr_accept_fields [OF acc(1)]
  have j: "j = i" using f(2) acc(2) assms(1) by (simp add: nr_timer_ok_def)
  obtain ro where e': "e' = e1\<lparr>rx_reord := ro\<rparr>" using handle_reordering_timer_fields [OF acc(3)] by blast
  have "is_running (impl h i) \<longrightarrow> rx_reord e1 \<le> rx_next e1"
    using assms(1,3) f(1) by (auto simp: nr_timer_ok_def e')
  moreover have "timer_live i h" using assms(1) by (simp add: nr_timer_ok_def)
  ultimately show ?thesis
    using handle_reordering_timer_runs [OF _ _ acc(3) [unfolded j]] acc(2) j by (simp add: nr_timer_ok_def e')
qed (use assms(1) in simp)

lemma reordering_trigger_timer_ok:
  assumes "nr_timer_ok i (h, e)" "callback (impl h i) = Some reordering_callback"
  shows "\<exists>h' e' out'. trigger nr_exec i (h, e, out) = (h', e', out') \<and> nr_timer_ok i (h', e')"
proof (cases "is_running (impl h i)")
  case False
  then show ?thesis using assms(1) by (simp add: trigger_def)
next
  case True
  let ?h = "impl_update i (\<lambda>p. p\<lparr>running := False\<rparr>) h"
  have l: "timer_live i h" "i < length (timer_list h)" "reordering_timer e = Some i"
    using assms(1) by (simp_all add: nr_timer_ok_def timer_live_def)
  then have live: "timer_live i ?h" "\<not> is_running (impl ?h i)"
    by (simp_all add: timer_live_def is_running_def)
  have cb: "callback (impl ?h i) = Some reordering_callback" using assms(2) l(2) by simp
  define e1 where "e1 = e\<lparr>reorder_queue := dropWhile (\<lambda>(c, b). c < rx_reord e) (reorder_queue e)\<rparr>"
  obtain e2 o2 where d: "deliver_all_consecutive_counts e1 = (e2, o2)" by force
  then have e2: "reordering_timer e2 = Some i"
    using l(3) by (auto simp: deliver_all_consecutive_counts_def e1_def split: prod.splits)
  define h' where "h' = (if rx_deliv e2 < rx_next e2 then timer_run_op i ?h else ?h)"
  define e' where "e' = (if rx_deliv e2 < rx_next e2 then e2\<lparr>rx_reord := rx_next e2\<rparr> else e2)"
  have "\<exists>out'. reordering_expired (?h, e) = ((h', e'), out')"
    unfolding reordering_expired_def by (simp add: d e2 h'_def e'_def Let_def flip: e1_def)
  then obtain out' where "reordering_expired (?h, e) = ((h', e'), out')" ..
  then have "trigger nr_exec i (h, e, out) = (h', e', out @ out')"
    using True cb by (simp add: trigger_def Let_def)
  moreover have "nr_timer_ok i (h', e')"
    using live slot.live_start [OF live(1)] slot.on_start [OF live(1)] e2 by (auto simp: nr_timer_ok_def h'_def e'_def)
  ultimately show ?thesis by blast
qed

text \<open>C21. t-Reordering runs exactly when an SDU is missing (RX_DELIV below RX_NEXT), and then RX_REORD lies above
  RX_DELIV and not above RX_NEXT: whatever PDU the entity is given, this holds after \<open>write_pdu\<close> if it held before and
  RX_NEXT does not wrap, and it holds again after the timer has expired and its callback has run.\<close>

theorem nr_reordering_timer_runs:
  assumes "nr_timer_ok i (h, e)"
  shows "(nr_write_pdu L mac0 (h, e) pdu = Some ((h', e'), out) \<and> rx_next e \<le> rx_next e' \<longrightarrow> nr_timer_ok i (h', e')) \<and>
    (callback (impl h i) = Some reordering_callback \<longrightarrow>
      (\<exists>h' e' out'. trigger nr_exec i (h, e, out) = (h', e', out') \<and> nr_timer_ok i (h', e')))"
  using nr_write_pdu_timer_ok [OF assms] reordering_trigger_timer_ok [OF assms] by blast

text \<open>A series of SDUs given to the sender, and the PDUs it hands to RLC.\<close>

primrec nr_send_all :: "crypto_lib \<Rightarrow> u8 list \<Rightarrow> byte_buffer list \<Rightarrow> nr_state \<Rightarrow> (nr_state \<times> nr_out list) option" where
  "nr_send_all L mac0 [] st = Some (st, [])"
| "nr_send_all L mac0 (s # ss) st =
     do {
       (st, out) \<leftarrow> nr_write_sdu L mac0 st s;
       (st, rest) \<leftarrow> nr_send_all L mac0 ss st;
       Some (st, out @ rest)
     }"

lemma nr_send_all_overflow:
  "initialized e \<Longrightarrow> tx_overflow e \<Longrightarrow> nr_send_all L mac0 sdus (h, e) = Some ((h, e), [])"
  by (induction sdus) (simp_all add: nr_write_sdu_def)

lemma nr_send_all_pdus:
  assumes "crypto_lib_ok L" "keys_ok e" "nr_config e" "initialized e" "\<not> tx_overflow e" "length mac0 = 4"
    and "\<forall>s \<in> set sdus. nr_fits s \<and> 0 < length (bytes s)"
  defines "n \<equiv> min (length sdus) (2 ^ 32 - unat (tx_next e))"
  shows "\<exists>h' e' pdus. nr_send_all L mac0 sdus (h, e) = Some ((h', e'), map (To_RLC (lcid e)) pdus) \<and> length pdus = n \<and>
    (\<forall>k < n. bytes (pdus ! k) = nr_pdu L mac0 e (tx_next e + of_nat k) (bytes (sdus ! k))) \<and>
    tx_next e' = tx_next e + of_nat n \<and> nr_tx_of e e'"
  using assms(2-5,7) unfolding n_def
proof (induction sdus arbitrary: h e)
  case Nil
  then show ?case using nr_tx_of_refl by (auto intro: exI [of _ "[]"])
next
  case (Cons s ss)
  let ?c = "tx_next e"
  obtain h1 e1 pdu where w: "nr_write_sdu L mac0 (h, e) s = Some ((h1, e1), [To_RLC (lcid e) pdu])"
      "bytes pdu = nr_pdu L mac0 e ?c (bytes s)" "tx_next e1 = ?c + 1" "tx_overflow e1 = (?c + 1 = 0)" "nr_tx_of e e1"
    using nr_write_sdu_pdu [OF assms(1) Cons.prems(1-4) _ _ assms(6), of s h] Cons.prems(5) by auto
  note keep = nr_tx_of_keeps [OF w(5)]
  show ?case
  proof (cases "?c + 1 = 0")
    case True
    then have "?c = -1" by (simp add: eq_neg_iff_add_eq_0)
    then have "2 ^ 32 - unat ?c = 1" by (simp add: unsigned_minus_1_eq_mask mask_eq_exp_minus_1)
    then have n: "min (length (s # ss)) (2 ^ 32 - unat ?c) = 1" by simp
    have "nr_send_all L mac0 (s # ss) (h, e) = Some ((h1, e1), map (To_RLC (lcid e)) [pdu])"
      using nr_send_all_overflow [of e1 L mac0 ss h1] True w keep Cons.prems(3) by simp
    then show ?thesis
      unfolding n using w by (intro exI [of _ h1] exI [of _ e1] exI [of _ "[pdu]"]) simp
  next
    case False
    then have c1: "unat (?c + 1) = unat ?c + 1" using unatSuc [of ?c] by (simp add: add.commute)
    let ?n = "min (length ss) (2 ^ 32 - unat (tx_next e1))"
    have n: "min (length (s # ss)) (2 ^ 32 - unat ?c) = Suc ?n"
      using unat_u32_less [of "?c + 1"] c1 by (simp add: w(3) Suc_diff_Suc)
    obtain h' e' pdus where IH: "nr_send_all L mac0 ss (h1, e1) = Some ((h', e'), map (To_RLC (lcid e1)) pdus)"
        "length pdus = ?n" "\<forall>k < ?n. bytes (pdus ! k) = nr_pdu L mac0 e1 (tx_next e1 + of_nat k) (bytes (ss ! k))"
        "tx_next e' = tx_next e1 + of_nat ?n" "nr_tx_of e1 e'"
      using Cons.IH [of e1 h1] Cons.prems keep w(4) False by auto
    have "bytes ((pdu # pdus) ! k) = nr_pdu L mac0 e (?c + of_nat k) (bytes ((s # ss) ! k))" if "k < Suc ?n" for k
    proof (cases k)
      case (Suc j)
      then have "j < ?n" using that by simp
      with IH(3) have "bytes (pdus ! j) = nr_pdu L mac0 e (?c + 1 + of_nat j) (bytes (ss ! j))" by (simp only: keep w(3))
      then show ?thesis by (simp add: Suc add.assoc)
    qed (simp add: w(2))
    moreover have "nr_send_all L mac0 (s # ss) (h, e) = Some ((h', e'), map (To_RLC (lcid e)) (pdu # pdus))"
      using w(1) IH(1) keep(4) by simp
    moreover have "tx_next e' = ?c + of_nat (Suc ?n)" unfolding IH(4) w(3) by simp
    ultimately show ?thesis
      unfolding n using IH(2) nr_tx_of_trans [OF w(5) IH(5)]
      by (intro exI [of _ h'] exI [of _ e'] exI [of _ "pdu # pdus"]) simp
  qed
qed

text \<open>C17. No COUNT is used twice under one key: of any series of SDUs the sender takes as many as there are COUNTs left
  from TX_NEXT to 2^32 - 1 and no more; the k-th PDU it sends is numbered, ciphered and protected with the COUNT
  TX_NEXT + k, and these COUNTs do not wrap, so they are all different.\<close>

theorem nr_counts_never_reused:
  assumes "crypto_lib_ok L" "keys_ok e" "nr_config e" "initialized e" "\<not> tx_overflow e" "length mac0 = 4"
    and "\<forall>s \<in> set sdus. nr_fits s \<and> 0 < length (bytes s)"
    and "n = min (length sdus) (2 ^ 32 - unat (tx_next e))"
  shows "\<exists>st pdus. nr_send_all L mac0 sdus (h, e) = Some (st, map (To_RLC (lcid e)) pdus) \<and> length pdus = n \<and>
    (\<forall>k < n. bytes (pdus ! k) = nr_pdu L mac0 e (tx_next e + of_nat k) (bytes (sdus ! k)) \<and>
       unat (tx_next e + of_nat k) = unat (tx_next e) + k)"
proof -
  have "unat (tx_next e + of_nat k) = unat (tx_next e) + k" if "k < n" for k
  proof -
    have "unat (tx_next e) + k < 2 ^ 32" using that assms(8) by (simp add: less_diff_conv add.commute)
    then show ?thesis by (simp add: unat_word_ariths unat_of_nat)
  qed
  then show ?thesis
    using nr_send_all_pdus [OF assms(1-7), of h] unfolding assms(8) [symmetric] by blast
qed

text \<open>What receiving changes of the entity, and what it therefore keeps.\<close>

definition nr_rx_of :: "pdcp_entity_nr \<Rightarrow> pdcp_entity_nr \<Rightarrow> bool" where
  "nr_rx_of e e' \<longleftrightarrow>
     (\<exists>q n d ov ro. e' = e\<lparr>reorder_queue := q, rx_next := n, rx_deliv := d, rx_overflow := ov, rx_reord := ro\<rparr>)"

lemma nr_rx_of_refl: "nr_rx_of e e"
proof -
  have "e = e\<lparr>reorder_queue := reorder_queue e, rx_next := rx_next e, rx_deliv := rx_deliv e,
      rx_overflow := rx_overflow e, rx_reord := rx_reord e\<rparr>" by simp
  then show ?thesis unfolding nr_rx_of_def by blast
qed

lemma nr_rx_of_trans: "nr_rx_of e e' \<Longrightarrow> nr_rx_of e' e'' \<Longrightarrow> nr_rx_of e e''"
  by (fastforce simp: nr_rx_of_def)

lemma nr_rx_of_keeps:
  assumes "nr_rx_of e e'"
  shows "keys_ok e' = keys_ok e" "nr_config e' = nr_config e" "initialized e' = initialized e"
    "reordering_timer e' = reordering_timer e" "pcfg e' = pcfg e" "window_size e' = window_size e"
    "integ_algo e' = integ_algo e"
    and "eea_of L e' = eea_of L e" "eia_of L e' = eia_of L e" "nr_header e' = nr_header e"
    and "pass_to_upper_layers e' = pass_to_upper_layers e"
proof -
  obtain q n d ov ro where
    e': "e' = e\<lparr>reorder_queue := q, rx_next := n, rx_deliv := d, rx_overflow := ov, rx_reord := ro\<rparr>"
    using assms unfolding nr_rx_of_def by blast
  show "keys_ok e' = keys_ok e" "nr_config e' = nr_config e" "initialized e' = initialized e"
    "reordering_timer e' = reordering_timer e" and p: "pcfg e' = pcfg e" and "window_size e' = window_size e"
    and i: "integ_algo e' = integ_algo e"
    by (simp_all add: e' keys_ok_def nr_config_def)
  have s: "is_drb e' = is_drb e" "is_srb e' = is_srb e" "pdcp_SN e' = pdcp_SN e" "cipher_algo e' = cipher_algo e"
    "k_enc e' = k_enc e" "k_int e' = k_int e" "lcid e' = lcid e"
    by (simp_all add: e' is_drb_def is_srb_def pdcp_SN_def k_enc_def k_int_def fun_eq_iff)
  show "eea_of L e' = eea_of L e" "eia_of L e' = eia_of L e" "nr_header e' = nr_header e"
    "pass_to_upper_layers e' = pass_to_upper_layers e"
    unfolding fun_eq_iff by (simp_all only: eea_of_def eia_of_def nr_header_def pass_to_upper_layers_def s p i simp_thms)
qed

lemma nr_accept_rx_of:
  assumes "nr_accept c b e = Some (e', out)"
  shows "nr_rx_of e e'"
proof -
  obtain q n d ov where "e' = e\<lparr>reorder_queue := q, rx_next := n, rx_deliv := d, rx_overflow := ov\<rparr>"
  proof (rule that)
    show "e' = e\<lparr>reorder_queue := reorder_queue e', rx_next := rx_next e', rx_deliv := rx_deliv e', rx_overflow := rx_overflow e'\<rparr>"
      using assms by (auto simp: nr_accept_def deliver_all_consecutive_counts_def Let_def split: if_splits prod.splits)
  qed
  then have "e' = e\<lparr>reorder_queue := q, rx_next := n, rx_deliv := d, rx_overflow := ov, rx_reord := rx_reord e\<rparr>" by simp
  then show ?thesis unfolding nr_rx_of_def by blast
qed

text \<open>A PDU that carries the SDU \<open>g n\<close> under the COUNT \<open>n\<close> for the receiver \<open>r\<close>.\<close>

definition nr_carries :: "crypto_lib \<Rightarrow> pdcp_entity_nr \<Rightarrow> (nat \<Rightarrow> u8 list) \<Rightarrow> nat \<Rightarrow> byte_buffer \<Rightarrow> bool" where
  "nr_carries L r g n pdu \<longleftrightarrow>
     0 < length (g n) \<and> length (g n) \<le> PDCP_MAX_SDU_SIZE \<and>
     (\<exists>mac. bytes pdu = nr_header r (of_nat n) @ eea_of L r (rx_direction (pcfg r)) (of_nat n) (g n) @ mac \<and> length mac = 4 \<and>
       (integ_algo r = INTEGRITY_ALGORITHM_ID_EIA0 \<or> mac = eia_of L r (rx_direction (pcfg r)) (of_nat n) (g n)))"

lemma nr_write_pdu_step:
  assumes "crypto_lib_ok L" "keys_ok r" "nr_config r" "initialized r" "reordering_timer r = Some i" "nr_rx_of r e"
    and "nr_waits f d xs e" "\<forall>x \<in> set xs. bytes (f x) = g x" "nr_carries L r g n pdu" "n + 1 < 2 ^ 32"
    and "d \<le> n + unat (window_size r)" "n < d + unat (window_size r)"
  shows "\<exists>h' e' f' d' ys bs. nr_write_pdu L mac0 (h, e) pdu = Some ((h', e'), map (pass_to_upper_layers r) bs) \<and>
    nr_rx_of r e' \<and> nr_waits f' d' ys e' \<and> (\<forall>y \<in> set ys. bytes (f' y) = g y) \<and> map bytes bs = map g [d..<d'] \<and> d \<le> d' \<and>
    {m. m = n \<and> d \<le> m} \<union> set xs = {d..<d'} \<union> set ys"
proof -
  note keep = nr_rx_of_keeps [OF assms(6)]
  let ?c = "of_nat n :: u32"
  obtain mac where mac: "bytes pdu = nr_header e ?c @ eea_of L e (rx_direction (pcfg e)) ?c (g n) @ mac" "length mac = 4"
      "integ_algo e = INTEGRITY_ALGORITHM_ID_EIA0 \<or> mac = eia_of L e (rx_direction (pcfg e)) ?c (g n)"
      and g: "0 < length (g n)" "length (g n) \<le> PDCP_MAX_SDU_SIZE"
    using assms(9) unfolding nr_carries_def keep by blast
  have n: "unat ?c = n" using assms(10) by (simp add: unat_of_nat_u32)
  have d: "unat (rx_deliv e) = d" using assms(7) by (simp add: nr_waits_def unat_of_nat_u32)
  have win: "unat (rx_deliv e) \<le> unat ?c + unat (window_size e)" "unat ?c < unat (rx_deliv e) + unat (window_size e)"
    using assms(11,12) unfolding n d keep by simp_all
  have ok: "keys_ok e" "nr_config e" "initialized e" "reordering_timer e = Some i" using assms(2-5) keep by simp_all
  obtain b where b: "bytes b = g n" "nr_write_pdu L mac0 (h, e) pdu =
      (case nr_accept ?c b e of
         None \<Rightarrow> Some ((h, e), [])
       | Some (e, out) \<Rightarrow> (case reordering_timer e of
             None \<Rightarrow> None | Some i \<Rightarrow> Some (handle_reordering_timer i (h, e), out)))"
    using nr_write_pdu_accept [OF assms(1) ok mac(1) g mac(2,3) win, of mac0 h] by blast
  show ?thesis
  proof (cases "n < d \<or> n \<in> set xs")
    case True
    have "nr_write_pdu L mac0 (h, e) pdu = Some ((h, e), map (pass_to_upper_layers r) [])"
      unfolding b(2) nr_accept_drop [OF assms(7,10) True] by simp
    moreover have "{m. m = n \<and> d \<le> m} \<union> set xs = {d..<d} \<union> set xs" using True by auto
    moreover have "map bytes [] = map g [d..<d]" by simp
    ultimately show ?thesis using assms(6-8) order_refl by blast
  next
    case False
    let ?f = "f(n := b)"
    have w: "nr_waits ?f d xs e" using False by (intro nr_waits_upd [OF assms(7)]) simp
    obtain e1 d' ys where acc: "nr_accept ?c b e = Some (e1, map (pass_to_upper_layers e \<circ> ?f) [d..<d'])"
        "nr_waits ?f d' ys e1" "d \<le> d'" "insert n (set xs) = {d..<d'} \<union> set ys"
      using nr_accept_keep [OF w assms(10)] False by auto
    obtain h' e' where t: "handle_reordering_timer i (h, e1) = (h', e')" by force
    obtain ro where e': "e' = e1\<lparr>rx_reord := ro\<rparr>" using handle_reordering_timer_fields [OF t] by blast
    have "nr_rx_of e1 e'"
      unfolding e' nr_rx_of_def
      by (rule exI [of _ "reorder_queue e1"], rule exI [of _ "rx_next e1"], rule exI [of _ "rx_deliv e1"],
          rule exI [of _ "rx_overflow e1"], rule exI [of _ ro]) simp
    then have rx: "nr_rx_of e e'" "nr_rx_of r e'"
      using nr_rx_of_trans nr_accept_rx_of [OF acc(1)] assms(6) by blast+
    have "reordering_timer e1 = Some i" using nr_rx_of_keeps(4) [OF nr_accept_rx_of [OF acc(1)]] ok(4) by simp
    then have "nr_write_pdu L mac0 (h, e) pdu = Some ((h', e'), map (pass_to_upper_layers r) (map ?f [d..<d']))"
      unfolding b(2) acc(1) keep(11) by (simp add: t)
    moreover have "nr_waits ?f d' ys e'" using acc(2) by (simp add: nr_waits_def e')
    moreover have fg: "bytes (?f x) = g x" if "x \<in> {d..<d'} \<union> set ys" for x
      using that assms(8) b(1) by (auto simp flip: acc(4))
    then have "map bytes (map ?f [d..<d']) = map g [d..<d']" by simp
    moreover have "{m. m = n \<and> d \<le> m} \<union> set xs = {d..<d'} \<union> set ys" using acc(4) False by auto
    moreover have "\<forall>y \<in> set ys. bytes (?f y) = g y" using fg by blast
    ultimately show ?thesis using rx(2) acc(3) by blast
  qed
qed

text \<open>A series of PDUs given to the receiver, with no expiry of a timer in between.\<close>

primrec nr_receive_all :: "crypto_lib \<Rightarrow> u8 list \<Rightarrow> byte_buffer list \<Rightarrow> nr_state \<Rightarrow> (nr_state \<times> nr_out list) option" where
  "nr_receive_all L mac0 [] st = Some (st, [])"
| "nr_receive_all L mac0 (p # ps) st =
     do {
       (st, out) \<leftarrow> nr_write_pdu L mac0 st p;
       (st, rest) \<leftarrow> nr_receive_all L mac0 ps st;
       Some (st, out @ rest)
     }"

lemma nr_receive_all_waits:
  assumes "crypto_lib_ok L" "keys_ok r" "nr_config r" "initialized r" "reordering_timer r = Some i"
    and "k \<le> unat (window_size r)" "d0 + k < 2 ^ 32"
    and "nr_rx_of r e" "nr_waits f d xs e" "\<forall>x \<in> set xs. bytes (f x) = g x \<and> x < d0 + k" "d0 \<le> d" "d \<le> d0 + k"
    and "list_all2 (nr_carries L r g) ns pdus" "\<forall>n \<in> set ns. d0 \<le> n \<and> n < d0 + k"
  shows "\<exists>h' e' f' d' ys bs. nr_receive_all L mac0 pdus (h, e) = Some ((h', e'), map (pass_to_upper_layers r) bs) \<and>
    nr_waits f' d' ys e' \<and> map bytes bs = map g [d..<d'] \<and> d \<le> d' \<and>
    {m \<in> set ns. d \<le> m} \<union> set xs = {d..<d'} \<union> set ys"
  using assms(13,8-12,14)
proof (induction ns pdus arbitrary: h e f d xs rule: list_all2_induct)
  case Nil
  have "nr_receive_all L mac0 [] (h, e) = Some ((h, e), map (pass_to_upper_layers r) [])" by simp
  moreover have "map bytes [] = map g [d..<d]" "{m \<in> set []. d \<le> m} \<union> set xs = {d..<d} \<union> set xs" by simp_all
  ultimately show ?case using Nil order_refl by blast
next
  case (Cons n ns pdu pdus)
  have n: "n + 1 < 2 ^ 32" "d \<le> n + unat (window_size r)" "n < d + unat (window_size r)"
    using Cons.prems(4-6) assms(6,7) by auto
  have f: "\<forall>x \<in> set xs. bytes (f x) = g x" using Cons.prems(3) by blast
  obtain h1 e1 f1 d1 ys1 bs1 where s: "nr_write_pdu L mac0 (h, e) pdu = Some ((h1, e1), map (pass_to_upper_layers r) bs1)"
      "nr_rx_of r e1" "nr_waits f1 d1 ys1 e1" "\<forall>y \<in> set ys1. bytes (f1 y) = g y" "map bytes bs1 = map g [d..<d1]" "d \<le> d1"
      "{m. m = n \<and> d \<le> m} \<union> set xs = {d..<d1} \<union> set ys1"
    using nr_write_pdu_step [OF assms(1-5) Cons.prems(1,2) f Cons.hyps(1) n, of mac0 h] by (elim exE conjE) (rule that)
  have below: "x < d0 + k" if "x \<in> {d..<d1} \<union> set ys1" for x
    using that Cons.prems(3,6) by (auto simp flip: s(7))
  have "d1 \<le> d0 + k"
  proof (cases "d = d1")
    case False
    then have "d1 - 1 \<in> {d..<d1} \<union> set ys1" using s(6) by auto
    from below [OF this] show ?thesis by linarith
  qed (use Cons.prems(5) in simp)
  moreover have "\<forall>y \<in> set ys1. bytes (f1 y) = g y \<and> y < d0 + k" using s(4) below by blast
  moreover have "d0 \<le> d1" "\<forall>n \<in> set ns. d0 \<le> n \<and> n < d0 + k" using s(6) Cons.prems(4,6) by auto
  ultimately obtain h' e' f' d' ys bs where IH:
      "nr_receive_all L mac0 pdus (h1, e1) = Some ((h', e'), map (pass_to_upper_layers r) bs)" "nr_waits f' d' ys e'"
      "map bytes bs = map g [d1..<d']" "d1 \<le> d'" "{m \<in> set ns. d1 \<le> m} \<union> set ys1 = {d1..<d'} \<union> set ys"
    using Cons.IH [OF s(2,3), of h1] by blast
  have "nr_receive_all L mac0 (pdu # pdus) (h, e) = Some ((h', e'), map (pass_to_upper_layers r) (bs1 @ bs))"
    using s(1) IH(1) by simp
  moreover have "map bytes (bs1 @ bs) = map g [d..<d']"
    using s(5,6) IH(3,4) upt_add_eq_append [of d d1 "d' - d1"] by simp
  moreover have "{m \<in> set (n # ns). d \<le> m} \<union> set xs = {d..<d'} \<union> set ys"
  proof -
    have "{m \<in> set (n # ns). d \<le> m} \<union> set xs = {m \<in> set ns. d \<le> m} \<union> ({m. m = n \<and> d \<le> m} \<union> set xs)" by auto
    also have "\<dots> = {m \<in> set ns. d \<le> m} \<union> ({d..<d1} \<union> set ys1)" by (simp only: s(7))
    also have "\<dots> = {d..<d1} \<union> ({m \<in> set ns. d1 \<le> m} \<union> set ys1)" using s(6) by (auto simp: not_le)
    also have "\<dots> = {d..<d'} \<union> set ys" unfolding IH(5) using s(6) IH(4) by auto
    finally show ?thesis .
  qed
  moreover have "d \<le> d'" using s(6) IH(4) by simp
  ultimately show ?case using IH(2) by blast
qed

text \<open>What the peer of a sender makes of its PDUs.\<close>

lemma nr_pdu_carries:
  assumes "crypto_lib_ok L" "keys_ok e" "pdcp_peers e r" "integ_algo e \<noteq> INTEGRITY_ALGORITHM_ID_N_ITEMS" "length mac0 = 4"
    and "nr_fits sdu" "0 < length (bytes sdu)" "g n = bytes sdu" "bytes pdu = nr_pdu L mac0 e (of_nat n) (bytes sdu)"
  shows "nr_carries L r g n pdu"
proof -
  have max: "length (bytes sdu) \<le> PDCP_MAX_SDU_SIZE" by (rule nr_fits_max [OF assms(6)])
  have peer: "nr_header e = nr_header r" "tx_direction (pcfg e) = rx_direction (pcfg r)" "integ_algo e = integ_algo r"
    using assms(3) by (auto simp: pdcp_peers_def nr_header_def is_drb_def pdcp_SN_def fun_eq_iff Let_def)
  let ?mac = "nr_mac L mac0 e (of_nat n) (bytes sdu)"
  have "bytes pdu = nr_header r (of_nat n) @ eea_of L r (rx_direction (pcfg r)) (of_nat n) (bytes sdu) @ ?mac"
    unfolding assms(9) nr_pdu_def by (simp add: peer pdcp_peers_security [OF assms(3)])
  moreover have "length ?mac = 4"
    by (rule integrity_generate_nr(2) [OF assms(1,2,7) max assms(5)])
  moreover have "integ_algo r = INTEGRITY_ALGORITHM_ID_EIA0 \<or> ?mac = eia_of L r (rx_direction (pcfg r)) (of_nat n) (bytes sdu)"
    using assms(4) by (auto simp: nr_mac_def peer pdcp_peers_security [OF assms(3)])
  ultimately show ?thesis unfolding nr_carries_def assms(8) using assms(7) max by blast
qed

text \<open>C4. In-order delivery, from the SDUs given to the sender to the SDUs the receiver hands up: the sender numbers,
  protects and ciphers up to a window of SDUs; whatever the order in which the PDUs reach the synchronised peer, and
  however often each is repeated, each SDU is delivered once and unchanged, in the order in which they were given to the
  sender, and the receiver ends with an empty reordering queue and RX_DELIV at the sender's TX_NEXT. The SDUs are short
  enough for a MAC (\<open>nr_fits\<close>), the COUNT does not wrap, and t-Reordering does not expire in between.\<close>

theorem nr_delivers_in_order:
  assumes "crypto_lib_ok L" "keys_ok e" "keys_ok r" "pdcp_peers e r" "nr_config e" "nr_config r"
    and "initialized e" "initialized r" "reordering_timer r = Some i" "integ_algo e \<noteq> INTEGRITY_ALGORITHM_ID_N_ITEMS"
    and "\<not> tx_overflow e" "\<not> rx_overflow r" "reorder_queue r = []" "rx_deliv r = tx_next e" "length mac0 = 4"
    and "\<forall>s \<in> set sdus. nr_fits s \<and> 0 < length (bytes s)" "length sdus \<le> unat (window_size r)"
    and "unat (tx_next e) + length sdus < 2 ^ 32" "set order = {..<length sdus}"
  shows "\<exists>h1 e1 pdus h2 r2 bs. nr_send_all L mac0 sdus (h, e) = Some ((h1, e1), map (To_RLC (lcid e)) pdus) \<and>
    length pdus = length sdus \<and>
    nr_receive_all L mac0' (map ((!) pdus) order) (h', r) = Some ((h2, r2), map (pass_to_upper_layers r) bs) \<and>
    map bytes bs = map bytes sdus \<and> rx_deliv r2 = tx_next e1 \<and> reorder_queue r2 = []"
proof -
  define d0 k where "d0 = unat (tx_next e)" and "k = length sdus"
  define g where "g n = bytes (sdus ! (n - d0))" for n
  have c: "tx_next e = of_nat d0" by (simp add: d0_def)
  have kn: "min (length sdus) (2 ^ 32 - unat (tx_next e)) = k" using assms(18) by (simp add: k_def)
  obtain h1 e1 pdus where tx: "nr_send_all L mac0 sdus (h, e) = Some ((h1, e1), map (To_RLC (lcid e)) pdus)" "length pdus = k"
      "\<forall>j < k. bytes (pdus ! j) = nr_pdu L mac0 e (tx_next e + of_nat j) (bytes (sdus ! j))" "tx_next e1 = tx_next e + of_nat k"
    using nr_send_all_pdus [OF assms(1,2,5,7,11,15,16), of h] unfolding kn by blast
  have "nr_carries L r g (d0 + j) (pdus ! j)" if "j < k" for j
  proof -
    have s: "sdus ! j \<in> set sdus" using that by (simp add: k_def)
    have "bytes (pdus ! j) = nr_pdu L mac0 e (of_nat (d0 + j)) (bytes (sdus ! j))" using tx(3) that by (simp add: c)
    then show ?thesis
      using assms(16) s by (intro nr_pdu_carries [OF assms(1,2,4,10,15), of "sdus ! j"]) (auto simp: g_def)
  qed
  then have carries: "list_all2 (nr_carries L r g) (map ((+) d0) order) (map ((!) pdus) order)"
    using assms(19) by (auto simp: list_all2_map1 list_all2_map2 k_def intro!: list.rel_refl_strong)
  have kd: "d0 + k < 2 ^ 32" using assms(18) unfolding d0_def k_def .
  have w: "nr_waits (\<lambda>_. undefined) d0 [] r"
    using assms(12-14) kd unfolding c by (simp add: nr_waits_def)
  have kw: "k \<le> unat (window_size r)" using assms(17) unfolding k_def .
  have none: "\<forall>x \<in> set []. bytes ((\<lambda>_. undefined) x) = g x \<and> x < d0 + k" by simp
  have ns: "\<forall>n \<in> set (map ((+) d0) order). d0 \<le> n \<and> n < d0 + k" using assms(19) by (auto simp: k_def)
  obtain h2 r2 f' d' ys bs where rx:
      "nr_receive_all L mac0' (map ((!) pdus) order) (h', r) = Some ((h2, r2), map (pass_to_upper_layers r) bs)"
      "nr_waits f' d' ys r2" "map bytes bs = map g [d0..<d']" "d0 \<le> d'"
      "{m \<in> set (map ((+) d0) order). d0 \<le> m} \<union> set [] = {d0..<d'} \<union> set ys"
    using nr_receive_all_waits [OF assms(1,3,6,8,9) kw kd nr_rx_of_refl w none order_refl le_add1 carries ns, of mac0' h']
    by (elim exE conjE) (rule that)
  have "{d0..<d0 + k} = {m \<in> set (map ((+) d0) order). d0 \<le> m}"
  proof -
    have "m \<in> (+) d0 ` {..<k}" if "d0 \<le> m" "m < d0 + k" for m
      using that by (intro image_eqI [of _ _ "m - d0"]) auto
    then show ?thesis using assms(19) unfolding k_def by auto
  qed
  then have all: "{d0..<d0 + k} = {d0..<d'} \<union> set ys" using rx(5) by simp
  have later: "\<forall>y \<in> set ys. d' < y" using rx(2) by (simp add: nr_waits_def)
  note fin = all_delivered [OF all rx(4) later]
  have "map g [d0..<d0 + k] = map bytes sdus"
    by (rule nth_equalityI) (simp_all add: g_def k_def)
  then have "map bytes bs = map bytes sdus" using rx(3) fin(1) by simp
  moreover have "rx_deliv r2 = tx_next e1" "reorder_queue r2 = []"
    using rx(2) unfolding tx(4) c by (simp_all add: nr_waits_def fin)
  ultimately show ?thesis using tx(1,2) rx(1) unfolding k_def by blast
qed

text \<open>C35. An SDU of 6116 bytes or more, which the SDU size check admits, is sent without its MAC: append_mac compares the new length with a tail room that already excludes the payload.\<close>

theorem nr_long_sdu_without_mac:
  assumes "crypto_lib_ok L" "keys_ok e" "nr_config e" "initialized e" "\<not> tx_overflow e"
    and "msg_ptr sdu = SRSLTE_BUFFER_HEADER_OFFSET" "6116 \<le> length (bytes sdu)" "length (bytes sdu) \<le> PDCP_MAX_SDU_SIZE"
    and "length mac0 = 4"
  shows "\<exists>h' e' pdu. nr_write_sdu L mac0 (h, e) sdu = Some ((h', e'), [To_RLC (lcid e) pdu]) \<and>
    bytes pdu = nr_header e (tx_next e) @ eea_of L e (tx_direction (pcfg e)) (tx_next e) (bytes sdu)"
proof -
  let ?c = "tx_next e"
  have ptr: "3 \<le> msg_ptr sdu" "msg_ptr sdu < 2 ^ 31" using assms(6) by (simp_all add: buffer_size_defs)
  have pos: "0 < length (bytes sdu)" using assms(7) by simp
  from nr_write_sdu_steps [OF assms(1-5) ptr pos assms(8,9), of h] obtain h' e' b where
    r: "nr_write_sdu L mac0 (h, e) sdu = Some ((h', e'), [To_RLC (lcid e) (append_mac b (nr_mac L mac0 e ?c (bytes sdu)))])"
      "bytes b = nr_header e ?c @ eea_of L e (tx_direction (pcfg e)) ?c (bytes sdu)"
      "msg_ptr b = msg_ptr sdu - uint (hdr_len_bytes (pcfg e))" by blast
  let ?n = "unat (hdr_len_bytes (pcfg e))"
  have n: "?n = 2 \<or> ?n = 3" "uint (hdr_len_bytes (pcfg e)) = int ?n" using assms(3) by (auto simp: nr_config_def)
  have N: "unat (N_bytes b) = ?n + length (bytes sdu)"
    using arg_cong [OF r(2), of length] assms(1,3) by simp
  have small: "length (bytes sdu) \<le> 9000" using assms(8) by (simp add: PDCP_MAX_SDU_SIZE_def)
  have tail: "get_tailroom b = of_nat (12237 + ?n) - N_bytes b"
    using n(1) unfolding get_tailroom_def r(3) assms(6) n(2) by (auto simp: buffer_size_defs)
  have "unat (of_nat (12237 + ?n) :: u32) = 12237 + ?n" by (rule unat_of_nat_u32) (use n in auto)
  moreover have "unat (N_bytes b) \<le> 12237 + ?n" using N small by simp
  ultimately have "unat (get_tailroom b) = 12237 - length (bytes sdu)"
    unfolding tail by (simp add: unat_sub word_le_nat_alt N del: of_nat_add)
  moreover have "unat (N_bytes b + 4) = ?n + length (bytes sdu) + 4"
  proof -
    have "?n + length (bytes sdu) + 4 < 2 ^ 32" using n(1) small by auto
    then show ?thesis using N by (simp add: unat_word_ariths)
  qed
  moreover have "2 \<le> ?n" using n(1) by auto
  ultimately have "N_bytes b + 4 > get_tailroom b"
    using small assms(7) by (simp add: word_less_nat_alt)
  then have "append_mac b (nr_mac L mac0 e ?c (bytes sdu)) = b" by (simp add: append_mac_def)
  with r show ?thesis by auto
qed

text \<open>Under the null integrity algorithm the PDU ends in whatever four bytes the uninitialised MAC array of write_sdu held.\<close>

theorem nr_eia0_sends_mac0:
  assumes "crypto_lib_ok L" "keys_ok e" "nr_config e" "initialized e" "\<not> tx_overflow e"
    and "integ_algo e = INTEGRITY_ALGORITHM_ID_EIA0" "nr_fits sdu" "0 < length (bytes sdu)" "length mac0 = 4"
  shows "\<exists>h' e' pdu. nr_write_sdu L mac0 (h, e) sdu = Some ((h', e'), [To_RLC (lcid e) pdu]) \<and>
    drop (length (bytes pdu) - 4) (bytes pdu) = mac0"
proof -
  have last4: "drop (length (xs @ mac0) - 4) (xs @ mac0) = mac0" for xs using assms(9) by simp
  from nr_write_sdu_pdu [OF assms(1-5,7-9), of h] obtain h' e' pdu where
    r: "nr_write_sdu L mac0 (h, e) sdu = Some ((h', e'), [To_RLC (lcid e) pdu])"
      "bytes pdu = nr_pdu L mac0 e (tx_next e) (bytes sdu)" by blast
  have "bytes pdu = (nr_header e (tx_next e) @ eea_of L e (tx_direction (pcfg e)) (tx_next e) (bytes sdu)) @ mac0"
    unfolding r(2) by (simp add: nr_pdu_def nr_mac_def assms(6))
  then have "drop (length (bytes pdu) - 4) (bytes pdu) = mac0" by (simp only: last4)
  with r(1) show ?thesis by blast
qed

text \<open>A configured data bearer for the witnesses.\<close>

definition sample_nr_state :: "INTEGRITY_ALGORITHM_ID_ENUM \<Rightarrow> security_direction_t \<Rightarrow> security_direction_t \<Rightarrow> nr_state" where
  "sample_nr_state ia txd rxd =
     (let (h, e) = nr_init 1 (pdcp_config 1 PDCP_RB_IS_DRB txd rxd 12 tr_ms10 td_infinity) (new_timer_handler, new_pdcp_entity_nr)
      in (h, config_security (replicate 32 1) (replicate 32 2) (replicate 32 3) None CIPHERING_ALGORITHM_ID_128_EEA2 ia e))"

abbreviation "nr_h \<equiv> fst (sample_nr_state INTEGRITY_ALGORITHM_ID_128_EIA2 SECURITY_DIRECTION_DOWNLINK SECURITY_DIRECTION_UPLINK)"
abbreviation "nr_tx ia \<equiv> snd (sample_nr_state ia SECURITY_DIRECTION_DOWNLINK SECURITY_DIRECTION_UPLINK)"
abbreviation "nr_rx ia \<equiv> snd (sample_nr_state ia SECURITY_DIRECTION_UPLINK SECURITY_DIRECTION_DOWNLINK)"

lemmas sample_nr_defs =
  sample_nr_state_def nr_init_def pdcp_config_def new_timer_handler_def new_pdcp_entity_nr_def config_security_def
  pdcp_entity_base_init_def pdcp_entity_base.defs get_unique_timer_def unique_timer_assign_def impl_update_def impl_def
  new_timer_impl_def Let_def copy_n_def timer_set_callback_def timer_set_def quarter is_running_def

lemma sample_nr_ok [simp]:
  "keys_ok (snd (sample_nr_state ia txd rxd))" "nr_config (snd (sample_nr_state ia txd rxd))"
  "initialized (snd (sample_nr_state ia txd rxd))" "reordering_timer (snd (sample_nr_state ia txd rxd)) = Some 0"
  "integ_algo (snd (sample_nr_state ia txd rxd)) = ia" "tx_next (snd (sample_nr_state ia txd rxd)) = 0"
  "\<not> tx_overflow (snd (sample_nr_state ia txd rxd))" "\<not> rx_overflow (snd (sample_nr_state ia txd rxd))"
  "reorder_queue (snd (sample_nr_state ia txd rxd)) = []" "rx_deliv (snd (sample_nr_state ia txd rxd)) = 0"
  "window_size (snd (sample_nr_state ia txd rxd)) = 2048" "pdcp_peers (nr_tx ia) (nr_rx ia)"
  by (simp_all add: sample_nr_defs keys_ok_def nr_config_def pdcp_peers_def k_enc_def k_int_def is_srb_def)

lemma sample_nr_hdr: "unat (hdr_len_bytes (pcfg (snd (sample_nr_state ia txd rxd)))) = 2"
  by (simp add: sample_nr_defs)

lemma buffer_of_fits [simp]:
  "msg_ptr (buffer_of bs) = SRSLTE_BUFFER_HEADER_OFFSET"
  "length bs \<le> 6000 \<Longrightarrow> nr_fits (buffer_of bs)"
proof -
  show p: "msg_ptr (buffer_of bs) = SRSLTE_BUFFER_HEADER_OFFSET"
    by (simp add: buffer_of_def append_bytes_def new_byte_buffer_def)
  assume l: "length bs \<le> 6000"
  then have "bytes (buffer_of bs) = bs" by (intro bytes_buffer_of) simp
  then show "nr_fits (buffer_of bs)" unfolding nr_fits_def p using l by (simp add: buffer_size_defs)
qed

theorem nr_roundtrip_witness:
  "\<exists>h1 e1 pdu h2 r2 b. nr_write_sdu sample_lib [1, 2, 3, 4] (nr_h, nr_tx INTEGRITY_ALGORITHM_ID_128_EIA2) (buffer_of [1, 2, 3]) =
      Some ((h1, e1), [To_RLC (lcid (nr_tx INTEGRITY_ALGORITHM_ID_128_EIA2)) pdu]) \<and>
    nr_write_pdu sample_lib [0, 0, 0, 0] (nr_h, nr_rx INTEGRITY_ALGORITHM_ID_128_EIA2) pdu =
      Some ((h2, r2), [pass_to_upper_layers (nr_rx INTEGRITY_ALGORITHM_ID_128_EIA2) b]) \<and>
    bytes b = bytes (buffer_of [1, 2, 3]) \<and>
    tx_next e1 = tx_next (nr_tx INTEGRITY_ALGORITHM_ID_128_EIA2) + 1 \<and> rx_deliv r2 = tx_next e1"
  by (rule nr_roundtrip) simp_all

theorem nr_count_window_witness:
  "nr_rcvd_count (nr_rx INTEGRITY_ALGORITHM_ID_EIA0) (pdcp_SN (nr_rx INTEGRITY_ALGORITHM_ID_EIA0) 2047) = 2047 \<and>
   nr_rcvd_count (nr_rx INTEGRITY_ALGORITHM_ID_EIA0) (pdcp_SN (nr_rx INTEGRITY_ALGORITHM_ID_EIA0) 2048) = 2048 - 4096"
  using nr_count_window [of "nr_rx INTEGRITY_ALGORITHM_ID_EIA0" 2047] nr_count_window [of "nr_rx INTEGRITY_ALGORITHM_ID_EIA0" 2048]
  by simp

theorem nr_expiry_keeps_rx_deliv_witness:
  "\<exists>h' e'. reordering_expired (nr_h, (nr_rx INTEGRITY_ALGORITHM_ID_EIA0)
        \<lparr>reorder_queue := [(1, buffer_of [1]), (2, buffer_of [2])], rx_reord := 3, rx_next := 3\<rparr>) =
      ((h', e'), map (pass_to_upper_layers (nr_rx INTEGRITY_ALGORITHM_ID_EIA0)) [buffer_of [1], buffer_of [2]]) \<and> rx_deliv e' = 0"
proof -
  let ?e = "(nr_rx INTEGRITY_ALGORITHM_ID_EIA0)\<lparr>reorder_queue := [(1, buffer_of [1]), (2, buffer_of [2])], rx_reord := 3, rx_next := 3\<rparr>"
  have "nr_waits (\<lambda>n. buffer_of [of_nat n]) 0 [1, 2] ?e" by (simp add: nr_waits_def)
  from nr_expiry_keeps_rx_deliv [OF this, of 3 1 nr_h "buffer_of []"]
  obtain h' e' where "reordering_expired (nr_h, ?e) =
      ((h', e'), map (pass_to_upper_layers ?e \<circ> (\<lambda>n. buffer_of [of_nat n])) [1, 2])" "rx_deliv e' = 0" by auto
  moreover have "pass_to_upper_layers ?e = pass_to_upper_layers (nr_rx INTEGRITY_ALGORITHM_ID_EIA0)"
    by (simp add: fun_eq_iff pass_to_upper_layers_def is_srb_def)
  ultimately show ?thesis by simp
qed

theorem nr_delivers_in_order_witness:
  "\<exists>h1 e1 pdus h2 r2 bs.
    nr_send_all sample_lib [1, 2, 3, 4] (map buffer_of [[7], [8, 9], [10]]) (nr_h, nr_tx INTEGRITY_ALGORITHM_ID_128_EIA2) =
      Some ((h1, e1), map (To_RLC (lcid (nr_tx INTEGRITY_ALGORITHM_ID_128_EIA2))) pdus) \<and>
    length pdus = length (map buffer_of [[7], [8, 9], [10]]) \<and>
    nr_receive_all sample_lib [0, 0, 0, 0] (map ((!) pdus) [2, 0, 2, 1, 0]) (nr_h, nr_rx INTEGRITY_ALGORITHM_ID_128_EIA2) =
      Some ((h2, r2), map (pass_to_upper_layers (nr_rx INTEGRITY_ALGORITHM_ID_128_EIA2)) bs) \<and>
    map bytes bs = [[7], [8, 9], [10]] \<and> rx_deliv r2 = tx_next e1 \<and> reorder_queue r2 = []"
proof -
  let ?e = "nr_tx INTEGRITY_ALGORITHM_ID_128_EIA2" and ?r = "nr_rx INTEGRITY_ALGORITHM_ID_128_EIA2"
  let ?sdus = "map buffer_of [[7], [8, 9], [10 :: u8]]"
  have b: "map bytes ?sdus = [[7], [8, 9], [10]]" by simp
  have s: "\<forall>s \<in> set ?sdus. nr_fits s \<and> 0 < length (bytes s)" by (simp del: length_bytes)
  have l: "length ?sdus \<le> unat (window_size ?r)" "unat (tx_next ?e) + length ?sdus < 2 ^ 32"
    "set [2, 0, 2, 1, 0] = {..<length ?sdus}" by auto
  have m: "length [1, 2, 3, 4 :: u8] = 4" by simp
  have p: "integ_algo ?e \<noteq> INTEGRITY_ALGORITHM_ID_N_ITEMS" "rx_deliv ?r = tx_next ?e" by simp_all
  note ok = sample_nr_ok
  from nr_delivers_in_order [OF sample_lib_ok ok(1) ok(1) ok(12) ok(2) ok(2) ok(3) ok(3) ok(4) p(1) ok(7) ok(8) ok(9)
      p(2) m s l, of nr_h "[0, 0, 0, 0]" nr_h]
  show ?thesis unfolding b .
qed

text \<open>The PDU of COUNT 1 arrives while COUNT 0 is expected: the timer starts.\<close>

theorem nr_reordering_timer_runs_witness:
  "\<exists>pdu h' e' out. nr_write_pdu sample_lib [0, 0, 0, 0] (nr_h, nr_rx INTEGRITY_ALGORITHM_ID_EIA0) pdu = Some ((h', e'), out) \<and>
    is_running (impl h' 0) \<and> rx_deliv e' = 0 \<and> rx_next e' = 2"
proof -
  let ?r = "nr_rx INTEGRITY_ALGORITHM_ID_EIA0"
  let ?bs = "nr_header ?r 1 @ eea_of sample_lib ?r (rx_direction (pcfg ?r)) 1 [7] @ [0, 0, 0, 0]"
  have "length ?bs = 7" by (simp add: sample_nr_hdr)
  then have b: "bytes (buffer_of ?bs) = ?bs" by (intro bytes_buffer_of) simp
  obtain b where w: "nr_write_pdu sample_lib [0, 0, 0, 0] (nr_h, ?r) (buffer_of ?bs) =
      (case nr_accept 1 b ?r of
         None \<Rightarrow> Some ((nr_h, ?r), [])
       | Some (e, out) \<Rightarrow> (case reordering_timer e of
             None \<Rightarrow> None | Some i \<Rightarrow> Some (handle_reordering_timer i (nr_h, e), out)))"
    using nr_write_pdu_accept [of sample_lib ?r 0 "buffer_of ?bs" 1 "[7]" "[0, 0, 0, 0]" "[0, 0, 0, 0]" nr_h, OF _ _ _ _ _ b]
    by (auto simp: PDCP_MAX_SDU_SIZE_def)
  have n: "rx_next ?r = 0" by (simp add: sample_nr_defs)
  let ?e = "?r\<lparr>reorder_queue := [(1, b)], rx_next := 2\<rparr>"
  have acc: "nr_accept 1 b ?r = Some (?e, [])" using n by (simp add: nr_accept_def)
  obtain h' e' where t: "handle_reordering_timer 0 (nr_h, ?e) = (h', e')" by force
  have r: "nr_write_pdu sample_lib [0, 0, 0, 0] (nr_h, ?r) (buffer_of ?bs) = Some ((h', e'), [])"
    unfolding w acc by (simp add: t)
  have e': "rx_deliv e' = 0" "rx_next e' = 2" using handle_reordering_timer_fields [OF t] by auto
  have "timer_live 0 nr_h" "\<not> is_running (impl nr_h 0)" by (simp_all add: timer_live_def sample_nr_defs)
  then have "nr_timer_ok 0 (nr_h, ?r)" using n by (simp add: nr_timer_ok_def)
  from nr_reordering_timer_runs [OF this] r n have "nr_timer_ok 0 (h', e')" by simp
  with e' have "is_running (impl h' 0)" by (simp add: nr_timer_ok_def)
  with r e' show ?thesis by blast
qed

theorem nr_counts_never_reused_witness:
  "\<exists>st pdu. nr_send_all sample_lib [1, 2, 3, 4] [buffer_of [1, 2], buffer_of [3]]
      (nr_h, (nr_tx INTEGRITY_ALGORITHM_ID_128_EIA2)\<lparr>tx_next := 0xFFFFFFFF\<rparr>) =
    Some (st, [To_RLC (lcid (nr_tx INTEGRITY_ALGORITHM_ID_128_EIA2)) pdu]) \<and>
    bytes pdu = nr_pdu sample_lib [1, 2, 3, 4] (nr_tx INTEGRITY_ALGORITHM_ID_128_EIA2) 0xFFFFFFFF [1, 2]"
proof -
  let ?e = "nr_tx INTEGRITY_ALGORITHM_ID_128_EIA2"
  let ?e' = "?e\<lparr>tx_next := 0xFFFFFFFF\<rparr>"
  have "nr_tx_of ?e ?e'"
    unfolding nr_tx_of_def
    by (rule exI [of _ "tx_overflow ?e"], rule exI [of _ "discard_timers_map ?e"], rule exI [of _ "0xFFFFFFFF"]) simp
  note keep = nr_tx_of_keeps [OF this]
  have n: "1 = min (length [buffer_of [1, 2], buffer_of [3]]) (2 ^ 32 - unat (tx_next ?e'))" by simp
  have s: "\<forall>s \<in> set [buffer_of [1, 2], buffer_of [3]]. nr_fits s \<and> 0 < length (bytes s)" by (simp del: length_bytes)
  obtain st pdus where r: "nr_send_all sample_lib [1, 2, 3, 4] [buffer_of [1, 2], buffer_of [3]] (nr_h, ?e') =
      Some (st, map (To_RLC (lcid ?e')) pdus)" "length pdus = 1"
      "\<forall>k < 1. bytes (pdus ! k) = nr_pdu sample_lib [1, 2, 3, 4] ?e' (tx_next ?e' + of_nat k)
         (bytes ([buffer_of [1, 2], buffer_of [3]] ! k))"
    using nr_counts_never_reused [OF _ _ _ _ _ _ s n, of sample_lib "[1, 2, 3, 4]" nr_h] keep by auto
  obtain pdu where "pdus = [pdu]" using r(2) by (auto simp: length_Suc_conv)
  with r(1,3) keep show ?thesis by auto
qed

theorem nr_long_sdu_without_mac_witness:
  "\<exists>h' e' pdu. nr_write_sdu sample_lib [1, 2, 3, 4] (nr_h, nr_tx INTEGRITY_ALGORITHM_ID_128_EIA2) (buffer_of (replicate 6116 7)) =
      Some ((h', e'), [To_RLC (lcid (nr_tx INTEGRITY_ALGORITHM_ID_128_EIA2)) pdu]) \<and> length (bytes pdu) = 6118"
proof -
  have len: "length (bytes (buffer_of (replicate 6116 7))) = 6116" by (subst bytes_buffer_of) simp_all
  let ?e = "nr_tx INTEGRITY_ALGORITHM_ID_128_EIA2"
  from len obtain h' e' pdu where
    w: "nr_write_sdu sample_lib [1, 2, 3, 4] (nr_h, ?e) (buffer_of (replicate 6116 7)) =
      Some ((h', e'), [To_RLC (lcid ?e) pdu])"
    "bytes pdu = nr_header ?e (tx_next ?e) @
      eea_of sample_lib ?e (tx_direction (pcfg ?e)) (tx_next ?e) (bytes (buffer_of (replicate 6116 7)))"
    using nr_long_sdu_without_mac [of sample_lib ?e "buffer_of (replicate 6116 7)" "[1, 2, 3, 4]" nr_h]
    by (auto simp: PDCP_MAX_SDU_SIZE_def)
  have "length (bytes pdu) = 6118"
    unfolding w(2) by (simp only: length_append length_nr_header sample_nr_ok sample_nr_hdr eea_of_eea_of sample_lib_ok len)
  with w(1) show ?thesis by blast
qed

theorem nr_eia0_sends_mac0_witness:
  "\<exists>h' e' pdu. nr_write_sdu sample_lib [1, 2, 3, 4] (nr_h, nr_tx INTEGRITY_ALGORITHM_ID_EIA0) (buffer_of [7]) =
      Some ((h', e'), [To_RLC (lcid (nr_tx INTEGRITY_ALGORITHM_ID_EIA0)) pdu]) \<and>
    drop (length (bytes pdu) - 4) (bytes pdu) = [1, 2, 3, 4]"
  by (rule nr_eia0_sends_mac0) simp_all

end
