(* ===== verification/Aka_Algorithm.thy ===== *)
theory Aka_Algorithm
  imports Security
begin

text \<open>
  What the card (\<open>srsue/src/stack/upper/usim.cc\<close>) and the subscriber server (\<open>srsepc/src/hss/hss.cc\<close>) share: the
  interface of an authentication algorithm as a locale, interpreted on MILENAGE and on the XOR algorithm of
  TS 34.108 as both programs compute them, and the call that derives K_ASME.
\<close>

section \<open>The interface of an authentication algorithm\<close>

text \<open>What an algorithm offers for a subscriber key: the MAC of a challenge and the anonymity key.\<close>

locale aka_algorithm =
  fixes valid :: "'k \<Rightarrow> bool"
    and f1 :: "'k \<Rightarrow> u8 list \<Rightarrow> u8 list \<Rightarrow> u8 list \<Rightarrow> u8 list"
    and f5 :: "'k \<Rightarrow> u8 list \<Rightarrow> u8 list"
  assumes length_f1 [simp]:
      "valid key \<Longrightarrow> length rand = 16 \<Longrightarrow> length sqn = 6 \<Longrightarrow> length amf = 2 \<Longrightarrow> length (f1 key rand sqn amf) = 8"
    and length_f5 [simp]: "valid key \<Longrightarrow> length rand = 16 \<Longrightarrow> length (f5 key rand) = 6"
begin

lemma challenge_fields:
  assumes "valid key" "length rand = 16" "length sqn = 6" "length amf = 2"
    and "autn = xor_bytes sqn (f5 key rand) @ amf @ f1 key rand sqn amf"
  shows "length autn = 16" "xor_bytes (take 6 autn) (f5 key rand) = sqn" "take 2 (drop 6 autn) = amf"
    "drop 8 autn = f1 key rand sqn amf"
  using assms by (simp_all)

lemma answer_checks_mac:
  assumes "valid key" "length rand = 16" "length autn = 16"
    and "sqn = xor_bytes (take 6 autn) (f5 key rand)" "amf = take 2 (drop 6 autn)"
  shows "xor_bytes sqn (f5 key rand) @ amf @ f1 key rand sqn amf = autn \<longleftrightarrow> f1 key rand sqn amf = drop 8 autn"
proof -
  have "autn = take 6 autn @ take 2 (drop 6 autn) @ drop 8 autn"
    using append_take_drop_id [of 6 autn] append_take_drop_id [of 2 "drop 6 autn"] by simp
  moreover have "xor_bytes sqn (f5 key rand) = take 6 autn" using assms by simp
  ultimately show ?thesis unfolding assms(5) by (metis append_same_eq same_append_eq)
qed

end

definition mil_f1 :: "u8 list \<times> u8 list \<Rightarrow> u8 list \<Rightarrow> u8 list \<Rightarrow> u8 list \<Rightarrow> u8 list" where
  "mil_f1 key rand sqn amf = take 8 (milenage_out1 (fst key) (snd key) rand sqn amf)"

definition mil_f5 :: "u8 list \<times> u8 list \<Rightarrow> u8 list \<Rightarrow> u8 list" where
  "mil_f5 key rand = take 6 (milenage_out (fst key) (snd key) rand 0 1)"

definition xor_f1 :: "u8 list \<times> u8 list \<Rightarrow> u8 list \<Rightarrow> u8 list \<Rightarrow> u8 list \<Rightarrow> u8 list" where
  "xor_f1 key rand sqn amf = xor_bytes (take 8 (xor_bytes (fst key) rand)) (sqn @ amf)"

definition xor_f5 :: "u8 list \<times> u8 list \<Rightarrow> u8 list \<Rightarrow> u8 list" where
  "xor_f5 key rand = take 6 (drop 3 (xor_bytes (fst key) rand))"

definition key_ok :: "u8 list \<times> u8 list \<Rightarrow> bool" where
  "key_ok key \<longleftrightarrow> length (fst key) = 16 \<and> length (snd key) = 16"

interpretation milenage: aka_algorithm key_ok mil_f1 mil_f5
  by unfold_locales (simp_all add: key_ok_def mil_f1_def mil_f5_def)

interpretation xor_algo: aka_algorithm key_ok xor_f1 xor_f5
  by unfold_locales (simp_all add: key_ok_def xor_f1_def xor_f5_def)

text \<open>Both algorithms, selected by a flag, with the other outputs: RES, and CK followed by IK.\<close>

definition aka_f1 :: "bool \<Rightarrow> u8 list \<times> u8 list \<Rightarrow> u8 list \<Rightarrow> u8 list \<Rightarrow> u8 list \<Rightarrow> u8 list" where
  "aka_f1 is_xor = (if is_xor then xor_f1 else mil_f1)"

definition aka_f5 :: "bool \<Rightarrow> u8 list \<times> u8 list \<Rightarrow> u8 list \<Rightarrow> u8 list" where
  "aka_f5 is_xor = (if is_xor then xor_f5 else mil_f5)"

definition aka_res :: "bool \<Rightarrow> u8 list \<times> u8 list \<Rightarrow> u8 list \<Rightarrow> u8 list \<Rightarrow> u8 list" where
  "aka_res is_xor key rand res =
     (if is_xor then xor_bytes (fst key) rand else drop 8 (milenage_out (fst key) (snd key) rand 0 1) @ drop 8 res)"

definition aka_ck_ik :: "bool \<Rightarrow> u8 list \<times> u8 list \<Rightarrow> u8 list \<Rightarrow> u8 list" where
  "aka_ck_ik is_xor key rand =
     (if is_xor then (let x = xor_bytes (fst key) rand in rotate 1 x @ rotate 2 x)
      else milenage_out (fst key) (snd key) rand 12 2 @ milenage_out (fst key) (snd key) rand 8 4)"

interpretation aka: aka_algorithm key_ok "aka_f1 x" "aka_f5 x" for x
  using milenage.aka_algorithm_axioms xor_algo.aka_algorithm_axioms by (simp add: aka_f1_def aka_f5_def)

lemma map_rotate: "length x = 16 \<Longrightarrow> map (\<lambda>i. x ! ((i + k) mod 16)) [0..<16] = rotate k x"
  by (rule nth_equalityI) (simp_all add: nth_rotate add.commute)

lemma map_shift: "length x = 16 \<Longrightarrow> map (\<lambda>i. x ! (i + 3)) [0..<6] = take 6 (drop 3 x)"
  by (rule nth_equalityI) (simp_all add: add.commute)

lemma generate_k_asme_ok:
  assumes "crypto_lib_ok L" "length ck = 16" "length ik = 16" "length ak = 6" "length sqn = 6" "length k_asme = 32"
  shows "security_generate_k_asme L (Some ck) (Some ik) (Some ak) (Some sqn) mcc mnc (Some k_asme) =
    Some (0, Some (lib_sha256 L (ck @ ik) (k_asme_S sqn ak mcc mnc)))"
  using assms by (simp add: security_generate_k_asme_def liblte_security_generate_k_asme_def crypto_lib_okD)

end
