(* ===== verification/Bcd.thy ===== *)
theory Bcd
  imports Common "HOL-Library.Char_ord"
begin

text \<open>
  Public land mobile network identities: the conversions between strings, BCD-coded integers, byte
  arrays and the S1AP coding (\<open>lib/include/srslte/common/bcd_helpers.h\<close>), and \<open>plmn_id_t\<close>
  (\<open>lib/include/srslte/interfaces/rrc_interface_types.h\<close>). An output parameter that a function may leave
  alone is given with the value it holds before.

  Lemmas: each conversion on digits, and the round trips between the codings.
\<close>

section \<open>Characters\<close>

definition isdigit :: "char \<Rightarrow> bool" where
  "isdigit c \<longleftrightarrow> CHR ''0'' \<le> c \<and> c \<le> CHR ''9''"

text \<open>\<open>(uint8_t)(c - '0')\<close> and \<open>n + '0'\<close> appended to a string.\<close>

definition digit_of_char :: "char \<Rightarrow> u8" where
  "digit_of_char c = of_char c - 48"

definition char_of_digit :: "u16 \<Rightarrow> char" where
  "char_of_digit d = char_of (unat (d + 48))"

section \<open>Mobile country codes\<close>

definition string_to_mcc :: "string \<Rightarrow> u16 \<Rightarrow> bool \<times> u16" where
  "string_to_mcc str mcc =
     (if length str \<noteq> 3 then (False, mcc)
      else if \<not> isdigit (str ! 0) \<or> \<not> isdigit (str ! 1) \<or> \<not> isdigit (str ! 2) then (False, mcc)
      else let mcc = 0xF000;
               mcc = mcc OR shl (u16_of (digit_of_char (str ! 0))) 8;
               mcc = mcc OR shl (u16_of (digit_of_char (str ! 1))) 4;
               mcc = mcc OR u16_of (digit_of_char (str ! 2))
           in (True, mcc))"

definition mcc_to_string :: "u16 \<Rightarrow> string \<Rightarrow> bool \<times> string" where
  "mcc_to_string mcc str =
     (if mcc AND 0xF000 \<noteq> 0xF000 then (False, str)
      else (True, [char_of_digit (shr (mcc AND 0x0F00) 8), char_of_digit (shr (mcc AND 0x00F0) 4),
                   char_of_digit (mcc AND 0x000F)]))"

definition bytes_to_mcc :: "u8 list \<Rightarrow> u16" where
  "bytes_to_mcc arr = 0xF000 OR shl (u16_of (arr ! 0)) 8 OR shl (u16_of (arr ! 1)) 4 OR u16_of (arr ! 2)"

definition mcc_to_bytes :: "u16 \<Rightarrow> u8 list \<Rightarrow> bool \<times> u8 list" where
  "mcc_to_bytes mcc arr =
     (if mcc AND 0xF000 \<noteq> 0xF000 then (False, arr)
      else (True, copy_n 3 [u8_of (shr (mcc AND 0xF00) 8), u8_of (shr (mcc AND 0x0F0) 4), u8_of (mcc AND 0x00F)] arr))"

definition mcc_bytes_to_string :: "u8 list \<Rightarrow> string" where
  "mcc_bytes_to_string mcc_bytes =
     (let (ok, mcc_str) = mcc_to_string (bytes_to_mcc mcc_bytes) [] in if ok then mcc_str else ''000'')"

section \<open>Mobile network codes\<close>

definition string_to_mnc :: "string \<Rightarrow> u16 \<Rightarrow> bool \<times> u16" where
  "string_to_mnc str mnc =
     (if length str \<noteq> 3 \<and> length str \<noteq> 2 then (False, mnc)
      else if length str = 3 then
        (if \<not> isdigit (str ! 0) \<or> \<not> isdigit (str ! 1) \<or> \<not> isdigit (str ! 2) then (False, mnc)
         else (True, 0xF000 OR shl (u16_of (digit_of_char (str ! 0))) 8 OR shl (u16_of (digit_of_char (str ! 1))) 4
                       OR u16_of (digit_of_char (str ! 2))))
      else if \<not> isdigit (str ! 0) \<or> \<not> isdigit (str ! 1) then (False, mnc)
      else (True, 0xFF00 OR shl (u16_of (digit_of_char (str ! 0))) 4 OR u16_of (digit_of_char (str ! 1))))"

definition mnc_to_string :: "u16 \<Rightarrow> string \<Rightarrow> bool \<times> string" where
  "mnc_to_string mnc str =
     (if mnc AND 0xF000 \<noteq> 0xF000 then (False, str)
      else (True, (if mnc AND 0xFF00 \<noteq> 0xFF00 then [char_of_digit (shr (mnc AND 0x0F00) 8)] else []) @
                  [char_of_digit (shr (mnc AND 0x00F0) 4), char_of_digit (mnc AND 0x000F)]))"

definition bytes_to_mnc :: "u8 list \<Rightarrow> u8 \<Rightarrow> bool \<times> u16" where
  "bytes_to_mnc arr len =
     (if len \<noteq> 3 \<and> len \<noteq> 2 then (False, 0)
      else if len = 3
      then (True, 0xF000 OR shl (u16_of (arr ! 0)) 8 OR shl (u16_of (arr ! 1)) 4 OR u16_of (arr ! 2))
      else (True, 0xFF00 OR shl (u16_of (arr ! 0)) 4 OR u16_of (arr ! 1)))"

definition mnc_to_bytes :: "u16 \<Rightarrow> u8 list \<Rightarrow> bool \<times> u8 list \<times> u8" where
  "mnc_to_bytes mnc arr =
     (if mnc AND 0xF000 \<noteq> 0xF000 then (False, arr, 0)
      else
        let digits = (if mnc AND 0xFF00 \<noteq> 0xFF00 then [u8_of (shr (mnc AND 0xF00) 8)] else []) @
                     [u8_of (shr (mnc AND 0x00F0) 4), u8_of (mnc AND 0x000F)]
        in (True, copy_n (length digits) digits arr, of_nat (length digits)))"

definition mnc_to_bytes_vec :: "u16 \<Rightarrow> bool \<times> u8 list" where
  "mnc_to_bytes_vec mnc = (let (ret, v, len) = mnc_to_bytes mnc [0, 0, 0] in (ret, take (unat len) v))"

definition mnc_bytes_to_string :: "u8 list \<Rightarrow> u32 \<Rightarrow> string" where
  "mnc_bytes_to_string mnc_bytes nof_bytes =
     (let mnc = snd (bytes_to_mnc mnc_bytes (u8_of nof_bytes));
          (ok, mnc_str) = mnc_to_string mnc []
      in if ok then mnc_str else ''000'')"

section \<open>The S1AP coding\<close>

definition s1ap_plmn_to_mccmnc :: "u32 \<Rightarrow> u16 \<times> u16" where
  "s1ap_plmn_to_mccmnc plmn =
     (let n0 = u8_of (shr (plmn AND 0xF00000) 20); n1 = u8_of (shr (plmn AND 0x0F0000) 16);
          n2 = u8_of (shr (plmn AND 0x00F000) 12); n3 = u8_of (shr (plmn AND 0x000F00) 8);
          n4 = u8_of (shr (plmn AND 0x0000F0) 4); n5 = u8_of (plmn AND 0x00000F);
          mcc = 0xF000 OR shl (u16_of n1) 8 OR shl (u16_of n0) 4 OR u16_of n3
      in if n2 = 0xF then (mcc, 0xF000 OR 0x0F00 OR shl (u16_of n5) 4 OR u16_of n4)
         else (mcc, 0xF000 OR shl (u16_of n2) 8 OR shl (u16_of n5) 4 OR u16_of n4))"

definition s1ap_mccmnc_to_plmn :: "u16 \<Rightarrow> u16 \<Rightarrow> u32" where
  "s1ap_mccmnc_to_plmn mcc mnc =
     (let n1 = u8_of (shr (mcc AND 0x0F00) 8); n0 = u8_of (shr (mcc AND 0x00F0) 4); n3 = u8_of (mcc AND 0x000F);
          n2 = (if mnc AND 0xFF00 = 0xFF00 then 0x0F else u8_of (shr (mnc AND 0x0F00) 8));
          n5 = u8_of (shr (mnc AND 0x00F0) 4); n4 = u8_of (mnc AND 0x000F)
      in shl (u32_of n0) 20 OR shl (u32_of n1) 16 OR shl (u32_of n2) 12 OR shl (u32_of n3) 8
           OR shl (u32_of n4) 4 OR u32_of n5)"

section \<open>The identity\<close>

record plmn_id_t =
  plmn_mcc_digits :: "u8 list"
  plmn_mnc_digits :: "u8 list"
  nof_mnc_digits :: u8

definition plmn_reset :: plmn_id_t where
  "plmn_reset = \<lparr>plmn_mcc_digits = replicate 3 0, plmn_mnc_digits = replicate 3 0, nof_mnc_digits = 0\<rparr>"

text \<open>The result is \<open>True\<close> for \<open>SRSLTE_SUCCESS\<close>.\<close>

definition plmn_from_number :: "u16 \<Rightarrow> u16 \<Rightarrow> plmn_id_t \<Rightarrow> bool \<times> plmn_id_t" where
  "plmn_from_number mcc_num mnc_num p =
     (let p = p\<lparr>plmn_mcc_digits := snd (mcc_to_bytes mcc_num (plmn_mcc_digits p))\<rparr>;
          (ok, mnc, n) = mnc_to_bytes mnc_num (plmn_mnc_digits p);
          p = p\<lparr>plmn_mnc_digits := mnc, nof_mnc_digits := n\<rparr>
      in if \<not> ok then (False, plmn_reset) else (True, p))"

definition plmn_to_number :: "plmn_id_t \<Rightarrow> u16 \<times> u16" where
  "plmn_to_number p = (bytes_to_mcc (plmn_mcc_digits p), snd (bytes_to_mnc (plmn_mnc_digits p) (nof_mnc_digits p)))"

definition plmn_to_s1ap :: "plmn_id_t \<Rightarrow> u32" where
  "plmn_to_s1ap p = (let (mcc, mnc) = plmn_to_number p in s1ap_mccmnc_to_plmn mcc mnc)"

text \<open>The network byte order of the number without its first byte.\<close>

definition plmn_to_s1ap_bytes :: "plmn_id_t \<Rightarrow> u8 list \<Rightarrow> u8 list" where
  "plmn_to_s1ap_bytes p plmn_bytes = copy_n 3 (drop 1 (uint32_to_uint8 (plmn_to_s1ap p))) plmn_bytes"

text \<open>\<open>mcc_num\<close> and \<open>mnc_num\<close> are not initialised; both are written before they are read.\<close>

definition plmn_from_string :: "string \<Rightarrow> plmn_id_t \<Rightarrow> bool \<times> plmn_id_t" where
  "plmn_from_string plmn_str p =
     (if length plmn_str < 5 \<or> length plmn_str > 6 then (False, plmn_reset)
      else
        let (ok1, mcc_num) = string_to_mcc (take 3 plmn_str) 0
        in if \<not> ok1 then (False, plmn_reset)
           else
             let (ok2, mnc_num) = string_to_mnc (drop 3 plmn_str) 0
             in if \<not> ok2 then (False, plmn_reset) else plmn_from_number mcc_num mnc_num p)"

definition plmn_to_string :: "plmn_id_t \<Rightarrow> string" where
  "plmn_to_string p =
     snd (mcc_to_string (bytes_to_mcc (plmn_mcc_digits p)) []) @
     snd (mnc_to_string (snd (bytes_to_mnc (plmn_mnc_digits p) (nof_mnc_digits p))) [])"

definition plmn_equal :: "plmn_id_t \<Rightarrow> plmn_id_t \<Rightarrow> bool" where
  "plmn_equal p q \<longleftrightarrow>
     take 3 (plmn_mcc_digits p) = take 3 (plmn_mcc_digits q) \<and> nof_mnc_digits p = nof_mnc_digits q \<and>
     take (unat (nof_mnc_digits p)) (plmn_mnc_digits p) = take (unat (nof_mnc_digits p)) (plmn_mnc_digits q)"

definition plmn_is_valid :: "plmn_id_t \<Rightarrow> bool" where
  "plmn_is_valid p \<longleftrightarrow> nof_mnc_digits p = 2 \<or> nof_mnc_digits p = 3"


section \<open>Nibbles\<close>

lemma bit_masks16:
  "bit (0x000F :: u16) n \<longleftrightarrow> n < 4" "bit (0x00F0 :: u16) n \<longleftrightarrow> 4 \<le> n \<and> n < 8"
  "bit (0x0F00 :: u16) n \<longleftrightarrow> 8 \<le> n \<and> n < 12" "bit (0xF000 :: u16) n \<longleftrightarrow> 12 \<le> n \<and> n < 16"
  "bit (0xFF00 :: u16) n \<longleftrightarrow> 8 \<le> n \<and> n < 16"
proof -
  have e: "(0x000F :: u16) = mask 4" "(0x00F0 :: u16) = push_bit 4 (mask 4)" "(0x0F00 :: u16) = push_bit 8 (mask 4)"
    "(0xF000 :: u16) = push_bit 12 (mask 4)" "(0xFF00 :: u16) = push_bit 8 (mask 8)"
    by (simp_all add: mask_eq_exp_minus_1)
  show "bit (0x000F :: u16) n \<longleftrightarrow> n < 4" "bit (0x00F0 :: u16) n \<longleftrightarrow> 4 \<le> n \<and> n < 8"
    "bit (0x0F00 :: u16) n \<longleftrightarrow> 8 \<le> n \<and> n < 12" "bit (0xF000 :: u16) n \<longleftrightarrow> 12 \<le> n \<and> n < 16"
    "bit (0xFF00 :: u16) n \<longleftrightarrow> 8 \<le> n \<and> n < 16"
    unfolding e bit_push_bit_iff bit_mask_iff by auto
qed

lemma bit_masks32:
  "bit (0x00000F :: u32) n \<longleftrightarrow> n < 4" "bit (0x0000F0 :: u32) n \<longleftrightarrow> 4 \<le> n \<and> n < 8"
  "bit (0x000F00 :: u32) n \<longleftrightarrow> 8 \<le> n \<and> n < 12" "bit (0x00F000 :: u32) n \<longleftrightarrow> 12 \<le> n \<and> n < 16"
  "bit (0x0F0000 :: u32) n \<longleftrightarrow> 16 \<le> n \<and> n < 20" "bit (0xF00000 :: u32) n \<longleftrightarrow> 20 \<le> n \<and> n < 24"
proof -
  have e: "(0x00000F :: u32) = mask 4" "(0x0000F0 :: u32) = push_bit 4 (mask 4)" "(0x000F00 :: u32) = push_bit 8 (mask 4)"
    "(0x00F000 :: u32) = push_bit 12 (mask 4)" "(0x0F0000 :: u32) = push_bit 16 (mask 4)"
    "(0xF00000 :: u32) = push_bit 20 (mask 4)"
    by (simp_all add: mask_eq_exp_minus_1)
  show "bit (0x00000F :: u32) n \<longleftrightarrow> n < 4" "bit (0x0000F0 :: u32) n \<longleftrightarrow> 4 \<le> n \<and> n < 8"
    "bit (0x000F00 :: u32) n \<longleftrightarrow> 8 \<le> n \<and> n < 12" "bit (0x00F000 :: u32) n \<longleftrightarrow> 12 \<le> n \<and> n < 16"
    "bit (0x0F0000 :: u32) n \<longleftrightarrow> 16 \<le> n \<and> n < 20" "bit (0xF00000 :: u32) n \<longleftrightarrow> 20 \<le> n \<and> n < 24"
    unfolding e bit_push_bit_iff bit_mask_iff by auto
qed

lemmas nibble_bits = bit_or_iff bit_and_iff bit_push_bit_iff bit_drop_bit_eq bit_ucast_iff bit_masks16 bit_masks32 o_def

lemma nibble_bit:
  assumes "unat (a :: u8) < 16" "bit a n"
  shows "n < 4"
proof -
  have "take_bit 4 a = a" using assms(1) by (simp add: word_unat_eq_iff unsigned_take_bit_eq take_bit_nat_eq_self)
  with assms(2) show ?thesis by (metis bit_take_bit_iff)
qed

lemma nibble_cases16:
  fixes n :: nat
  assumes "n < 16"
  obtains "n < 4" | "4 \<le> n" "n < 8" | "8 \<le> n" "n < 12" | "12 \<le> n" "n < 16"
  using assms by linarith

lemma bit_mask_all: "w AND m = m \<Longrightarrow> bit m n \<Longrightarrow> bit w n" for w :: "'a::len word"
  by (metis bit_and_iff)

lemma nibbleI:
  fixes a :: u8
  assumes "\<And>n. bit a n \<Longrightarrow> n < 4"
  shows "unat a < 16"
proof -
  have "take_bit 4 a = a" by (rule bit_word_eqI) (use assms in \<open>auto simp: bit_take_bit_iff\<close>)
  then have "unat a = take_bit 4 (unat a)" by (metis unsigned_take_bit_eq)
  also have "\<dots> < 2 ^ 4" by (rule take_bit_nat_less_exp)
  finally show ?thesis by simp
qed

lemma nibble_less:
  fixes m :: u16
  shows "unat (u8_of (shr (m AND 0x0F00) 8)) < 16" "unat (u8_of (shr (m AND 0x00F0) 4)) < 16"
    "unat (u8_of (m AND 0x000F)) < 16"
  by (rule nibbleI; simp only: nibble_bits; linarith)+

text \<open>A number put together from four nibbles.\<close>

definition bcd :: "u8 \<Rightarrow> u8 \<Rightarrow> u8 \<Rightarrow> u16" where
  "bcd a b c = 0xF000 OR shl (u16_of a) 8 OR shl (u16_of b) 4 OR u16_of c"

lemma bit_bcd:
  assumes "unat a < 16" "unat b < 16" "unat c < 16"
  shows "bit (bcd a b c) n \<longleftrightarrow> n < 16 \<and> (if n < 4 then bit c n else if n < 8 then bit b (n - 4)
    else if n < 12 then bit a (n - 8) else True)"
  unfolding bcd_def nibble_bits
  using nibble_bit [OF assms(1), of "n - 8"] nibble_bit [OF assms(2), of "n - 4"] nibble_bit [OF assms(3), of n]
  by auto

lemma bcd_digits [simp]:
  assumes "unat a < 16" "unat b < 16" "unat c < 16"
  shows "bcd a b c AND 0xF000 = 0xF000" "u8_of (shr (bcd a b c AND 0x0F00) 8) = a"
    "u8_of (shr (bcd a b c AND 0x00F0) 4) = b" "u8_of (bcd a b c AND 0x000F) = c"
  by (rule bit_word_eqI; use nibble_bit [OF assms(1)] nibble_bit [OF assms(2)] nibble_bit [OF assms(3)] in
      \<open>simp only: bit_bcd [OF assms] bit_ucast_iff bit_drop_bit_eq bit_and_iff bit_masks16 o_def; fastforce\<close>)+

lemma bcd_two_digits:
  assumes "unat a < 16" "unat b < 16" "unat c < 16"
  shows "bcd a b c AND 0xFF00 = 0xFF00 \<longleftrightarrow> a = 0xF"
proof -
  have f: "bit (0xF :: u8) n \<longleftrightarrow> n < 4" for n
  proof -
    have "(0xF :: u8) = mask 4" by (simp add: mask_eq_exp_minus_1)
    then show ?thesis by (simp only: bit_mask_iff) auto
  qed
  show ?thesis
  proof
    assume *: "bcd a b c AND 0xFF00 = 0xFF00"
    show "a = 0xF"
    proof (rule bit_word_eqI)
      fix n
      have "n < 4 \<Longrightarrow> bit (bcd a b c) (n + 8)" by (rule bit_mask_all [OF *], simp only: bit_masks16, simp)
      then show "bit a n = bit (0xF :: u8) n" using nibble_bit [OF assms(1), of n] unfolding f bit_bcd [OF assms] by auto
    qed
  next
    assume *: "a = 0xF"
    show "bcd a b c AND 0xFF00 = 0xFF00"
    proof (rule bit_word_eqI)
      fix n
      have "bit a (n - 8) \<longleftrightarrow> n - 8 < 4" unfolding * by (rule f)
      then show "bit (bcd a b c AND 0xFF00) n = bit (0xFF00 :: u16) n"
        unfolding bit_and_iff bit_bcd [OF assms] bit_masks16 by auto
    qed
  qed
qed

lemma bcd_exhaust:
  assumes "m AND 0xF000 = 0xF000"
  shows "m = bcd (u8_of (shr (m AND 0x0F00) 8)) (u8_of (shr (m AND 0x00F0) 4)) (u8_of (m AND 0x000F))"
proof (rule bit_word_eqI)
  fix n
  assume "n < LENGTH(16)"
  then have "n < 16" by simp
  have "12 \<le> n \<Longrightarrow> bit m n" by (rule bit_mask_all [OF assms]) (use \<open>n < 16\<close> in \<open>simp only: bit_masks16\<close>)
  note top = this
  show "bit m n = bit (bcd (u8_of (shr (m AND 0x0F00) 8)) (u8_of (shr (m AND 0x00F0) 4)) (u8_of (m AND 0x000F))) n"
    unfolding bit_bcd [OF nibble_less] by (rule nibble_cases16 [OF \<open>n < 16\<close>]) (simp_all only: nibble_bits, auto intro: top)
qed

lemma bytes_bcd:
  "bytes_to_mcc [a, b, c] = bcd a b c" "bytes_to_mnc [a, b, c] 3 = (True, bcd a b c)"
  "bytes_to_mnc [b, c, d] 2 = (True, bcd 0xF b c)"
  by (simp_all add: bytes_to_mcc_def bytes_to_mnc_def bcd_def or.assoc flip: or.assoc)

lemma bcd_bytes:
  assumes "unat a < 16" "unat b < 16" "unat c < 16" "length xs = 3"
  shows "mcc_to_bytes (bcd a b c) xs = (True, [a, b, c])"
    "mnc_to_bytes (bcd a b c) xs = (True, if a = 0xF then [b, c, xs ! 2] else [a, b, c], if a = 0xF then 2 else 3)"
proof -
  obtain x y z where xs: "xs = [x, y, z]" using assms(4) by (auto simp: numeral_3_eq_3 length_Suc_conv)
  show "mcc_to_bytes (bcd a b c) xs = (True, [a, b, c])"
    unfolding mcc_to_bytes_def bcd_digits [OF assms(1-3)] by (simp add: xs copy_n_def)
  show "mnc_to_bytes (bcd a b c) xs = (True, if a = 0xF then [b, c, xs ! 2] else [a, b, c], if a = 0xF then 2 else 3)"
    unfolding mnc_to_bytes_def Let_def bcd_digits [OF assms(1-3)] bcd_two_digits [OF assms(1-3)]
    by (simp add: xs copy_n_def)
qed

section \<open>The S1AP coding of nibbles\<close>

definition six_nibbles :: "u8 \<Rightarrow> u8 \<Rightarrow> u8 \<Rightarrow> u8 \<Rightarrow> u8 \<Rightarrow> u8 \<Rightarrow> u32" where
  "six_nibbles n0 n1 n2 n3 n4 n5 =
     shl (u32_of n0) 20 OR shl (u32_of n1) 16 OR shl (u32_of n2) 12 OR shl (u32_of n3) 8 OR shl (u32_of n4) 4 OR u32_of n5"

lemma six_nibbles_digits:
  assumes "unat n0 < 16" "unat n1 < 16" "unat n2 < 16" "unat n3 < 16" "unat n4 < 16" "unat n5 < 16"
  defines "p \<equiv> six_nibbles n0 n1 n2 n3 n4 n5"
  shows "u8_of (shr (p AND 0xF00000) 20) = n0" "u8_of (shr (p AND 0x0F0000) 16) = n1"
    "u8_of (shr (p AND 0x00F000) 12) = n2" "u8_of (shr (p AND 0x000F00) 8) = n3"
    "u8_of (shr (p AND 0x0000F0) 4) = n4" "u8_of (p AND 0x00000F) = n5"
proof -
  note b = assms(1-6) [THEN nibble_bit]
  have p: "bit p n \<longleftrightarrow> n < 24 \<and> (if n < 4 then bit n5 n else if n < 8 then bit n4 (n - 4) else if n < 12 then bit n3 (n - 8)
      else if n < 16 then bit n2 (n - 12) else if n < 20 then bit n1 (n - 16) else bit n0 (n - 20))" for n
    unfolding p_def six_nibbles_def nibble_bits
    using b(1) [of "n - 20"] b(2) [of "n - 16"] b(3) [of "n - 12"] b(4) [of "n - 8"] b(5) [of "n - 4"] b(6) [of n]
    by auto
  show "u8_of (shr (p AND 0xF00000) 20) = n0" "u8_of (shr (p AND 0x0F0000) 16) = n1"
    "u8_of (shr (p AND 0x00F000) 12) = n2" "u8_of (shr (p AND 0x000F00) 8) = n3"
    "u8_of (shr (p AND 0x0000F0) 4) = n4" "u8_of (p AND 0x00000F) = n5"
    by (rule bit_word_eqI; use b in \<open>simp only: p bit_ucast_iff bit_drop_bit_eq bit_and_iff bit_masks32 o_def; fastforce\<close>)+
qed

lemma s1ap_roundtrip:
  assumes "unat a < 16" "unat b < 16" "unat c < 16" "unat d < 16" "unat e < 16" "unat f < 16"
  shows "s1ap_plmn_to_mccmnc (s1ap_mccmnc_to_plmn (bcd a b c) (bcd d e f)) = (bcd a b c, bcd d e f)"
proof -
  have p: "s1ap_mccmnc_to_plmn (bcd a b c) (bcd d e f) = six_nibbles b a d c f e"
    unfolding s1ap_mccmnc_to_plmn_def Let_def bcd_digits [OF assms(1-3)] bcd_digits [OF assms(4-6)]
      bcd_two_digits [OF assms(4-6)] six_nibbles_def by simp
  note n = six_nibbles_digits [OF assms(2,1,4,3,6,5)]
  show ?thesis unfolding p s1ap_plmn_to_mccmnc_def Let_def n
    by (simp add: bcd_def)
qed


section \<open>Strings of digits\<close>

lemma isdigitD:
  assumes "isdigit c"
  shows "unat (digit_of_char c) < 10" "char_of_digit (u16_of (digit_of_char c)) = c"
proof -
  have c: "48 \<le> (of_char c :: nat)" "(of_char c :: nat) \<le> 57"
    using assms by (simp_all add: isdigit_def less_eq_char_def)
  have u: "unat (digit_of_char c) = of_char c - 48"
  proof -
    have w: "(of_char c :: u8) = of_nat (of_char c)" by (simp only: of_nat_of_char)
    have "unat (of_nat (of_char c) :: u8) = of_char c" using c by (simp add: unat_of_nat)
    then show ?thesis unfolding digit_of_char_def w using c by (simp add: unat_sub word_le_nat_alt)
  qed
  then show "unat (digit_of_char c) < 10" using c by simp
  have "unat (u16_of (digit_of_char c) + 48) = of_char c"
    using u c by (simp add: unat_word_ariths unsigned_ucast_eq take_bit_nat_eq_self)
  then show "char_of_digit (u16_of (digit_of_char c)) = c" by (simp add: char_of_digit_def)
qed

lemma digits_nibble: "isdigit c \<Longrightarrow> unat (digit_of_char c) < 16" "isdigit c \<Longrightarrow> digit_of_char c \<noteq> 0xF"
  using isdigitD(1) [of c] by auto

lemma string_to_mcc_iff:
  "string_to_mcc s x = (if length s = 3 \<and> list_all isdigit s
     then (True, bcd (digit_of_char (s ! 0)) (digit_of_char (s ! 1)) (digit_of_char (s ! 2))) else (False, x))"
  by (auto simp: string_to_mcc_def bcd_def numeral_3_eq_3 length_Suc_conv Let_def or.assoc)

lemma string_to_mnc_iff:
  "string_to_mnc s x =
     (if length s = 3 \<and> list_all isdigit s then (True, bcd (digit_of_char (s ! 0)) (digit_of_char (s ! 1)) (digit_of_char (s ! 2)))
      else if length s = 2 \<and> list_all isdigit s then (True, bcd 0xF (digit_of_char (s ! 0)) (digit_of_char (s ! 1)))
      else (False, x))"
proof -
  have e: "0xFF00 OR y = (0xF000 OR shl (u16_of (0xF :: u8)) 8 OR y :: u16)" for y by (simp flip: or.assoc)
  consider x1 x2 where "s = [x1, x2]" | x1 x2 x3 where "s = [x1, x2, x3]" | "length s \<noteq> 2" "length s \<noteq> 3"
    by (cases s rule: remdups_adj.cases; cases "tl (tl s)"; cases "tl (tl (tl s))") auto
  then show ?thesis by cases (simp_all add: string_to_mnc_def bcd_def e)
qed

lemma to_string_bcd:
  assumes "isdigit x" "isdigit y" "isdigit z"
  shows "mcc_to_string (bcd (digit_of_char x) (digit_of_char y) (digit_of_char z)) t = (True, [x, y, z])"
    and "mnc_to_string (bcd (digit_of_char x) (digit_of_char y) (digit_of_char z)) t = (True, [x, y, z])"
    and "mnc_to_string (bcd 0xF (digit_of_char y) (digit_of_char z)) t = (True, [y, z])"
proof -
  note n = digits_nibble(1) [OF assms(1)] digits_nibble(1) [OF assms(2)] digits_nibble(1) [OF assms(3)]
  have digits: "shr (bcd a b c AND 0x0F00) 8 = u16_of a" "shr (bcd a b c AND 0x00F0) 4 = u16_of b" "bcd a b c AND 0x000F = u16_of c"
    if "unat a < 16" "unat b < 16" "unat c < 16" for a b c
    by (rule bit_word_eqI; use that [THEN nibble_bit] in
        \<open>simp only: bit_bcd [OF that] bit_ucast_iff bit_drop_bit_eq bit_and_iff bit_masks16 o_def; fastforce\<close>)+
  have f: "unat (0xF :: u8) < 16" by simp
  show "mcc_to_string (bcd (digit_of_char x) (digit_of_char y) (digit_of_char z)) t = (True, [x, y, z])"
    unfolding mcc_to_string_def digits [OF n] bcd_digits(1) [OF n] by (simp add: isdigitD(2) assms)
  show "mnc_to_string (bcd (digit_of_char x) (digit_of_char y) (digit_of_char z)) t = (True, [x, y, z])"
    unfolding mnc_to_string_def digits [OF n] bcd_digits(1) [OF n] bcd_two_digits [OF n]
    by (simp add: isdigitD(2) digits_nibble(2) assms)
  show "mnc_to_string (bcd 0xF (digit_of_char y) (digit_of_char z)) t = (True, [y, z])"
    unfolding mnc_to_string_def digits [OF f n(2,3)] bcd_digits(1) [OF f n(2,3)] bcd_two_digits [OF f n(2,3)]
    by (simp add: isdigitD(2) assms)
qed

section \<open>Properties\<close>

text \<open>C14. A PLMN identity is accepted exactly when it is a string of five or six digits; it is printed as the
  same string, its S1AP coding decodes to the same country and network codes, and so do its bytes.\<close>

theorem plmn_roundtrip:
  assumes "length (plmn_mcc_digits p) = 3" "length (plmn_mnc_digits p) = 3"
  shows "case plmn_from_string s p of (ok, q) \<Rightarrow>
    (ok \<longleftrightarrow> (length s = 5 \<or> length s = 6) \<and> list_all isdigit s) \<and>
    (ok \<longrightarrow> plmn_to_string q = s \<and> plmn_is_valid q \<and> s1ap_plmn_to_mccmnc (plmn_to_s1ap q) = plmn_to_number q \<and>
       (\<forall>r. length (plmn_mcc_digits r) = 3 \<longrightarrow> length (plmn_mnc_digits r) = 3 \<longrightarrow>
          (case plmn_to_number q of (mcc, mnc) \<Rightarrow> plmn_equal (snd (plmn_from_number mcc mnc r)) q)))"
proof -
  have f: "unat (0xF :: u8) < 16" by simp
  show ?thesis
  proof (cases "(length s = 5 \<or> length s = 6) \<and> list_all isdigit s")
    case False
    have "list_all isdigit s \<longleftrightarrow> list_all isdigit (take 3 s) \<and> list_all isdigit (drop 3 s)"
      by (metis append_take_drop_id list_all_append)
    with False show ?thesis
      by (auto simp: plmn_from_string_def string_to_mcc_iff string_to_mnc_iff split: if_splits)
  next
    case True
    then consider a b c d e where "s = [a, b, c, d, e]" "isdigit a" "isdigit b" "isdigit c" "isdigit d" "isdigit e"
      | a b c d e f where "s = [a, b, c, d, e, f]" "isdigit a" "isdigit b" "isdigit c" "isdigit d" "isdigit e" "isdigit f"
      by (auto simp: eval_nat_numeral length_Suc_conv)
    then show ?thesis
    proof cases
      case 1
      note n = 1(2-6) [THEN digits_nibble(1)]
      show ?thesis
        by (simp add: plmn_from_string_def string_to_mcc_iff string_to_mnc_iff 1 to_string_bcd(3) [OF 1(2,5,6)] plmn_from_number_def
            bytes_bcd bcd_bytes n f assms plmn_to_string_def to_string_bcd plmn_is_valid_def plmn_to_s1ap_def
            plmn_to_number_def s1ap_roundtrip plmn_equal_def digits_nibble)
    next
      case 2
      note n = 2(2-7) [THEN digits_nibble(1)]
      show ?thesis
        by (simp add: plmn_from_string_def string_to_mcc_iff string_to_mnc_iff 2 plmn_from_number_def
            bytes_bcd bcd_bytes n f assms plmn_to_string_def to_string_bcd plmn_is_valid_def plmn_to_s1ap_def
            plmn_to_number_def s1ap_roundtrip plmn_equal_def digits_nibble)
    qed
  qed
qed


theorem plmn_roundtrip_witness:
  "case plmn_from_string ''21407'' \<lparr>plmn_mcc_digits = [9, 9, 9], plmn_mnc_digits = [9, 9, 9], nof_mnc_digits = 3\<rparr> of (ok, q) \<Rightarrow>
    ok \<and> plmn_to_string q = ''21407'' \<and> s1ap_plmn_to_mccmnc (plmn_to_s1ap q) = plmn_to_number q"
  using plmn_roundtrip [of "\<lparr>plmn_mcc_digits = [9, 9, 9], plmn_mnc_digits = [9, 9, 9], nof_mnc_digits = 3\<rparr>" "''21407''"]
  by (auto simp: isdigit_def less_eq_char_def)

end
