(* ===== verification/Usim.thy ===== *)
theory Usim
  imports Aka_Algorithm Bcd
begin

text \<open>
  The software USIM of the UE, \<open>srsue/src/stack/upper/usim.cc\<close> and \<open>usim.h\<close>: its configuration, the
  response to an authentication challenge with MILENAGE or XOR, and the chain of access stratum keys.
  Arrays the caller passes for output are given with their contents and returned; \<open>None\<close> is an access
  outside an array. Logging is left out.

  Lemmas: the response on a well-formed state, and the key chain as the sequence of next hop keys of
  TS 33.401, of which the loop of \<open>generate_as_keys_ho\<close> derives the ones still missing.
\<close>

section \<open>State\<close>

datatype auth_result_t = AUTH_OK | AUTH_FAILED | AUTH_SYNCH_FAILURE

datatype auth_algo_t = auth_algo_milenage | auth_algo_xor

record usim_args_t =
  args_mode :: string
  args_algo :: string
  args_using_op :: bool
  args_op :: string
  args_opc :: string
  args_imsi :: string
  args_imei :: string
  args_k :: string
  args_pin :: string
  args_reader :: string

record usim =
  auth_algo :: auth_algo_t
  usim_amf :: "u8 list"
  usim_op :: "u8 list"
  usim_opc :: "u8 list"
  imsi :: u64
  imei :: u64
  usim_k :: "u8 list"
  imsi_str :: string
  imei_str :: string
  usim_ck :: "u8 list"
  usim_ik :: "u8 list"
  usim_ak :: "u8 list"
  usim_mac :: "u8 list"
  usim_autn :: "u8 list"
  usim_k_asme :: "u8 list"
  usim_nh :: "u8 list"
  k_enb_initial :: "u8 list"
  usim_k_enb :: "u8 list"
  usim_k_enb_star :: "u8 list"
  current_ncc :: u32
  is_first_ncc :: bool
  initiated :: bool

definition new_usim :: usim where
  "new_usim =
     \<lparr>auth_algo = auth_algo_milenage, usim_amf = replicate 2 0, usim_op = replicate 16 0, usim_opc = replicate 16 0,
      imsi = 0, imei = 0, usim_k = replicate 16 0, imsi_str = '''', imei_str = '''', usim_ck = replicate 16 0,
      usim_ik = replicate 16 0, usim_ak = replicate 6 0, usim_mac = replicate 8 0, usim_autn = replicate 16 0,
      usim_k_asme = replicate 32 0, usim_nh = replicate 32 0, k_enb_initial = replicate 32 0,
      usim_k_enb = replicate 32 0, usim_k_enb_star = replicate 32 0, current_ncc = 0, is_first_ncc = False,
      initiated = False\<rparr>"

section \<open>Configuration\<close>

definition hex_nibble :: "char \<Rightarrow> u8" where
  "hex_nibble c =
     (if CHR ''0'' \<le> c \<and> c \<le> CHR ''9'' then of_char c - 48
      else if CHR ''A'' \<le> c \<and> c \<le> CHR ''F'' then of_char c - 65 + 0xA
      else of_char c - 97 + 0xA)"

text \<open>Called with strings of 32 characters and arrays of 16 bytes only.\<close>

definition str_to_hex :: "string \<Rightarrow> u8 list \<Rightarrow> u8 list" where
  "str_to_hex str hex =
     (let n = length str div 2
      in copy_n n (map (\<lambda>i. shl (hex_nibble (str ! (i * 2 + 0))) 4 OR hex_nibble (str ! (i * 2 + 1))) [0..<n]) hex)"

text \<open>The identity as a number: \<open>char\<close> is signed.\<close>

definition parse_id :: "string \<Rightarrow> u64" where
  "parse_id s = foldl (\<lambda>n c. n * 10 + (scast (of_char c :: u8) - 48)) 0 s"

definition usim_init :: "usim_args_t \<Rightarrow> usim \<Rightarrow> usim option" where
  "usim_init a u =
     do {
       let u = u\<lparr>imsi_str := args_imsi a, imei_str := args_imei a\<rparr>;
       let u = u\<lparr>auth_algo := (if ''xor'' = args_algo a then auth_algo_xor else auth_algo_milenage)\<rparr>;
       let u = (if 32 = length (args_k a) then u\<lparr>usim_k := str_to_hex (args_k a) (usim_k u)\<rparr> else u);
       u \<leftarrow> (if auth_algo u = auth_algo_milenage
         then if args_using_op a
           then if 32 = length (args_op a)
             then do {
               let u = u\<lparr>usim_op := str_to_hex (args_op a) (usim_op u)\<rparr>;
               (_, opc) \<leftarrow> compute_opc (Some (usim_k u)) (Some (usim_op u)) (Some (usim_opc u));
               Some (u\<lparr>usim_opc := the opc\<rparr>)
             }
             else Some u
           else if 32 = length (args_opc a)
             then Some (u\<lparr>usim_opc := str_to_hex (args_opc a) (usim_opc u)\<rparr>)
             else Some u
         else Some u);
       let u = (if 15 = length (args_imsi a) then u\<lparr>imsi := parse_id (args_imsi a)\<rparr> else u);
       let u = (if 15 = length (args_imei a) then u\<lparr>imei := parse_id (args_imei a)\<rparr> else u);
       Some (u\<lparr>initiated := True\<rparr>)
     }"

text \<open>The last 15 decimal digits of a number, most significant first.\<close>

fun decimal_digits :: "nat \<Rightarrow> u64 \<Rightarrow> u8 list" where
  "decimal_digits 0 temp = []"
| "decimal_digits (Suc i) temp = decimal_digits i (temp div 10) @ [u8_of (temp mod 10)]"

definition get_id_vec :: "u64 \<Rightarrow> usim \<Rightarrow> u8 list option \<Rightarrow> u32 \<Rightarrow> bool \<times> u8 list option" where
  "get_id_vec number u vec n =
     (if \<not> initiated u then (False, vec)
      else case vec of
        None \<Rightarrow> (False, None)
      | Some v \<Rightarrow> if n < 15 then (False, Some v) else (True, Some (copy_n 15 (decimal_digits 15 number) v)))"

definition get_imsi_vec :: "usim \<Rightarrow> u8 list option \<Rightarrow> u32 \<Rightarrow> bool \<times> u8 list option" where
  "get_imsi_vec u = get_id_vec (imsi u) u"

definition get_imei_vec :: "usim \<Rightarrow> u8 list option \<Rightarrow> u32 \<Rightarrow> bool \<times> u8 list option" where
  "get_imei_vec u = get_id_vec (imei u) u"

definition get_home_plmn_id :: "usim \<Rightarrow> plmn_id_t \<Rightarrow> bool \<times> plmn_id_t" where
  "get_home_plmn_id u p =
     (if \<not> initiated u then (False, p)
      else
        let imsi_vec = the (snd (get_imsi_vec u (Some (replicate 15 0)) 15));
            digits = map (\<lambda>d. char_of_digit (u16_of d)) imsi_vec;
            mcc_str = take 3 digits;
            mnc_len = (if mcc_str \<in> {''310'', ''311'', ''312'', ''313'', ''316''} then 3 else 2);
            mnc_str = take mnc_len (drop 3 digits)
        in (True, snd (plmn_from_string (mcc_str @ mnc_str) p)))"

section \<open>Authentication\<close>

definition gen_auth_res_milenage ::
    "crypto_lib \<Rightarrow> u8 list \<Rightarrow> u8 list \<Rightarrow> u16 \<Rightarrow> u16 \<Rightarrow> u8 list \<Rightarrow> u8 list \<Rightarrow> usim
     \<Rightarrow> (auth_result_t \<times> u8 list \<times> int \<times> u8 list \<times> usim) option" where
  "gen_auth_res_milenage L rand autn_enb mcc mnc res k_asme u =
     do {
       (_, res, ck, ik, ak) \<leftarrow> security_milenage_f2345 (Some (usim_k u)) (Some (usim_opc u)) (Some rand) (Some res)
                                 (Some (usim_ck u)) (Some (usim_ik u)) (Some (usim_ak u));
       let u = u\<lparr>usim_ck := the ck, usim_ik := the ik, usim_ak := the ak\<rparr>;
       if length autn_enb < 16 then None else do {
         let sqn = xor_bytes (take 6 autn_enb) (take 6 (usim_ak u));
         let u = u\<lparr>usim_amf := take 2 (drop 6 autn_enb)\<rparr>;
         (_, mac) \<leftarrow> security_milenage_f1 (Some (usim_k u)) (Some (usim_opc u)) (Some rand) (Some sqn) (Some (usim_amf u))
                       (Some (usim_mac u));
         let u = u\<lparr>usim_mac := the mac\<rparr>;
         let u = u\<lparr>usim_autn := xor_bytes sqn (take 6 (usim_ak u)) @ usim_amf u @ take 8 (usim_mac u)\<rparr>;
         let result = (if usim_autn u \<noteq> take 16 autn_enb then AUTH_FAILED else AUTH_OK);
         (_, k_asme) \<leftarrow> security_generate_k_asme L (Some (usim_ck u)) (Some (usim_ik u)) (Some (usim_ak u)) (Some sqn)
                          mcc mnc (Some k_asme);
         Some (result, the res, 8, the k_asme, u)
       }
     }"

definition gen_auth_res_xor ::
    "crypto_lib \<Rightarrow> u8 list \<Rightarrow> u8 list \<Rightarrow> u16 \<Rightarrow> u16 \<Rightarrow> u8 list \<Rightarrow> u8 list \<Rightarrow> usim
     \<Rightarrow> (auth_result_t \<times> u8 list \<times> int \<times> u8 list \<times> usim) option" where
  "gen_auth_res_xor L rand autn_enb mcc mnc res k_asme u =
     (if length rand < 16 \<or> length res < 16 \<or> length autn_enb < 16 then None
      else do {
        let xdout = xor_bytes (take 16 (usim_k u)) (take 16 rand);
        let res = copy_n 16 xdout res;
        let u = u\<lparr>usim_ck := map (\<lambda>i. xdout ! ((i + 1) mod 16)) [0..<16],
                  usim_ik := map (\<lambda>i. xdout ! ((i + 2) mod 16)) [0..<16],
                  usim_ak := map (\<lambda>i. xdout ! (i + 3)) [0..<6]\<rparr>;
        let sqn = xor_bytes (take 6 autn_enb) (usim_ak u);
        let u = u\<lparr>usim_amf := take 2 (drop 6 autn_enb)\<rparr>;
        let cdout = sqn @ usim_amf u;
        let u = u\<lparr>usim_mac := xor_bytes (take 8 xdout) cdout\<rparr>;
        let u = u\<lparr>usim_autn := xor_bytes sqn (usim_ak u) @ usim_amf u @ usim_mac u\<rparr>;
        let result = (if usim_autn u \<noteq> take 16 autn_enb then AUTH_FAILED else AUTH_OK);
        (_, k_asme) \<leftarrow> security_generate_k_asme L (Some (usim_ck u)) (Some (usim_ik u)) (Some (usim_ak u)) (Some sqn)
                         mcc mnc (Some k_asme);
        Some (result, res, 8, the k_asme, u)
      })"

definition generate_authentication_response ::
    "crypto_lib \<Rightarrow> u8 list \<Rightarrow> u8 list \<Rightarrow> u16 \<Rightarrow> u16 \<Rightarrow> u8 list \<Rightarrow> u8 list \<Rightarrow> usim
     \<Rightarrow> (auth_result_t \<times> u8 list \<times> int \<times> u8 list \<times> usim) option" where
  "generate_authentication_response L rand autn_enb mcc mnc res k_asme u =
     (if auth_algo_xor = auth_algo u then gen_auth_res_xor L rand autn_enb mcc mnc res k_asme u
      else gen_auth_res_milenage L rand autn_enb mcc mnc res k_asme u)"

definition generate_nas_keys ::
    "crypto_lib \<Rightarrow> u8 list \<Rightarrow> u8 list \<Rightarrow> u8 list \<Rightarrow> CIPHERING_ALGORITHM_ID_ENUM \<Rightarrow> INTEGRITY_ALGORITHM_ID_ENUM
     \<Rightarrow> (u8 list \<times> u8 list) option" where
  "generate_nas_keys L k_asme k_nas_enc k_nas_int cipher_algo integ_algo =
     map_option (\<lambda>(_, ke, ki). (the ke, the ki))
       (security_generate_k_nas L (Some k_asme) cipher_algo integ_algo (Some k_nas_enc) (Some k_nas_int))"

section \<open>Access stratum keys\<close>

record as_keys =
  k_rrc_enc :: "u8 list"
  k_rrc_int :: "u8 list"
  k_up_enc :: "u8 list"
  k_up_int :: "u8 list"

text \<open>The last two calls of both key generations.\<close>

definition as_keys_of ::
    "crypto_lib \<Rightarrow> u8 list \<Rightarrow> CIPHERING_ALGORITHM_ID_ENUM \<Rightarrow> INTEGRITY_ALGORITHM_ID_ENUM \<Rightarrow> as_keys \<Rightarrow> as_keys option" where
  "as_keys_of L k_enb cipher_algo integ_algo ks =
     do {
       (_, re, ri) \<leftarrow> security_generate_k_rrc L (Some k_enb) cipher_algo integ_algo (Some (k_rrc_enc ks)) (Some (k_rrc_int ks));
       (_, ue, ui) \<leftarrow> security_generate_k_up L (Some k_enb) cipher_algo integ_algo (Some (k_up_enc ks)) (Some (k_up_int ks));
       Some \<lparr>k_rrc_enc = the re, k_rrc_int = the ri, k_up_enc = the ue, k_up_int = the ui\<rparr>
     }"

definition generate_as_keys ::
    "crypto_lib \<Rightarrow> u8 list \<Rightarrow> u32 \<Rightarrow> as_keys \<Rightarrow> CIPHERING_ALGORITHM_ID_ENUM \<Rightarrow> INTEGRITY_ALGORITHM_ID_ENUM \<Rightarrow> usim
     \<Rightarrow> (as_keys \<times> usim) option" where
  "generate_as_keys L k_asme count_ul ks cipher_algo integ_algo u =
     do {
       (_, k_enb) \<leftarrow> security_generate_k_enb L (Some k_asme) count_ul (Some (usim_k_enb u));
       let u = u\<lparr>usim_k_enb := the k_enb\<rparr>;
       let u = u\<lparr>usim_k_asme := copy_n 32 k_asme (usim_k_asme u)\<rparr>;
       let u = u\<lparr>k_enb_initial := copy_n 32 (usim_k_enb u) (k_enb_initial u)\<rparr>;
       ks \<leftarrow> as_keys_of L (usim_k_enb u) cipher_algo integ_algo ks;
       Some (ks, u\<lparr>current_ncc := 0, is_first_ncc := True\<rparr>)
     }"

text \<open>The loop of \<open>generate_as_keys_ho\<close>: the flag says whether \<open>enb_star_key\<close> points to \<open>nh\<close>.\<close>

definition nh_step :: "crypto_lib \<Rightarrow> usim \<times> bool \<Rightarrow> (usim \<times> bool) option" where
  "nh_step L = (\<lambda>(u, use_nh).
     do {
       let (sync, u) = (if is_first_ncc u then (k_enb_initial u, u\<lparr>is_first_ncc := False\<rparr>) else (usim_nh u, u));
       (_, nh) \<leftarrow> security_generate_nh L (Some (usim_k_asme u)) (Some sync) (Some (usim_nh u));
       let u = u\<lparr>usim_nh := the nh\<rparr>;
       let u = u\<lparr>current_ncc := current_ncc u + 1\<rparr>;
       let u = (if current_ncc u = 8 then u\<lparr>current_ncc := 0\<rparr> else u);
       Some (u, True)
     })"

partial_function (option) nh_chain :: "crypto_lib \<Rightarrow> u32 \<Rightarrow> usim \<times> bool \<Rightarrow> (usim \<times> bool) option" where
  "nh_chain L ncc st =
     (if current_ncc (fst st) = ncc then Some st else Option.bind (nh_step L st) (nh_chain L ncc))"

definition generate_as_keys_ho ::
    "crypto_lib \<Rightarrow> u32 \<Rightarrow> u32 \<Rightarrow> int \<Rightarrow> as_keys \<Rightarrow> CIPHERING_ALGORITHM_ID_ENUM \<Rightarrow> INTEGRITY_ALGORITHM_ID_ENUM \<Rightarrow> usim
     \<Rightarrow> (as_keys \<times> usim) option" where
  "generate_as_keys_ho L pci earfcn ncc ks cipher_algo integ_algo u =
     do {
       let ncc = (if ncc < 0 then current_ncc u else of_int ncc);
       (u, use_nh) \<leftarrow> nh_chain L ncc (u, False);
       let enb_star_key = (if use_nh then usim_nh u else usim_k_enb u);
       (_, k_enb_star) \<leftarrow> security_generate_k_enb_star L (Some enb_star_key) pci earfcn (Some (usim_k_enb_star u));
       let u = u\<lparr>usim_k_enb_star := the k_enb_star\<rparr>;
       let u = u\<lparr>usim_k_enb := copy_n 32 (usim_k_enb_star u) (usim_k_enb u)\<rparr>;
       ks \<leftarrow> as_keys_of L (usim_k_enb u) cipher_algo integ_algo ks;
       Some (ks, u)
     }"

section \<open>The response to a challenge\<close>

definition usim_ok :: "usim \<Rightarrow> bool" where
  "usim_ok u \<longleftrightarrow> key_ok (usim_k u, usim_opc u) \<and> length (usim_op u) = 16 \<and> length (usim_ck u) = 16 \<and> length (usim_ik u) = 16 \<and>
     length (usim_ak u) = 6 \<and> length (usim_mac u) = 8 \<and> length (usim_autn u) = 16 \<and> length (usim_amf u) = 2 \<and>
     length (usim_k_asme u) = 32 \<and> length (usim_nh u) = 32 \<and> length (k_enb_initial u) = 32 \<and> length (usim_k_enb u) = 32 \<and>
     length (usim_k_enb_star u) = 32"

text \<open>What the two algorithms compute from the secrets of a card.\<close>

definition card_f1 :: "usim \<Rightarrow> u8 list \<Rightarrow> u8 list \<Rightarrow> u8 list \<Rightarrow> u8 list" where
  "card_f1 u = aka_f1 (auth_algo u = auth_algo_xor) (usim_k u, usim_opc u)"

definition card_f5 :: "usim \<Rightarrow> u8 list \<Rightarrow> u8 list" where
  "card_f5 u = aka_f5 (auth_algo u = auth_algo_xor) (usim_k u, usim_opc u)"

definition card_res :: "usim \<Rightarrow> u8 list \<Rightarrow> u8 list \<Rightarrow> u8 list" where
  "card_res u = aka_res (auth_algo u = auth_algo_xor) (usim_k u, usim_opc u)"

definition card_ck_ik :: "usim \<Rightarrow> u8 list \<Rightarrow> u8 list" where
  "card_ck_ik u = aka_ck_ik (auth_algo u = auth_algo_xor) (usim_k u, usim_opc u)"

lemmas card_defs = card_f1_def card_f5_def card_res_def card_ck_ik_def aka_f1_def aka_f5_def aka_res_def aka_ck_ik_def

lemma authentication_response:
  assumes "crypto_lib_ok L" "usim_ok u" "length rand = 16" "length autn = 16" "length res = 16" "length k_asme = 32"
  defines "sqn \<equiv> xor_bytes (take 6 autn) (card_f5 u rand)" and "amf \<equiv> take 2 (drop 6 autn)"
  shows "\<exists>u'. generate_authentication_response L rand autn mcc mnc res k_asme u =
      Some (if card_f1 u rand sqn amf = drop 8 autn then AUTH_OK else AUTH_FAILED, card_res u rand res, 8,
            lib_sha256 L (card_ck_ik u rand) (k_asme_S sqn (card_f5 u rand) mcc mnc), u') \<and>
    usim_ok u' \<and> usim_k u' = usim_k u \<and> usim_opc u' = usim_opc u \<and> auth_algo u' = auth_algo u"
proof (cases "auth_algo u = auth_algo_xor")
  case False
  then have c: "card_f1 u = mil_f1 (usim_k u, usim_opc u)" "card_f5 u = mil_f5 (usim_k u, usim_opc u)"
    by (simp_all add: card_defs)
  have k: "key_ok (usim_k u, usim_opc u)" using assms(2) by (simp add: usim_ok_def)
  have m: "xor_bytes sqn (card_f5 u rand) @ amf @ card_f1 u rand sqn amf = autn \<longleftrightarrow> card_f1 u rand sqn amf = drop 8 autn"
    unfolding c by (rule milenage.answer_checks_mac [OF k assms(3,4)]) (simp_all add: sqn_def amf_def c)
  have l: "length sqn = 6" "length amf = 2" "length (card_f5 u rand) = 6"
    using milenage.length_f5 [OF k assms(3)] assms(4) by (simp_all add: sqn_def amf_def c)
  have f: "drop 8 (milenage_out (usim_k u) (usim_opc u) rand 0 1) @ drop 8 res = card_res u rand res"
    "milenage_out (usim_k u) (usim_opc u) rand 12 2 @ milenage_out (usim_k u) (usim_opc u) rand 8 4 = card_ck_ik u rand"
    "take 6 (milenage_out (usim_k u) (usim_opc u) rand 0 1) = card_f5 u rand"
    "take 8 (milenage_out1 (usim_k u) (usim_opc u) rand sqn amf) = card_f1 u rand sqn amf"
    using False by (simp_all add: card_defs c mil_f5_def mil_f1_def)
  have s: "xor_bytes (take 6 autn) (card_f5 u rand) = sqn" by (simp add: sqn_def)
  let ?u' = "u\<lparr>usim_ck := milenage_out (usim_k u) (usim_opc u) rand 12 2, usim_ik := milenage_out (usim_k u) (usim_opc u) rand 8 4,
    usim_ak := card_f5 u rand, usim_amf := amf, usim_mac := card_f1 u rand sqn amf,
    usim_autn := xor_bytes sqn (card_f5 u rand) @ amf @ card_f1 u rand sqn amf\<rparr>"
  have l1: "length (card_f1 u rand sqn amf) = 8" using milenage.length_f1 [OF k assms(3) l(1,2)] by (simp add: c)
  have "generate_authentication_response L rand autn mcc mnc res k_asme u =
      Some (if card_f1 u rand sqn amf = drop 8 autn then AUTH_OK else AUTH_FAILED, card_res u rand res, 8,
            lib_sha256 L (card_ck_ik u rand) (k_asme_S sqn (card_f5 u rand) mcc mnc), ?u')"
    using False assms(1,3-6) k l l1 assms(2)
    by (simp add: generate_authentication_response_def gen_auth_res_milenage_def security_milenage_f2345_def
        security_milenage_f1_def key_ok_def usim_ok_def generate_k_asme_ok f s amf_def [symmetric] m Let_def)
  moreover have "usim_ok ?u'" using assms(2) l l1 by (simp add: usim_ok_def key_ok_def)
  ultimately show ?thesis by (intro exI [of _ ?u']) simp
next
  case True
  then have c: "card_f1 u = xor_f1 (usim_k u, usim_opc u)" "card_f5 u = xor_f5 (usim_k u, usim_opc u)"
    by (simp_all add: card_defs)
  have k: "key_ok (usim_k u, usim_opc u)" using assms(2) by (simp add: usim_ok_def)
  have m: "xor_bytes sqn (card_f5 u rand) @ amf @ card_f1 u rand sqn amf = autn \<longleftrightarrow> card_f1 u rand sqn amf = drop 8 autn"
    unfolding c by (rule xor_algo.answer_checks_mac [OF k assms(3,4)]) (simp_all add: sqn_def amf_def c)
  define x where "x = xor_bytes (usim_k u) rand"
  have l: "length sqn = 6" "length amf = 2" "length x = 16" "length (card_f5 u rand) = 6"
    using xor_algo.length_f5 [OF k assms(3)] assms(3,4) k by (simp_all add: sqn_def amf_def c key_ok_def x_def)
  have f: "card_res u rand res = x" "map (\<lambda>i. x ! (Suc i mod 16)) [0..<16] = rotate 1 x"
    "map (\<lambda>i. x ! (Suc (Suc i) mod 16)) [0..<16] = rotate 2 x" "card_ck_ik u rand = rotate 1 x @ rotate 2 x"
    "map (\<lambda>i. x ! (i + 3)) [0..<6] = card_f5 u rand" "xor_bytes (take 8 x) (sqn @ amf) = card_f1 u rand sqn amf"
    using True map_rotate [OF l(3), of 1] map_rotate [OF l(3), of 2] map_shift [OF l(3)]
    by (simp_all add: card_defs c xor_f5_def xor_f1_def x_def Let_def)
  have s: "xor_bytes (take 6 autn) (card_f5 u rand) = sqn" "xor_bytes sqn (card_f5 u rand) = take 6 autn"
    using l(4) assms(4) by (simp_all add: sqn_def)
  let ?u' = "u\<lparr>usim_ck := rotate 1 x, usim_ik := rotate 2 x, usim_ak := card_f5 u rand, usim_amf := amf,
    usim_mac := card_f1 u rand sqn amf, usim_autn := take 6 autn @ amf @ card_f1 u rand sqn amf\<rparr>"
  have l1: "length (card_f1 u rand sqn amf) = 8" using xor_algo.length_f1 [OF k assms(3) l(1,2)] by (simp add: c)
  have x: "xor_bytes (take 16 (usim_k u)) (take 16 rand) = x" using k assms(3) by (simp add: key_ok_def x_def)
  have "generate_authentication_response L rand autn mcc mnc res k_asme u =
      Some (if card_f1 u rand sqn amf = drop 8 autn then AUTH_OK else AUTH_FAILED, card_res u rand res, 8,
            lib_sha256 L (card_ck_ik u rand) (k_asme_S sqn (card_f5 u rand) mcc mnc), ?u')"
    unfolding generate_authentication_response_def gen_auth_res_xor_def x
    using True assms(1,3-6) l l1 m
    by (simp add: f s amf_def [symmetric] Let_def generate_k_asme_ok)
  moreover have "usim_ok ?u'" using assms(2,4) l l1 by (simp add: usim_ok_def key_ok_def)
  ultimately show ?thesis by (intro exI [of _ ?u']) simp
qed

section \<open>The chain of access stratum keys\<close>

text \<open>The initial key and the next hop keys of TS 33.401 that follow it.\<close>

primrec next_hop_key :: "crypto_lib \<Rightarrow> u8 list \<Rightarrow> u8 list \<Rightarrow> nat \<Rightarrow> u8 list" where
  "next_hop_key L k_asme k_enb 0 = k_enb"
| "next_hop_key L k_asme k_enb (Suc n) = lib_sha256 L k_asme (nh_S (next_hop_key L k_asme k_enb n))"

text \<open>The card has derived \<open>n\<close> next hop keys.\<close>

definition derived :: "crypto_lib \<Rightarrow> nat \<Rightarrow> usim \<Rightarrow> bool" where
  "derived L n u \<longleftrightarrow> usim_ok u \<and> unat (current_ncc u) = n mod 8 \<and> (is_first_ncc u \<longleftrightarrow> n = 0) \<and>
     (0 < n \<longrightarrow> usim_nh u = next_hop_key L (usim_k_asme u) (k_enb_initial u) n)"

lemma next_hop_key_Suc:
  assumes "derived L n u"
  shows "next_hop_key L (usim_k_asme u) (k_enb_initial u) (Suc n) =
    lib_sha256 L (usim_k_asme u) (nh_S (if is_first_ncc u then k_enb_initial u else usim_nh u))"
  using assms by (auto simp: derived_def)

lemma generate_nh_ok:
  assumes "crypto_lib_ok L" "length k_asme = 32" "length sync = 32" "length nh = 32"
  shows "security_generate_nh L (Some k_asme) (Some sync) (Some nh) = Some (0, Some (lib_sha256 L k_asme (nh_S sync)))"
  using assms by (simp add: security_generate_nh_def liblte_security_generate_nh_def crypto_lib_okD)

lemma nh_step:
  assumes "crypto_lib_ok L" "derived L n u"
  shows "\<exists>u'. nh_step L (u, b) = Some (u', True) \<and> derived L (Suc n) u' \<and> usim_k_enb u' = usim_k_enb u \<and>
    usim_k_asme u' = usim_k_asme u \<and> k_enb_initial u' = k_enb_initial u \<and> usim_k_enb_star u' = usim_k_enb_star u"
proof -
  let ?nh = "next_hop_key L (usim_k_asme u) (k_enb_initial u) (Suc n)"
  let ?ncc = "if current_ncc u + 1 = 8 then 0 else current_ncc u + 1"
  let ?u' = "u\<lparr>is_first_ncc := False, usim_nh := ?nh, current_ncc := ?ncc\<rparr>"
  have ok: "usim_ok u" and c: "unat (current_ncc u) = n mod 8" using assms(2) by (simp_all add: derived_def)
  have nh: "length ?nh = 32" using assms(1) by (simp add: crypto_lib_okD)
  have "nh_step L (u, b) = Some (?u', True)"
    unfolding next_hop_key_Suc [OF assms(2)] using ok assms(1)
    by (simp add: nh_step_def usim_ok_def generate_nh_ok Let_def)
  moreover have "unat ?ncc = Suc n mod 8"
  proof -
    have "unat (current_ncc u + 1) = n mod 8 + 1" using c by (simp add: unat_word_ariths)
    then have "current_ncc u + 1 = 8 \<longleftrightarrow> n mod 8 + 1 = 8" by (simp add: word_unat_eq_iff)
    then show ?thesis using \<open>unat (current_ncc u + 1) = n mod 8 + 1\<close> by (auto simp: mod_Suc)
  qed
  then have "derived L (Suc n) ?u'" using ok nh by (simp add: derived_def usim_ok_def)
  ultimately show ?thesis by auto
qed

lemma nh_chain:
  assumes "crypto_lib_ok L" "derived L n u" "(n + d) mod 8 = unat ncc" "d < 8"
  shows "\<exists>u'. nh_chain L ncc (u, b) = Some (u', b \<or> 0 < d) \<and> derived L (n + d) u' \<and> usim_k_enb u' = usim_k_enb u \<and>
    usim_k_asme u' = usim_k_asme u \<and> k_enb_initial u' = k_enb_initial u \<and> usim_k_enb_star u' = usim_k_enb_star u"
  using assms(2-4)
proof (induction d arbitrary: n u b)
  case 0
  then show ?case by (auto simp: nh_chain.simps derived_def word_unat_eq_iff)
next
  case (Suc d)
  have "n mod 8 \<noteq> (n + Suc d) mod 8" using Suc.prems(3) by presburger
  then have "current_ncc u \<noteq> ncc" using Suc.prems by (auto simp: derived_def)
  obtain u1 where 1: "nh_step L (u, b) = Some (u1, True)" "derived L (Suc n) u1" "usim_k_enb u1 = usim_k_enb u"
    "usim_k_asme u1 = usim_k_asme u" "k_enb_initial u1 = k_enb_initial u" "usim_k_enb_star u1 = usim_k_enb_star u"
    using nh_step [OF assms(1) Suc.prems(1), of b] by blast
  have "(Suc n + d) mod 8 = unat ncc" "d < 8" using Suc.prems(2,3) by simp_all
  from Suc.IH [OF 1(2) this, of True] 1 show ?case
    using \<open>current_ncc u \<noteq> ncc\<close> by (subst nh_chain.simps) auto
qed

lemma nh_step_ncc:
  assumes "nh_step L st = Some st'" "current_ncc (fst st) < 8"
  shows "current_ncc (fst st') < 8"
proof -
  have "current_ncc (fst st) + 1 < 8" if "current_ncc (fst st) + 1 \<noteq> 8"
    using assms(2) that by unat_arith
  then show ?thesis
    using assms(1) by (cases st) (auto simp: nh_step_def Let_def split: Option.bind_splits if_splits)
qed

lemma nh_chain_diverges:
  assumes "8 \<le> ncc" "current_ncc (fst st) < 8"
  shows "nh_chain L ncc st = None"
proof (rule ccontr)
  assume "nh_chain L ncc st \<noteq> None"
  then obtain r where r: "nh_chain L ncc st = Some r" by blast
  have "ncc = ncc \<longrightarrow> \<not> current_ncc (fst st) < 8"
  proof (rule nh_chain.raw_induct [of "\<lambda>L' ncc' st' r. ncc' = ncc \<longrightarrow> \<not> current_ncc (fst st') < 8", OF _ r])
    fix f L' ncc' st' r'
    assume IH: "\<And>L' ncc' st' r. f L' ncc' st' = Some r \<Longrightarrow> ncc' = ncc \<longrightarrow> \<not> current_ncc (fst st') < 8"
      and b: "(if current_ncc (fst st') = ncc' then Some st' else Option.bind (nh_step L' st') (f L' ncc')) = Some r'"
    show "ncc' = ncc \<longrightarrow> \<not> current_ncc (fst st') < 8"
    proof (intro impI notI)
      assume e: "ncc' = ncc" "current_ncc (fst st') < 8"
      then have "current_ncc (fst st') \<noteq> ncc'" using assms(1) by auto
      then obtain st'' where "nh_step L' st' = Some st''" "f L' ncc' st'' = Some r'"
        using b by (auto split: Option.bind_splits)
      with IH nh_step_ncc e show False by blast
    qed
  qed
  with assms(2) show False by simp
qed


lemma as_keys_ok:
  assumes "crypto_lib_ok L" "length k_enb = 32" "length (k_rrc_enc ks) = 32" "length (k_rrc_int ks) = 32"
    "length (k_up_enc ks) = 32" "length (k_up_int ks) = 32"
  shows "as_keys_of L k_enb ca ia ks =
    Some \<lparr>k_rrc_enc = lib_sha256 L k_enb (alg_key_S 0x03 (cipher_alg_id ca)),
          k_rrc_int = lib_sha256 L k_enb (alg_key_S 0x04 (integ_alg_id ia)),
          k_up_enc = lib_sha256 L k_enb (alg_key_S 0x05 (cipher_alg_id ca)),
          k_up_int = lib_sha256 L k_enb (alg_key_S 0x06 (integ_alg_id ia))\<rparr>"
  using assms
  by (simp add: as_keys_of_def security_generate_k_rrc_def security_generate_k_up_def
      liblte_security_generate_k_rrc_def liblte_security_generate_k_up_def generate_alg_keys_def crypto_lib_okD)

definition as_keys_len :: "as_keys \<Rightarrow> bool" where
  "as_keys_len ks \<longleftrightarrow> length (k_rrc_enc ks) = 32 \<and> length (k_rrc_int ks) = 32 \<and> length (k_up_enc ks) = 32 \<and> length (k_up_int ks) = 32"

lemma generate_as_keys_ok:
  assumes "crypto_lib_ok L" "usim_ok u" "length k_asme = 32" "as_keys_len ks"
  shows "\<exists>ks' u'. generate_as_keys L k_asme count_ul ks ca ia u = Some (ks', u') \<and> derived L 0 u' \<and>
    usim_k_asme u' = k_asme \<and> k_enb_initial u' = lib_sha256 L k_asme (k_enb_S count_ul) \<and> usim_k_enb u' = k_enb_initial u'"
  using assms
  by (simp add: generate_as_keys_def security_generate_k_enb_def liblte_security_generate_k_enb_def usim_ok_def
      crypto_lib_okD as_keys_ok as_keys_len_def derived_def)

section \<open>Initialisation\<close>

lemma length_str_to_hex [simp]: "length s = 32 \<Longrightarrow> length h = 16 \<Longrightarrow> length (str_to_hex s h) = 16"
  by (simp add: str_to_hex_def Let_def)

lemma compute_opc_ok:
  assumes "length k = 16" "length op = 16" "length opc = 16"
  shows "\<exists>opc'. compute_opc (Some k) (Some op) (Some opc) = Some (0, Some opc') \<and> length opc' = 16"
  using assms by (simp add: compute_opc_def liblte_compute_opc_def Let_def)

section \<open>Properties\<close>

text \<open>C13. The card accepts a challenge exactly when its MAC is the one computed from the card's key, the sequence
  number hidden in AUTN and the AMF, for both algorithms; it never reports a synchronisation failure, and keeps its
  secrets and the lengths of its arrays.\<close>

theorem usim_accepts_mac:
  assumes "crypto_lib_ok L" "usim_ok u" "length rand = 16" "length autn = 16" "length res = 16" "length k_asme = 32"
  shows "\<exists>result res' k u'. generate_authentication_response L rand autn mcc mnc res k_asme u = Some (result, res', 8, k, u') \<and>
    (result = AUTH_OK \<longleftrightarrow>
       card_f1 u rand (xor_bytes (take 6 autn) (card_f5 u rand)) (take 2 (drop 6 autn)) = drop 8 autn) \<and>
    result \<noteq> AUTH_SYNCH_FAILURE \<and> usim_ok u' \<and> (usim_k u', usim_opc u', auth_algo u') = (usim_k u, usim_opc u, auth_algo u)"
  using authentication_response [OF assms, of mcc mnc] by auto

text \<open>C29. No freshness: a challenge the card has accepted once it accepts at any later time, with the same
  response and the same K_ASME, whatever sequence numbers it has seen in between.\<close>

theorem usim_accepts_replay:
  assumes "crypto_lib_ok L" "usim_ok u" "usim_ok v" "length rand = 16" "length autn = 16" "length res = 16" "length k_asme = 32"
    and "(usim_k v, usim_opc v, auth_algo v) = (usim_k u, usim_opc u, auth_algo u)"
    and "generate_authentication_response L rand autn mcc mnc res k_asme u = Some (AUTH_OK, res', n, k, u')"
  shows "\<exists>v'. generate_authentication_response L rand autn mcc mnc res k_asme v = Some (AUTH_OK, res', n, k, v')"
proof -
  have same: "card_f1 v = card_f1 u" "card_f5 v = card_f5 u" "card_res v = card_res u" "card_ck_ik v = card_ck_ik u"
    using assms(8) by (simp_all add: card_defs fun_eq_iff)
  show ?thesis
    using authentication_response [OF assms(1,2,4-7), of mcc mnc] authentication_response [OF assms(1,3-7), of mcc mnc] assms(9)
    unfolding same by auto
qed

text \<open>C12. The key chain at handover: when the card has derived \<open>n\<close> next hop keys and the network signals the
  chaining counter \<open>ncc\<close> below 8, the loop derives the missing ones and K_eNB becomes the K_eNB* of the last of
  them, or of the current K_eNB when the counter has not moved or is absent (negative). For a counter above 7 the
  loop does not end.\<close>

theorem handover_key_chain:
  assumes "crypto_lib_ok L" "derived L n u" "as_keys_len ks" "ncc < 2 ^ 31"
  defines "d \<equiv> (if ncc < 0 then 0 else nat ((ncc - int n) mod 8))"
  shows "if ncc < 8
    then \<exists>u'. generate_as_keys_ho L pci earfcn ncc ks ca ia u = Some (the (as_keys_of L (usim_k_enb u') ca ia ks), u') \<and>
      derived L (n + d) u' \<and>
      usim_k_enb u' = lib_sha256 L (if d = 0 then usim_k_enb u else next_hop_key L (usim_k_asme u) (k_enb_initial u) (n + d))
        (k_enb_star_S pci earfcn)
    else generate_as_keys_ho L pci earfcn ncc ks ca ia u = None"
proof -
  let ?ncc = "if ncc < 0 then current_ncc u else of_int ncc :: u32"
  have cur: "unat (current_ncc u) = n mod 8" "usim_ok u" using assms(2) by (simp_all add: derived_def)
  have num: "unat (of_int ncc :: u32) = nat ncc" if "0 \<le> ncc"
    using that assms(4) by (simp add: unsigned_of_int take_bit_int_eq_self)
  show ?thesis
  proof (cases "ncc < 8")
    case True
    have "(n + d) mod 8 = unat ?ncc" "d < 8"
    proof -
      have "(n + nat ((ncc - int n) mod 8)) mod 8 = nat ncc" if "0 \<le> ncc"
      proof -
        have "int ((n + nat ((ncc - int n) mod 8)) mod 8) = ncc mod 8"
          by (simp add: zmod_int mod_simps)
        then show ?thesis using True that by simp
      qed
      then show "(n + d) mod 8 = unat ?ncc" using num cur by (auto simp: d_def)
      show "d < 8" by (simp add: d_def nat_less_iff)
    qed
    from nh_chain [OF assms(1,2) this, of False] obtain u1 where
      1: "nh_chain L ?ncc (u, False) = Some (u1, 0 < d)" "derived L (n + d) u1" "usim_k_enb u1 = usim_k_enb u"
        "usim_k_asme u1 = usim_k_asme u" "k_enb_initial u1 = k_enb_initial u" by auto
    have ok: "usim_ok u1" "0 < d \<longrightarrow> usim_nh u1 = next_hop_key L (usim_k_asme u) (k_enb_initial u) (n + d)"
      using 1 by (simp_all add: derived_def)
    let ?key = "if d = 0 then usim_k_enb u else next_hop_key L (usim_k_asme u) (k_enb_initial u) (n + d)"
    let ?k = "lib_sha256 L ?key (k_enb_star_S pci earfcn)"
    let ?u2 = "u1\<lparr>usim_k_enb_star := ?k, usim_k_enb := ?k\<rparr>"
    have key: "(if 0 < d then usim_nh u1 else usim_k_enb u1) = ?key" using ok 1 by auto
    moreover have "length (if 0 < d then usim_nh u1 else usim_k_enb u1) = 32" using ok(1) by (auto simp: usim_ok_def)
    ultimately have len: "length ?key = 32" by metis
    have "derived L (n + d) ?u2" using 1(2) assms(1) by (simp add: derived_def usim_ok_def crypto_lib_okD)
    moreover have "generate_as_keys_ho L pci earfcn ncc ks ca ia u = Some (the (as_keys_of L ?k ca ia ks), ?u2)"
      using assms(1,3) ok(1) 1(1) len key
      by (simp add: generate_as_keys_ho_def Let_def security_generate_k_enb_star_def
          liblte_security_generate_k_enb_star_def usim_ok_def crypto_lib_okD as_keys_ok as_keys_len_def)
    ultimately show ?thesis using True by auto
  next
    case False
    have "8 \<le> (of_int ncc :: u32)" "current_ncc u < 8"
      using num False cur by (simp_all add: word_le_nat_alt word_less_nat_alt)
    from nh_chain_diverges [of "of_int ncc" "(u, False)" L] this have "nh_chain L (of_int ncc) (u, False) = None" by simp
    then show ?thesis using False by (simp add: generate_as_keys_ho_def Let_def)
  qed
qed

text \<open>C28. Configuration never fails and keeps the card well-formed: whatever the strings of the configuration are,
  \<open>init\<close> returns, all arrays keep their lengths, and the card counts as initiated, with the key of the string when it
  has 32 characters and with the key it had before otherwise.\<close>

theorem usim_init_ok:
  assumes "usim_ok u"
  shows "\<exists>u'. usim_init a u = Some u' \<and> usim_ok u' \<and> initiated u' \<and>
    usim_k u' = (if length (args_k a) = 32 then str_to_hex (args_k a) (usim_k u) else usim_k u)"
proof -
  define u1 where "u1 = u\<lparr>imsi_str := args_imsi a, imei_str := args_imei a,
    auth_algo := (if ''xor'' = args_algo a then auth_algo_xor else auth_algo_milenage),
    usim_k := (if length (args_k a) = 32 then str_to_hex (args_k a) (usim_k u) else usim_k u)\<rparr>"
  have ok: "usim_ok u1" using assms by (simp add: u1_def usim_ok_def key_ok_def)
  then have l: "length (usim_k u1) = 16" "length (usim_opc u1) = 16" "length (usim_op u1) = 16"
    by (simp_all add: usim_ok_def key_ok_def)
  define r where "r = (if auth_algo u1 = auth_algo_milenage
         then if args_using_op a
           then if 32 = length (args_op a)
             then do {
               let u = u1\<lparr>usim_op := str_to_hex (args_op a) (usim_op u1)\<rparr>;
               (_, opc) \<leftarrow> compute_opc (Some (usim_k u)) (Some (usim_op u)) (Some (usim_opc u));
               Some (u\<lparr>usim_opc := the opc\<rparr>)
             }
             else Some u1
           else if 32 = length (args_opc a)
             then Some (u1\<lparr>usim_opc := str_to_hex (args_opc a) (usim_opc u1)\<rparr>)
             else Some u1
         else Some u1)"
  have "\<exists>u2. r = Some u2 \<and> usim_ok u2 \<and> usim_k u2 = usim_k u1"
    unfolding r_def using ok l compute_opc_ok [of "usim_k u1" "str_to_hex (args_op a) (usim_op u1)" "usim_opc u1"]
    by (auto simp: usim_ok_def key_ok_def)
  then obtain u2 where u2: "r = Some u2" "usim_ok u2" "usim_k u2 = usim_k u1" by blast
  have e: "(if 32 = length (args_k a) then x\<lparr>usim_k := str_to_hex (args_k a) (usim_k x)\<rparr> else x) = u1"
    if "x = u\<lparr>imsi_str := args_imsi a, imei_str := args_imei a,
      auth_algo := (if ''xor'' = args_algo a then auth_algo_xor else auth_algo_milenage)\<rparr>" for x
    unfolding that u1_def by simp
  have "usim_init a u = Option.bind r (\<lambda>u.
     let u = (if 15 = length (args_imsi a) then u\<lparr>imsi := parse_id (args_imsi a)\<rparr> else u);
         u = (if 15 = length (args_imei a) then u\<lparr>imei := parse_id (args_imei a)\<rparr> else u)
     in Some (u\<lparr>initiated := True\<rparr>))"
    unfolding usim_init_def r_def Let_def by (subst e, simp)+ (rule refl)
  then show ?thesis using u2 by (auto simp: Let_def usim_ok_def key_ok_def u1_def)
qed

theorem usim_init_ok_witness:
  "\<exists>u'. usim_init \<lparr>args_mode = ''soft'', args_algo = ''milenage'', args_using_op = False, args_op = '''',
      args_opc = '''', args_imsi = '''', args_imei = '''', args_k = ''00ff'', args_pin = '''', args_reader = ''''\<rparr> new_usim = Some u' \<and>
    initiated u' \<and> usim_k u' = replicate 16 0"
  using usim_init_ok [of new_usim "\<lparr>args_mode = ''soft'', args_algo = ''milenage'', args_using_op = False, args_op = '''',
      args_opc = '''', args_imsi = '''', args_imei = '''', args_k = ''00ff'', args_pin = '''', args_reader = ''''\<rparr>"]
  by (auto simp: new_usim_def usim_ok_def key_ok_def)

section \<open>A card for the witnesses\<close>

definition sample_usim :: "auth_algo_t \<Rightarrow> usim" where
  "sample_usim a = new_usim\<lparr>auth_algo := a, usim_k := replicate 16 1, usim_opc := replicate 16 2, initiated := True\<rparr>"

lemma sample_usim_ok [simp]: "usim_ok (sample_usim a)"
  by (simp add: sample_usim_def new_usim_def usim_ok_def key_ok_def)

lemma sample_usim_sel [simp]:
  "usim_k (sample_usim a) = replicate 16 1" "usim_opc (sample_usim a) = replicate 16 2" "auth_algo (sample_usim a) = a"
  "current_ncc (sample_usim a) = 0" "usim_k_enb (sample_usim a) = replicate 32 0"
  by (simp_all add: sample_usim_def new_usim_def)


theorem usim_accepts_mac_witness:
  "\<exists>result res' k u'. generate_authentication_response sample_lib (replicate 16 5) (replicate 16 7) 0xF001 0xFF01
      (replicate 16 0) (replicate 32 0) (sample_usim auth_algo_xor) = Some (result, res', 8, k, u') \<and> result = AUTH_FAILED"
proof -
  let ?u = "sample_usim auth_algo_xor" and ?rand = "replicate 16 5 :: u8 list" and ?autn = "replicate 16 7 :: u8 list"
  have "card_f1 ?u ?rand (xor_bytes (take 6 ?autn) (card_f5 ?u ?rand)) (take 2 (drop 6 ?autn)) ! 6 \<noteq> drop 8 ?autn ! 6"
    by (simp add: card_defs xor_f1_def xor_f5_def nth_append)
  then have "card_f1 ?u ?rand (xor_bytes (take 6 ?autn) (card_f5 ?u ?rand)) (take 2 (drop 6 ?autn)) \<noteq> drop 8 ?autn"
    by metis
  with usim_accepts_mac [of sample_lib ?u ?rand ?autn "replicate 16 0" "replicate 32 0" "0xF001" "0xFF01"] show ?thesis
    by (metis (full_types) auth_result_t.exhaust length_replicate sample_lib_ok sample_usim_ok)
qed

text \<open>A challenge of sequence number 0 for the sample card.\<close>

definition sample_autn :: "u8 list" where
  "sample_autn = (let u = sample_usim auth_algo_milenage; r = replicate 16 5 in
     xor_bytes (replicate 6 0) (card_f5 u r) @ [0x80, 0] @ card_f1 u r (replicate 6 0) [0x80, 0])"

lemma sample_autn:
  "length sample_autn = 16" "xor_bytes (take 6 sample_autn) (card_f5 (sample_usim auth_algo_milenage) (replicate 16 5)) = replicate 6 0"
  "take 2 (drop 6 sample_autn) = [0x80, 0]"
  "drop 8 sample_autn = card_f1 (sample_usim auth_algo_milenage) (replicate 16 5) (replicate 6 0) [0x80, 0]"
  using milenage.challenge_fields [of "(replicate 16 1, replicate 16 2)" "replicate 16 5" "replicate 6 0" "[0x80, 0]"]
  by (simp_all add: sample_autn_def card_defs key_ok_def Let_def)

theorem usim_accepts_replay_witness:
  "\<exists>res' n k u' v'. generate_authentication_response sample_lib (replicate 16 5) sample_autn 0xF001 0xFF01
      (replicate 16 0) (replicate 32 0) (sample_usim auth_algo_milenage) = Some (AUTH_OK, res', n, k, u') \<and>
    generate_authentication_response sample_lib (replicate 16 5) sample_autn 0xF001 0xFF01
      (replicate 16 0) (replicate 32 0) ((sample_usim auth_algo_milenage)\<lparr>usim_autn := sample_autn\<rparr>) = Some (AUTH_OK, res', n, k, v')"
proof -
  let ?u = "sample_usim auth_algo_milenage" and ?r = "replicate 16 5 :: u8 list"
  have v: "usim_ok (?u\<lparr>usim_autn := sample_autn\<rparr>)"
    using sample_usim_ok [of auth_algo_milenage] sample_autn(1) by (simp add: usim_ok_def)
  obtain res' k u' where u: "generate_authentication_response sample_lib ?r sample_autn 0xF001 0xFF01
      (replicate 16 0) (replicate 32 0) ?u = Some (AUTH_OK, res', 8, k, u')"
    using authentication_response [of sample_lib ?u ?r sample_autn "replicate 16 0" "replicate 32 0" "0xF001" "0xFF01"] sample_autn
    by auto
  have same: "(usim_k (?u\<lparr>usim_autn := sample_autn\<rparr>), usim_opc (?u\<lparr>usim_autn := sample_autn\<rparr>), auth_algo (?u\<lparr>usim_autn := sample_autn\<rparr>)) =
      (usim_k ?u, usim_opc ?u, auth_algo ?u)" by simp
  from usim_accepts_replay [OF sample_lib_ok sample_usim_ok v _ sample_autn(1) _ _ same u] u show ?thesis by auto
qed

theorem handover_key_chain_witness:
  "\<exists>ks u'. generate_as_keys_ho sample_lib 1 100 2 \<lparr>k_rrc_enc = replicate 32 0, k_rrc_int = replicate 32 0,
      k_up_enc = replicate 32 0, k_up_int = replicate 32 0\<rparr> CIPHERING_ALGORITHM_ID_EEA0 INTEGRITY_ALGORITHM_ID_128_EIA2
      ((sample_usim auth_algo_xor)\<lparr>is_first_ncc := True\<rparr>) = Some (ks, u') \<and> current_ncc u' = 2 \<and>
    usim_k_enb u' = lib_sha256 sample_lib (next_hop_key sample_lib (replicate 32 0) (replicate 32 0) 2) (k_enb_star_S 1 100)"
proof -
  let ?u = "(sample_usim auth_algo_xor)\<lparr>is_first_ncc := True\<rparr>"
  let ?ks = "\<lparr>k_rrc_enc = replicate 32 0, k_rrc_int = replicate 32 0, k_up_enc = replicate 32 0, k_up_int = replicate 32 0\<rparr>"
  have u: "derived sample_lib 0 ?u" "usim_k_asme ?u = replicate 32 0" "k_enb_initial ?u = replicate 32 0"
    using sample_usim_ok [of auth_algo_xor] by (simp_all add: derived_def usim_ok_def sample_usim_def new_usim_def)
  have "as_keys_len ?ks" by (simp add: as_keys_len_def)
  from handover_key_chain [OF sample_lib_ok u(1) this, of 2 1 100 CIPHERING_ALGORITHM_ID_EEA0 INTEGRITY_ALGORITHM_ID_128_EIA2]
  obtain u' where "generate_as_keys_ho sample_lib 1 100 2 ?ks CIPHERING_ALGORITHM_ID_EEA0 INTEGRITY_ALGORITHM_ID_128_EIA2 ?u =
      Some (the (as_keys_of sample_lib (usim_k_enb u') CIPHERING_ALGORITHM_ID_EEA0 INTEGRITY_ALGORITHM_ID_128_EIA2 ?ks), u')"
    "derived sample_lib 2 u'"
    "usim_k_enb u' = lib_sha256 sample_lib (next_hop_key sample_lib (replicate 32 0) (replicate 32 0) 2) (k_enb_star_S 1 100)"
    by (auto simp: u(2,3) numeral_2_eq_2)
  moreover from this(2) have "current_ncc u' = 2" by (simp add: derived_def word_unat_eq_iff)
  ultimately show ?thesis by blast
qed

end
