(* ===== verification/Hss.thy ===== *)
theory Hss
  imports Aka_Algorithm Bcd
begin

text \<open>
  The home subscriber server of the EPC, \<open>srsepc/src/hss/hss.cc\<close> and \<open>hss.h\<close>: the user contexts,
  authentication vectors for MILENAGE and XOR, resynchronisation and the sequence numbers. \<open>std::map\<close> is an association
  list sorted by its keys. The results of \<open>rand ()\<close> are arguments. Output arrays are given with their contents and
  returned; \<open>None\<close> is an access outside an array. The file of the user database is not modelled.

  Lemmas: the sequence number as a number and the vectors on a well-formed database.
\<close>

section \<open>State\<close>

definition LTE_FDD_ENB_IND_HE_N_BITS :: nat where "LTE_FDD_ENB_IND_HE_N_BITS = 5"
definition LTE_FDD_ENB_IND_HE_MASK :: u64 where "LTE_FDD_ENB_IND_HE_MASK = 0x1F"
definition LTE_FDD_ENB_IND_HE_MAX_VALUE :: u64 where "LTE_FDD_ENB_IND_HE_MAX_VALUE = 31"
definition LTE_FDD_ENB_SEQ_HE_MAX_VALUE :: u64 where "LTE_FDD_ENB_SEQ_HE_MAX_VALUE = 0x07FFFFFFFFFF"

lemmas he_defs = LTE_FDD_ENB_IND_HE_N_BITS_def LTE_FDD_ENB_IND_HE_MASK_def LTE_FDD_ENB_IND_HE_MAX_VALUE_def
  LTE_FDD_ENB_SEQ_HE_MAX_VALUE_def

datatype hss_auth_algo = HSS_ALGO_XOR | HSS_ALGO_MILENAGE

record hss_ue_ctx_t =
  ue_name :: string
  ue_imsi :: u64
  ue_algo :: hss_auth_algo
  ue_key :: "u8 list"
  op_configured :: bool
  ue_op :: "u8 list"
  ue_opc :: "u8 list"
  ue_amf :: "u8 list"
  ue_sqn :: "u8 list"
  ue_qci :: u16
  last_rand :: "u8 list"
  static_ip_addr :: string

record hss =
  m_imsi_to_ue_ctx :: "(u64 \<times> hss_ue_ctx_t) list"
  m_ip_to_imsi :: "(string \<times> u64) list"
  hss_db_file :: string
  hss_mcc :: u16
  hss_mnc :: u16

text \<open>\<open>std::map::insert\<close>: an element with the key stays.\<close>

fun map_insert :: "'k::linorder \<Rightarrow> 'v \<Rightarrow> ('k \<times> 'v) list \<Rightarrow> ('k \<times> 'v) list" where
  "map_insert k v [] = [(k, v)]"
| "map_insert k v ((k', v') # m) =
     (if k < k' then (k, v) # (k', v') # m else if k = k' then (k', v') # m else (k', v') # map_insert k v m)"

definition get_ue_ctx :: "u64 \<Rightarrow> hss \<Rightarrow> hss_ue_ctx_t option" where
  "get_ue_ctx i h = map_of (m_imsi_to_ue_ctx h) i"

text \<open>A write through the pointer that \<open>get_ue_ctx\<close> returns.\<close>

definition update_ctx :: "u64 \<Rightarrow> (hss_ue_ctx_t \<Rightarrow> hss_ue_ctx_t) \<Rightarrow> hss \<Rightarrow> hss" where
  "update_ctx i f h = h\<lparr>m_imsi_to_ue_ctx := map (\<lambda>(k, c). (k, if k = i then f c else c)) (m_imsi_to_ue_ctx h)\<rparr>"

definition get_ip_to_imsi :: "hss \<Rightarrow> (string \<times> u64) list" where
  "get_ip_to_imsi h = m_ip_to_imsi h"

section \<open>Sequence numbers\<close>

definition sqn_to_u64 :: "u8 list \<Rightarrow> u64" where
  "sqn_to_u64 sqn = foldl (\<lambda>s i. s OR shl (u64_of (sqn ! i)) ((5 - i) * 8)) 0 [0..<6]"

definition u64_to_sqn :: "u64 \<Rightarrow> u8 list" where
  "u64_to_sqn s = map (\<lambda>i. u8_of (shr s ((5 - i) * 8) AND 0xFF)) [0..<6]"

definition increment_sqn :: "u8 list \<Rightarrow> u8 list" where
  "increment_sqn sqn =
     (let sqn64 = sqn_to_u64 sqn;
          seq = shr sqn64 LTE_FDD_ENB_IND_HE_N_BITS;
          ind = sqn64 AND LTE_FDD_ENB_IND_HE_MASK;
          nextseq = (seq + 1) mod LTE_FDD_ENB_SEQ_HE_MAX_VALUE;
          nextind = (ind + 1) mod LTE_FDD_ENB_IND_HE_MAX_VALUE;
          nextsqn = shl nextseq LTE_FDD_ENB_IND_HE_N_BITS OR nextind
      in u64_to_sqn nextsqn)"

definition increment_ue_sqn :: "u64 \<Rightarrow> hss \<Rightarrow> hss" where
  "increment_ue_sqn i h = update_ctx i (\<lambda>c. c\<lparr>ue_sqn := increment_sqn (ue_sqn c)\<rparr>) h"

definition increment_seq :: "u8 list \<Rightarrow> u8 list" where
  "increment_seq sqn =
     (let sqn64 = sqn_to_u64 sqn;
          seq = shr sqn64 LTE_FDD_ENB_IND_HE_N_BITS;
          ind = sqn64 AND LTE_FDD_ENB_IND_HE_MASK;
          nextseq = (seq + 1) mod LTE_FDD_ENB_SEQ_HE_MAX_VALUE;
          nextsqn = shl nextseq LTE_FDD_ENB_IND_HE_N_BITS OR ind
      in u64_to_sqn nextsqn)"

definition increment_seq_after_resync :: "u64 \<Rightarrow> hss \<Rightarrow> hss" where
  "increment_seq_after_resync i h = update_ctx i (\<lambda>c. c\<lparr>ue_sqn := increment_seq (ue_sqn c)\<rparr>) h"

definition set_sqn :: "u64 \<Rightarrow> u8 list \<Rightarrow> hss \<Rightarrow> hss" where
  "set_sqn i sqn h = update_ctx i (\<lambda>c. c\<lparr>ue_sqn := copy_n 6 sqn (ue_sqn c)\<rparr>) h"

definition set_last_rand :: "u64 \<Rightarrow> u8 list \<Rightarrow> hss \<Rightarrow> hss" where
  "set_last_rand i r h = update_ctx i (\<lambda>c. c\<lparr>last_rand := copy_n 16 r (last_rand c)\<rparr>) h"

definition get_last_rand :: "u64 \<Rightarrow> hss \<Rightarrow> u8 list \<Rightarrow> u8 list" where
  "get_last_rand i h r = (case get_ue_ctx i h of None \<Rightarrow> r | Some c \<Rightarrow> copy_n 16 (last_rand c) r)"

section \<open>Authentication vectors\<close>

text \<open>The output arrays of a request.\<close>

record auth_vector =
  av_k_asme :: "u8 list"
  av_autn :: "u8 list"
  av_rand :: "u8 list"
  av_xres :: "u8 list"

definition gen_rand :: "nat list \<Rightarrow> u8 list" where
  "gen_rand rs = map (\<lambda>i. of_nat (rs ! i mod 256)) [0..<16]"

definition get_k_amf_opc_sqn :: "u64 \<Rightarrow> hss \<Rightarrow> (u8 list \<times> u8 list \<times> u8 list \<times> u8 list) option" where
  "get_k_amf_opc_sqn i h =
     map_option (\<lambda>c. (take 16 (ue_key c), take 2 (ue_amf c), take 16 (ue_opc c), take 6 (ue_sqn c))) (get_ue_ctx i h)"

text \<open>The local arrays are written in full before they are read; they start as zeros here.\<close>

definition gen_auth_info_answer_milenage ::
    "crypto_lib \<Rightarrow> nat list \<Rightarrow> u64 \<Rightarrow> auth_vector \<Rightarrow> hss \<Rightarrow> (bool \<times> auth_vector \<times> hss) option" where
  "gen_auth_info_answer_milenage L rs i av h =
     (case get_k_amf_opc_sqn i h of
        None \<Rightarrow> Some (False, av, h)
      | Some (k, amf, opc, sqn) \<Rightarrow>
          do {
            let av = av\<lparr>av_rand := copy_n 16 (gen_rand rs) (av_rand av)\<rparr>;
            (_, xres, ck, ik, ak) \<leftarrow> security_milenage_f2345 (Some k) (Some opc) (Some (av_rand av)) (Some (av_xres av))
              (Some (replicate 16 0)) (Some (replicate 16 0)) (Some (replicate 6 0));
            let av = av\<lparr>av_xres := the xres\<rparr>;
            (_, mac) \<leftarrow> security_milenage_f1 (Some k) (Some opc) (Some (av_rand av)) (Some sqn) (Some amf) (Some (replicate 8 0));
            (_, k_asme) \<leftarrow> security_generate_k_asme L ck ik ak (Some sqn) (hss_mcc h) (hss_mnc h) (Some (av_k_asme av));
            let av = av\<lparr>av_k_asme := the k_asme, av_autn := copy_n 16 (xor_bytes sqn (the ak) @ amf @ the mac) (av_autn av)\<rparr>;
            Some (True, av, set_last_rand i (av_rand av) h)
          })"

definition gen_auth_info_answer_xor ::
    "crypto_lib \<Rightarrow> nat list \<Rightarrow> u64 \<Rightarrow> auth_vector \<Rightarrow> hss \<Rightarrow> (bool \<times> auth_vector \<times> hss) option" where
  "gen_auth_info_answer_xor L rs i av h =
     (case get_k_amf_opc_sqn i h of
        None \<Rightarrow> Some (False, av, h)
      | Some (k, amf, opc, sqn) \<Rightarrow>
          do {
            let av = av\<lparr>av_rand := copy_n 16 (gen_rand rs) (av_rand av)\<rparr>;
            let xdout = xor_bytes k (take 16 (av_rand av));
            let av = av\<lparr>av_xres := copy_n 16 xdout (av_xres av)\<rparr>;
            let ck = map (\<lambda>j. xdout ! ((j + 1) mod 16)) [0..<16];
            let ik = map (\<lambda>j. xdout ! ((j + 2) mod 16)) [0..<16];
            let ak = map (\<lambda>j. xdout ! (j + 3)) [0..<6];
            let cdout = sqn @ amf;
            let mac = xor_bytes (take 8 xdout) cdout;
            let autn = xor_bytes sqn ak @ amf @ mac;
            let av = av\<lparr>av_autn := copy_n 16 autn (av_autn av)\<rparr>;
            (_, k_asme) \<leftarrow> security_generate_k_asme L (Some ck) (Some ik) (Some ak) (Some sqn) (hss_mcc h) (hss_mnc h)
              (Some (av_k_asme av));
            let av = av\<lparr>av_k_asme := the k_asme, av_autn := copy_n 16 autn (av_autn av)\<rparr>;
            Some (True, av, set_last_rand i (av_rand av) h)
          })"

definition gen_auth_info_answer ::
    "crypto_lib \<Rightarrow> nat list \<Rightarrow> u64 \<Rightarrow> auth_vector \<Rightarrow> hss \<Rightarrow> (bool \<times> auth_vector \<times> hss) option" where
  "gen_auth_info_answer L rs i av h =
     (case get_ue_ctx i h of
        None \<Rightarrow> Some (False, av, h)
      | Some c \<Rightarrow>
          do {
            (ret, av, h) \<leftarrow> (case ue_algo c of
                HSS_ALGO_XOR \<Rightarrow> gen_auth_info_answer_xor L rs i av h
              | HSS_ALGO_MILENAGE \<Rightarrow> gen_auth_info_answer_milenage L rs i av h);
            Some (ret, av, increment_ue_sqn i h)
          })"

definition gen_update_loc_answer :: "u64 \<Rightarrow> u8 \<Rightarrow> hss \<Rightarrow> bool \<times> u8" where
  "gen_update_loc_answer i qci h =
     (case get_ue_ctx i h of None \<Rightarrow> (False, qci) | Some c \<Rightarrow> (True, u8_of (ue_qci c)))"

section \<open>Resynchronisation\<close>

definition resync_sqn_xor :: "u64 \<Rightarrow> u8 list \<Rightarrow> hss \<Rightarrow> bool \<times> hss" where
  "resync_sqn_xor i auts h = (False, h)"

definition resync_sqn_milenage :: "u64 \<Rightarrow> u8 list \<Rightarrow> hss \<Rightarrow> (bool \<times> hss) option" where
  "resync_sqn_milenage i auts h =
     (case get_k_amf_opc_sqn i h of
        None \<Rightarrow> Some (False, h)
      | Some (k, amf, opc, sqn) \<Rightarrow>
          if length auts < 14 then None
          else do {
            let last = get_last_rand i h (replicate 16 0);
            let sqn_ms_xor_ak = take 6 auts;
            let mac_s = take 8 (drop 6 auts);
            (_, ak) \<leftarrow> security_milenage_f5_star (Some k) (Some opc) (Some last) (Some (replicate 6 0));
            let sqn_ms = xor_bytes sqn_ms_xor_ak (the ak);
            let amf = replicate 2 0;
            (_, mac_s_tmp) \<leftarrow> security_milenage_f1_star (Some k) (Some opc) (Some last) (Some sqn_ms) (Some amf)
              (Some (replicate 8 0));
            Some (True, set_sqn i sqn_ms h)
          })"

definition resync_sqn :: "u64 \<Rightarrow> u8 list \<Rightarrow> hss \<Rightarrow> (bool \<times> hss) option" where
  "resync_sqn i auts h =
     (case get_ue_ctx i h of
        None \<Rightarrow> Some (False, h)
      | Some c \<Rightarrow>
          do {
            (ret, h) \<leftarrow> (case ue_algo c of
                HSS_ALGO_XOR \<Rightarrow> Some (resync_sqn_xor i auts h)
              | HSS_ALGO_MILENAGE \<Rightarrow> resync_sqn_milenage i auts h);
            Some (ret, increment_seq_after_resync i h)
          })"

section \<open>Contexts\<close>

definition ctx_ok :: "hss_ue_ctx_t \<Rightarrow> bool" where
  "ctx_ok c \<longleftrightarrow> key_ok (ue_key c, ue_opc c) \<and> length (ue_op c) = 16 \<and> length (ue_amf c) = 2 \<and> length (ue_sqn c) = 6 \<and>
     length (last_rand c) = 16"

definition hss_ok :: "hss \<Rightarrow> bool" where
  "hss_ok h \<longleftrightarrow> (\<forall>(k, c) \<in> set (m_imsi_to_ue_ctx h). ctx_ok c)"

definition av_ok :: "auth_vector \<Rightarrow> bool" where
  "av_ok av \<longleftrightarrow> length (av_k_asme av) = 32 \<and> length (av_autn av) = 16 \<and> length (av_rand av) = 16 \<and> length (av_xres av) = 16"

lemma get_update_ctx [simp]: "get_ue_ctx j (update_ctx i f h) = map_option (if j = i then f else id) (get_ue_ctx j h)"
proof -
  have "map_of (map (\<lambda>(k, c). (k, if k = i then f c else c)) m) j = map_option (if j = i then f else id) (map_of m j)" for m
    by (induction m) auto
  then show ?thesis by (simp add: get_ue_ctx_def update_ctx_def)
qed

lemma update_update_ctx [simp]: "update_ctx i g (update_ctx i f h) = update_ctx i (g \<circ> f) h"
  by (simp add: update_ctx_def o_def case_prod_beta)

lemma hss_ok_ctx: "hss_ok h \<Longrightarrow> get_ue_ctx i h = Some c \<Longrightarrow> ctx_ok c"
  by (auto simp: hss_ok_def get_ue_ctx_def dest: map_of_SomeD)

lemma hss_ok_update: "hss_ok h \<Longrightarrow> (\<And>c. ctx_ok c \<Longrightarrow> ctx_ok (f c)) \<Longrightarrow> hss_ok (update_ctx i f h)"
  by (auto simp: hss_ok_def update_ctx_def)

lemma length_gen_rand [simp]: "length (gen_rand rs) = 16"
  by (simp add: gen_rand_def)

lemma length_u64_to_sqn [simp]: "length (u64_to_sqn s) = 6"
  by (simp add: u64_to_sqn_def)

lemma length_increment [simp]: "length (increment_sqn s) = 6" "length (increment_seq s) = 6"
  by (simp_all add: increment_sqn_def increment_seq_def Let_def)

section \<open>Sequence numbers as numbers\<close>

lemma bit_sqn_to_u64:
  assumes "length s = 6"
  shows "bit (sqn_to_u64 s) n \<longleftrightarrow> n < 48 \<and> bit (s ! (5 - n div 8)) (n mod 8)"
proof -
  obtain a b c d e f where s: "s = [a, b, c, d, e, f]" using assms by (auto simp: eval_nat_numeral length_Suc_conv)
  have w: "sqn_to_u64 s = shl (u64_of a) 40 OR shl (u64_of b) 32 OR shl (u64_of c) 24 OR shl (u64_of d) 16 OR shl (u64_of e) 8 OR u64_of f"
    by (simp add: sqn_to_u64_def s upt_rec or.assoc)
  have v: "bit (x :: u8) k \<Longrightarrow> k < 8" for x k using bit_imp_le_length [of x k] by simp
  consider "n < 8" | "8 \<le> n" "n < 16" | "16 \<le> n" "n < 24" | "24 \<le> n" "n < 32" | "32 \<le> n" "n < 40" | "40 \<le> n" "n < 48" | "48 \<le> n"
    by linarith
  then show ?thesis
  proof cases
    case 1
    then have "n div 8 = 0" "n mod 8 = n" by auto
    then show ?thesis using 1 unfolding w by (auto simp: s bit_or_iff bit_push_bit_iff bit_ucast_iff dest: v)
  next
    case 2
    then have "n div 8 = 1" "n mod 8 = n - 8" by (auto simp: mod_if)
    then show ?thesis using 2 unfolding w by (auto simp: s bit_or_iff bit_push_bit_iff bit_ucast_iff dest: v)
  next
    case 3
    then have "n div 8 = 2" "n mod 8 = n - 16" by presburger+
    then show ?thesis using 3 unfolding w by (auto simp: s bit_or_iff bit_push_bit_iff bit_ucast_iff dest: v)
  next
    case 4
    then have "n div 8 = 3" "n mod 8 = n - 24" by presburger+
    then show ?thesis using 4 unfolding w by (auto simp: s bit_or_iff bit_push_bit_iff bit_ucast_iff dest: v)
  next
    case 5
    then have "n div 8 = 4" "n mod 8 = n - 32" by presburger+
    then show ?thesis using 5 unfolding w by (auto simp: s bit_or_iff bit_push_bit_iff bit_ucast_iff dest: v)
  next
    case 6
    then have "n div 8 = 5" "n mod 8 = n - 40" by presburger+
    then show ?thesis using 6 unfolding w by (auto simp: s bit_or_iff bit_push_bit_iff bit_ucast_iff dest: v)
  next
    case 7
    then show ?thesis unfolding w by (auto simp: bit_or_iff bit_push_bit_iff bit_ucast_iff dest: v)
  qed
qed

lemma sqn_roundtrip: "sqn_to_u64 (u64_to_sqn w) = take_bit 48 w"
proof (rule bit_word_eqI)
  fix n
  have "bit (0xFF :: u64) k \<longleftrightarrow> k < 8" for k
  proof -
    have "(0xFF :: u64) = mask 8" by (simp add: mask_eq_exp_minus_1)
    then show ?thesis by (simp only: bit_mask_iff) auto
  qed
  then have "bit (u64_to_sqn w ! (5 - n div 8)) (n mod 8) \<longleftrightarrow> bit w n" if "n < 48"
  proof -
    have "n div 8 \<le> 5" using that by auto
    then have "[0..<6] ! (5 - n div 8) = 5 - n div 8" "(n div 8) * 8 + n mod 8 = n"
      by (simp_all only: nth_upt, simp_all)
    then show ?thesis using \<open>\<And>k. bit 0xFF k = (k < 8)\<close> \<open>n div 8 \<le> 5\<close>
      by (simp add: u64_to_sqn_def bit_ucast_iff bit_and_iff bit_drop_bit_eq diff_diff_cancel)
  qed
  then show "bit (sqn_to_u64 (u64_to_sqn w)) n = bit (take_bit 48 w) n"
    by (auto simp: bit_sqn_to_u64 bit_take_bit_iff)
qed

definition seq_of :: "u8 list \<Rightarrow> nat" where "seq_of s = unat (sqn_to_u64 s) div 32"
definition ind_of :: "u8 list \<Rightarrow> nat" where "ind_of s = unat (sqn_to_u64 s) mod 32"

lemma sqn_less:
  assumes "length s = 6"
  shows "unat (sqn_to_u64 s) < 2 ^ 48"
proof -
  have "take_bit 48 (sqn_to_u64 s) = sqn_to_u64 s"
    by (rule bit_word_eqI) (auto simp: bit_take_bit_iff bit_sqn_to_u64 [OF assms])
  then have "unat (sqn_to_u64 s) = take_bit 48 (unat (sqn_to_u64 s))" by (metis unsigned_take_bit_eq)
  also have "\<dots> < 2 ^ 48" by (rule take_bit_nat_less_exp)
  finally show ?thesis .
qed

lemma seq_ind_less: "length s = 6 \<Longrightarrow> seq_of s < 2 ^ 43" "ind_of s < 32"
  using sqn_less [of s] by (simp_all add: seq_of_def ind_of_def less_mult_imp_div_less)

text \<open>The number put together from SEQ and IND.\<close>

lemma sqn_parts:
  assumes "unat q < 2 ^ 43" "unat j < 32"
  shows "seq_of (u64_to_sqn (shl q 5 OR j)) = unat q" "ind_of (u64_to_sqn (shl q 5 OR j)) = unat j"
proof -
  have n: "unat (shl q 5 OR j) = 32 * unat q + unat j"
    using assms nat_or_concat [of "unat j" 5 "unat q"] unfolding unat_or unat_shl by (simp add: mult.commute)
  then have "take_bit 48 (unat (shl q 5 OR j)) = unat (shl q 5 OR j)"
    using assms by (simp add: take_bit_nat_eq_self)
  then have "unat (sqn_to_u64 (u64_to_sqn (shl q 5 OR j))) = 32 * unat q + unat j"
    unfolding sqn_roundtrip unsigned_take_bit_eq n by simp
  then show "seq_of (u64_to_sqn (shl q 5 OR j)) = unat q" "ind_of (u64_to_sqn (shl q 5 OR j)) = unat j"
    using assms(2) by (simp_all add: seq_of_def ind_of_def)
qed

lemma increment_parts:
  assumes "length s = 6"
  shows "seq_of (increment_sqn s) = (seq_of s + 1) mod (2 ^ 43 - 1)" "ind_of (increment_sqn s) = (ind_of s + 1) mod 31"
    "seq_of (increment_seq s) = (seq_of s + 1) mod (2 ^ 43 - 1)" "ind_of (increment_seq s) = ind_of s"
proof -
  let ?w = "sqn_to_u64 s"
  let ?q = "(shr ?w 5 + 1) mod 0x07FFFFFFFFFF" and ?j = "(?w AND 0x1F)"
  have q: "unat ?q = (seq_of s + 1) mod (2 ^ 43 - 1)"
  proof -
    have "unat (shr ?w 5) = seq_of s" unfolding seq_of_def unat_drop_bit_eq by (simp add: drop_bit_eq_div)
    then show ?thesis using seq_ind_less(1) [OF assms] by (simp add: unat_mod_distrib unat_word_ariths)
  qed
  have j: "unat ?j = ind_of s"
  proof -
    have "?j = take_bit 5 ?w" by (simp add: take_bit_eq_mask mask_eq_exp_minus_1)
    then have "unat ?j = take_bit 5 (unat ?w)" by (simp only: unsigned_take_bit_eq)
    then show ?thesis by (simp add: take_bit_eq_mod ind_of_def)
  qed
  have j1: "unat ((?j + 1) mod 31) = (ind_of s + 1) mod 31"
    using j seq_ind_less(2) [of s] by (simp add: unat_mod_distrib unat_word_ariths)
  have less: "unat ?q < 2 ^ 43" "unat ?j < 32" "unat ((?j + 1) mod 31) < 32"
    unfolding q j j1 using seq_ind_less(2) [of s] by (simp_all add: less_trans [OF mod_less_divisor])
  show "seq_of (increment_sqn s) = (seq_of s + 1) mod (2 ^ 43 - 1)" "ind_of (increment_sqn s) = (ind_of s + 1) mod 31"
    unfolding increment_sqn_def Let_def he_defs using sqn_parts [OF less(1,3)] q j1 by simp_all
  show "seq_of (increment_seq s) = (seq_of s + 1) mod (2 ^ 43 - 1)" "ind_of (increment_seq s) = ind_of s"
    unfolding increment_seq_def Let_def he_defs using sqn_parts [OF less(1,2)] q j by simp_all
qed

section \<open>The vector the server computes\<close>

lemma authentication_vector:
  fixes c h
  defines "x \<equiv> ue_algo c = HSS_ALGO_XOR" and "key \<equiv> (ue_key c, ue_opc c)"
  assumes "crypto_lib_ok L" "get_ue_ctx i h = Some c" "ctx_ok c" "av_ok av"
  shows "gen_auth_info_answer L rs i av h = Some (True,
    \<lparr>av_k_asme = lib_sha256 L (aka_ck_ik x key (gen_rand rs)) (k_asme_S (ue_sqn c) (aka_f5 x key (gen_rand rs)) (hss_mcc h) (hss_mnc h)),
     av_autn = xor_bytes (ue_sqn c) (aka_f5 x key (gen_rand rs)) @ ue_amf c @ aka_f1 x key (gen_rand rs) (ue_sqn c) (ue_amf c),
     av_rand = gen_rand rs, av_xres = aka_res x key (gen_rand rs) (av_xres av)\<rparr>,
    update_ctx i (\<lambda>c. c\<lparr>last_rand := copy_n 16 (gen_rand rs) (last_rand c), ue_sqn := increment_sqn (ue_sqn c)\<rparr>) h)"
proof -
  have l: "length (ue_key c) = 16" "length (ue_opc c) = 16" "length (ue_amf c) = 2" "length (ue_sqn c) = 6" "key_ok key"
    using assms(5) by (simp_all add: ctx_ok_def key_ok_def key_def)
  have g: "get_k_amf_opc_sqn i h = Some (ue_key c, ue_amf c, ue_opc c, ue_sqn c)"
    using assms(4) l by (simp add: get_k_amf_opc_sqn_def)
  define r where "r = gen_rand rs"
  have r: "gen_rand rs = r" "length r = 16" by (simp_all add: r_def)
  note a = assms(6) [unfolded av_ok_def]
  show ?thesis
  proof (cases "ue_algo c")
    case HSS_ALGO_MILENAGE
    have "length (mil_f5 key r) = 6" using milenage.length_f5 [OF l(5) r(2)] .
    then show ?thesis
      using HSS_ALGO_MILENAGE assms(3,4) l a r
      by (simp add: gen_auth_info_answer_def gen_auth_info_answer_milenage_def g security_milenage_f2345_def
          security_milenage_f1_def generate_k_asme_ok x_def key_def aka_f1_def aka_f5_def aka_res_def aka_ck_ik_def
          mil_f1_def mil_f5_def Let_def set_last_rand_def increment_ue_sqn_def o_def)
  next
    case HSS_ALGO_XOR
    define y where "y = xor_bytes (ue_key c) r"
    have y: "length y = 16" "xor_bytes (ue_key c) r = y" using l(1) r(2) by (simp_all add: y_def)
    have f: "map (\<lambda>i. y ! (Suc i mod 16)) [0..<16] = rotate 1 y" "map (\<lambda>i. y ! (Suc (Suc i) mod 16)) [0..<16] = rotate 2 y"
      "map (\<lambda>i. y ! (i + 3)) [0..<6] = take 6 (drop 3 y)"
      using map_rotate [OF y(1), of 1] map_rotate [OF y(1), of 2] map_shift [OF y(1)] by simp_all
    show ?thesis
      using HSS_ALGO_XOR assms(3,4) l a r(2)
      by (simp add: gen_auth_info_answer_def gen_auth_info_answer_xor_def g r(1) y f
          generate_k_asme_ok x_def key_def aka_f1_def aka_f5_def aka_res_def aka_ck_ik_def
          xor_f1_def xor_f5_def Let_def set_last_rand_def increment_ue_sqn_def o_def copy_n_def)
  qed
qed

lemma resync_milenage:
  assumes "get_ue_ctx i h = Some c" "ctx_ok c" "ue_algo c = HSS_ALGO_MILENAGE" "14 \<le> length auts"
  shows "resync_sqn i auts h = Some (True, update_ctx i (\<lambda>c. c\<lparr>ue_sqn := increment_seq (ue_sqn c)\<rparr> )
    (update_ctx i (\<lambda>c'. c'\<lparr>ue_sqn := copy_n 6 (xor_bytes (take 6 auts) (take 6 (milenage_out (ue_key c) (ue_opc c) (last_rand c) 4 8)))
       (ue_sqn c')\<rparr>) h))"
proof -
  have l: "length (ue_key c) = 16" "length (ue_opc c) = 16" "length (ue_amf c) = 2" "length (ue_sqn c) = 6" "length (last_rand c) = 16"
    using assms(2) by (simp_all add: ctx_ok_def key_ok_def)
  have g: "get_k_amf_opc_sqn i h = Some (ue_key c, ue_amf c, ue_opc c, ue_sqn c)"
    using assms(1) l by (simp add: get_k_amf_opc_sqn_def)
  show ?thesis
    using assms l
    by (simp add: resync_sqn_def resync_sqn_milenage_def g get_last_rand_def security_milenage_f5_star_def
        security_milenage_f1_star_def Let_def set_sqn_def increment_seq_after_resync_def del: update_update_ctx)
qed

section \<open>Properties\<close>

text \<open>Requests for one subscriber, with the answer to each of them: the flag returned and the vector filled in.\<close>

primrec hss_serve ::
    "crypto_lib \<Rightarrow> u64 \<Rightarrow> nat list list \<Rightarrow> auth_vector \<Rightarrow> hss \<Rightarrow> ((bool \<times> auth_vector) list \<times> hss) option" where
  "hss_serve L i [] av h = Some ([], h)"
| "hss_serve L i (rs # rss) av h =
     do {
       (ok, v, h) \<leftarrow> gen_auth_info_answer L rs i av h;
       (answers, h) \<leftarrow> hss_serve L i rss av h;
       Some ((ok, v) # answers, h)
     }"

text \<open>
  What the card makes of an answer for a subscriber whose algorithm and keys are those of \<open>c\<close>: the sequence number
  behind the anonymity key in AUTN, and whether AMF and MAC follow it as they must.
\<close>

definition challenge_sqn :: "hss_ue_ctx_t \<Rightarrow> auth_vector \<Rightarrow> u8 list" where
  "challenge_sqn c v =
     xor_bytes (take 6 (av_autn v)) (aka_f5 (ue_algo c = HSS_ALGO_XOR) (ue_key c, ue_opc c) (av_rand v))"

definition challenge_ok :: "hss_ue_ctx_t \<Rightarrow> auth_vector \<Rightarrow> bool" where
  "challenge_ok c v \<longleftrightarrow>
     drop 6 (av_autn v) =
       ue_amf c @ aka_f1 (ue_algo c = HSS_ALGO_XOR) (ue_key c, ue_opc c) (av_rand v) (challenge_sqn c v) (ue_amf c)"

lemma challenge_cong:
  "ue_algo c' = ue_algo c \<Longrightarrow> ue_key c' = ue_key c \<Longrightarrow> ue_opc c' = ue_opc c \<Longrightarrow> challenge_sqn c' v = challenge_sqn c v"
  "ue_algo c' = ue_algo c \<Longrightarrow> ue_key c' = ue_key c \<Longrightarrow> ue_opc c' = ue_opc c \<Longrightarrow> ue_amf c' = ue_amf c \<Longrightarrow>
     challenge_ok c' v = challenge_ok c v"
  by (simp_all add: challenge_sqn_def challenge_ok_def)

text \<open>One request: the answer is positive, its challenge carries the stored sequence number, the stored one is
  incremented.\<close>

lemma hss_answer:
  fixes c h rs i
  defines "h' \<equiv> update_ctx i (\<lambda>c. c\<lparr>last_rand := copy_n 16 (gen_rand rs) (last_rand c), ue_sqn := increment_sqn (ue_sqn c)\<rparr>) h"
  assumes "crypto_lib_ok L" "get_ue_ctx i h = Some c" "ctx_ok c" "av_ok av"
  shows "\<exists>v. gen_auth_info_answer L rs i av h = Some (True, v, h') \<and> challenge_sqn c v = ue_sqn c \<and>
    challenge_ok c v \<and> av_rand v = gen_rand rs"
proof -
  let ?x = "ue_algo c = HSS_ALGO_XOR" and ?k = "(ue_key c, ue_opc c)"
  have l: "length (ue_sqn c) = 6" "key_ok ?k" "length (ue_key c) = 16"
    using assms(4) by (simp_all add: ctx_ok_def key_ok_def)
  have "length (aka_f5 ?x ?k (gen_rand rs)) = 6"
    using milenage.length_f5 [OF l(2), of "gen_rand rs"] l(3) by (cases "ue_algo c") (simp_all add: aka_f5_def xor_f5_def)
  then show ?thesis
    using authentication_vector [OF assms(2-5), of rs] l(1)
    by (simp add: challenge_sqn_def challenge_ok_def h'_def)
qed

text \<open>C11. Freshness: the server answers every request of any series for a known subscriber positively, with a
  challenge that has the random number drawn for it and a valid MAC, and the sequence numbers in the AUTNs have
  consecutive SEQ parts, one more in each answer than in the one before, until SEQ reaches 2^43 - 2; the number
  stored for the next challenge follows them, and its IND part never becomes 31.\<close>

theorem hss_sqn_fresh:
  assumes "crypto_lib_ok L" "get_ue_ctx i h = Some c" "ctx_ok c" "av_ok av" "seq_of (ue_sqn c) + length rss < 2 ^ 43 - 1"
  shows "\<exists>answers h' c'. hss_serve L i rss av h = Some (answers, h') \<and> get_ue_ctx i h' = Some c' \<and> ctx_ok c' \<and>
    (\<forall>(ok, v) \<in> set answers. ok \<and> challenge_ok c v) \<and> map (\<lambda>(ok, v). av_rand v) answers = map gen_rand rss \<and>
    map seq_of (map (\<lambda>(ok, v). challenge_sqn c v) answers @ [ue_sqn c']) =
      [seq_of (ue_sqn c)..<seq_of (ue_sqn c) + length rss + 1] \<and>
    (rss \<noteq> [] \<longrightarrow> ind_of (ue_sqn c') < 31)"
  using assms(2-5)
proof (induction rss arbitrary: h c)
  case Nil
  then show ?case by simp
next
  case (Cons rs rss)
  let ?c = "c\<lparr>last_rand := copy_n 16 (gen_rand rs) (last_rand c), ue_sqn := increment_sqn (ue_sqn c)\<rparr>"
  let ?h = "update_ctx i (\<lambda>c. c\<lparr>last_rand := copy_n 16 (gen_rand rs) (last_rand c), ue_sqn := increment_sqn (ue_sqn c)\<rparr>) h"
  obtain v where v: "gen_auth_info_answer L rs i av h = Some (True, v, ?h)" "challenge_sqn c v = ue_sqn c"
      "challenge_ok c v" "av_rand v = gen_rand rs"
    using hss_answer [OF assms(1) Cons.prems(1-3)] by blast
  have c: "get_ue_ctx i ?h = Some ?c" "ctx_ok ?c" using Cons.prems(1,2) by (simp_all add: ctx_ok_def)
  have same: "challenge_sqn ?c = challenge_sqn c" "challenge_ok ?c = challenge_ok c"
    by (rule ext, rule challenge_cong, simp_all)+
  have len: "length (ue_sqn c) = 6" using Cons.prems(2) by (simp add: ctx_ok_def)
  have s: "seq_of (ue_sqn ?c) = seq_of (ue_sqn c) + 1" "ind_of (ue_sqn ?c) < 31"
    using increment_parts(1,2) [OF len] Cons.prems(4) by simp_all
  have "seq_of (ue_sqn ?c) + length rss < 2 ^ 43 - 1" using s(1) Cons.prems(4) by simp
  from Cons.IH [OF c Cons.prems(3) this] obtain answers h' c' where
    IH: "hss_serve L i rss av ?h = Some (answers, h')" "get_ue_ctx i h' = Some c'" "ctx_ok c'"
      "\<forall>(ok, v) \<in> set answers. ok \<and> challenge_ok c v" "map (\<lambda>(ok, v). av_rand v) answers = map gen_rand rss"
      "map seq_of (map (\<lambda>(ok, v). challenge_sqn c v) answers @ [ue_sqn c']) =
        [seq_of (ue_sqn ?c)..<seq_of (ue_sqn ?c) + length rss + 1]"
      "rss \<noteq> [] \<longrightarrow> ind_of (ue_sqn c') < 31" unfolding same by blast
  have "ind_of (ue_sqn c') < 31"
  proof (cases rss)
    case Nil
    with IH(1,2) c(1) have "c' = ?c" by simp
    with s(2) show ?thesis by simp
  qed (use IH(7) in simp)
  moreover have "hss_serve L i (rs # rss) av h = Some ((True, v) # answers, h')"
    using IH(1) v(1) by simp
  moreover have "map seq_of (map (\<lambda>(ok, v). challenge_sqn c v) ((True, v) # answers) @ [ue_sqn c']) =
      [seq_of (ue_sqn c)..<seq_of (ue_sqn c) + length (rs # rss) + 1]"
    using IH(6) v(2) unfolding s(1) by (simp add: upt_conv_Cons del: upt_Suc)
  moreover have "\<forall>(ok, v) \<in> set ((True, v) # answers). ok \<and> challenge_ok c v"
    "map (\<lambda>(ok, v). av_rand v) ((True, v) # answers) = map gen_rand (rs # rss)"
    using IH(4,5) v(3,4) by simp_all
  ultimately show ?case using IH(2,3) by blast
qed

text \<open>C30. Resynchronisation accepts every MAC-S: whatever the last eight bytes of AUTS are, the sequence number of the
  subscriber becomes the concealed one with its SEQ part incremented and its IND part kept.\<close>

theorem resync_accepts_any_mac:
  assumes "get_ue_ctx i h = Some c" "ctx_ok c" "ue_algo c = HSS_ALGO_MILENAGE" "length sqn_ms = 6" "length mac_s = 8"
  shows "\<exists>h'. resync_sqn i (xor_bytes sqn_ms (take 6 (milenage_out (ue_key c) (ue_opc c) (last_rand c) 4 8)) @ mac_s) h = Some (True, h') \<and>
    get_ue_ctx i h' = Some (c\<lparr>ue_sqn := increment_seq sqn_ms\<rparr>) \<and>
    seq_of (increment_seq sqn_ms) = (seq_of sqn_ms + 1) mod (2 ^ 43 - 1) \<and> ind_of (increment_seq sqn_ms) = ind_of sqn_ms"
proof -
  let ?ak = "take 6 (milenage_out (ue_key c) (ue_opc c) (last_rand c) 4 8)"
  have l: "length ?ak = 6" "length (ue_sqn c) = 6" using assms(2) by (simp_all add: ctx_ok_def key_ok_def)
  have "xor_bytes (take 6 (xor_bytes sqn_ms ?ak @ mac_s)) ?ak = sqn_ms" using l assms(4) by simp
  then show ?thesis
    using resync_milenage [OF assms(1-3), of "xor_bytes sqn_ms ?ak @ mac_s"] assms(1,4,5) l increment_parts(3,4) [OF assms(4)]
    by simp
qed

text \<open>A failed resynchronisation is not without effect: for the XOR algorithm the server reports failure and still
  increments the SEQ part.\<close>

theorem resync_xor_fails_and_increments:
  assumes "get_ue_ctx i h = Some c" "ctx_ok c" "ue_algo c = HSS_ALGO_XOR"
  shows "\<exists>h'. resync_sqn i auts h = Some (False, h') \<and> get_ue_ctx i h' = Some (c\<lparr>ue_sqn := increment_seq (ue_sqn c)\<rparr>) \<and>
    seq_of (increment_seq (ue_sqn c)) = (seq_of (ue_sqn c) + 1) mod (2 ^ 43 - 1)"
  using assms increment_parts(3) [of "ue_sqn c"]
  by (simp add: resync_sqn_def resync_sqn_xor_def increment_seq_after_resync_def ctx_ok_def)

section \<open>A database for the witnesses\<close>

definition sample_ctx :: "hss_auth_algo \<Rightarrow> hss_ue_ctx_t" where
  "sample_ctx a = \<lparr>ue_name = ''ue1'', ue_imsi = 1, ue_algo = a, ue_key = replicate 16 1, op_configured = False,
     ue_op = replicate 16 0, ue_opc = replicate 16 2, ue_amf = [0x80, 0], ue_sqn = [0, 0, 0, 0, 0x12, 0x34], ue_qci = 7,
     last_rand = replicate 16 5, static_ip_addr = ''0.0.0.0''\<rparr>"

definition sample_hss :: "hss_auth_algo \<Rightarrow> hss" where
  "sample_hss a = \<lparr>m_imsi_to_ue_ctx = [(1, sample_ctx a)], m_ip_to_imsi = [], hss_db_file = '''', hss_mcc = 0xF001, hss_mnc = 0xFF01\<rparr>"

definition sample_av :: auth_vector where
  "sample_av = \<lparr>av_k_asme = replicate 32 0, av_autn = replicate 16 0, av_rand = replicate 16 0, av_xres = replicate 16 0\<rparr>"

lemma sample_hss [simp]:
  "get_ue_ctx 1 (sample_hss a) = Some (sample_ctx a)" "ctx_ok (sample_ctx a)" "av_ok sample_av" "ue_algo (sample_ctx a) = a"
  "seq_of (ue_sqn (sample_ctx a)) = 145" "hss_ok (sample_hss a)" "ue_key (sample_ctx a) = replicate 16 1"
  "ue_opc (sample_ctx a) = replicate 16 2" "last_rand (sample_ctx a) = replicate 16 5" "hss_mcc (sample_hss a) = 0xF001"
  "hss_mnc (sample_hss a) = 0xFF01"
  by (simp_all add: get_ue_ctx_def sample_hss_def sample_ctx_def sample_av_def ctx_ok_def key_ok_def av_ok_def seq_of_def
      sqn_to_u64_def upt_rec hss_ok_def)

theorem hss_sqn_fresh_witness:
  "\<exists>answers h'. hss_serve sample_lib 1 [replicate 16 3, replicate 16 4] sample_av (sample_hss HSS_ALGO_MILENAGE) = Some (answers, h') \<and>
    (\<forall>(ok, v) \<in> set answers. ok \<and> challenge_ok (sample_ctx HSS_ALGO_MILENAGE) v) \<and>
    map (\<lambda>(ok, v). seq_of (challenge_sqn (sample_ctx HSS_ALGO_MILENAGE) v)) answers = [145, 146]"
proof -
  have e: "map (\<lambda>(ok, v). seq_of (challenge_sqn c v)) xs = map seq_of (map (\<lambda>(ok, v). challenge_sqn c v) xs)" for c xs
    by (simp add: case_prod_unfold)
  show ?thesis
    using hss_sqn_fresh [of sample_lib 1 "sample_hss HSS_ALGO_MILENAGE" "sample_ctx HSS_ALGO_MILENAGE" sample_av
        "[replicate 16 3, replicate 16 4]"]
    unfolding e by (auto simp: upt_rec simp del: map_map)
qed

theorem resync_accepts_any_mac_witness:
  "\<exists>h'. resync_sqn 1 (xor_bytes (replicate 6 9) (take 6 (milenage_out (replicate 16 1) (replicate 16 2) (replicate 16 5) 4 8)) @ replicate 8 0)
      (sample_hss HSS_ALGO_MILENAGE) = Some (True, h') \<and> get_ue_ctx 1 h' = Some ((sample_ctx HSS_ALGO_MILENAGE)\<lparr>ue_sqn := increment_seq (replicate 6 9)\<rparr>)"
  using resync_accepts_any_mac [of 1 "sample_hss HSS_ALGO_MILENAGE" "sample_ctx HSS_ALGO_MILENAGE" "replicate 6 9" "replicate 8 0"]
  by auto

theorem resync_xor_fails_and_increments_witness:
  "\<exists>h' c. resync_sqn 1 [] (sample_hss HSS_ALGO_XOR) = Some (False, h') \<and> get_ue_ctx 1 h' = Some c \<and> seq_of (ue_sqn c) = 146"
  using resync_xor_fails_and_increments [of 1 "sample_hss HSS_ALGO_XOR" "sample_ctx HSS_ALGO_XOR" "[]"] by auto

end
