(* ===== verification/Aka.thy ===== *)
theory Aka
  imports Usim Hss
begin

text \<open>
  Authentication and key agreement between the card of the UE (\<open>Usim\<close>) and the subscriber server of the EPC
  (\<open>Hss\<close>), with the comparison the MME makes when the response arrives (\<open>srsepc/src/mme/nas.cc\<close>,
  \<open>handle_authentication_response\<close>).
\<close>

definition auth_response_valid :: "u8 list \<Rightarrow> u8 list \<Rightarrow> bool" where
  "auth_response_valid res xres = foldl (\<lambda>ue_valid i. if res ! i \<noteq> xres ! i then False else ue_valid) True [0..<8]"

lemma auth_response_valid_iff:
  assumes "8 \<le> length res" "8 \<le> length xres"
  shows "auth_response_valid res xres \<longleftrightarrow> take 8 res = take 8 xres"
proof -
  have f: "foldl (\<lambda>v i. if res ! i \<noteq> xres ! i then False else v) b is \<longleftrightarrow> b \<and> (\<forall>i \<in> set is. res ! i = xres ! i)" for b "is"
    by (induction "is" arbitrary: b) auto
  show ?thesis unfolding auth_response_valid_def f using assms by (auto simp: list_eq_iff_nth_eq)
qed

text \<open>C10. Agreement: a card and a server that hold the same key, OPc and algorithm complete the authentication. The card
  accepts the server's challenge, the MME accepts the card's response, and both sides hold the same K_ASME.\<close>

theorem aka_agreement:
  assumes "crypto_lib_ok L" "get_ue_ctx i h = Some c" "ctx_ok c" "av_ok av" "usim_ok u"
    and "usim_k u = ue_key c" "usim_opc u = ue_opc c" "auth_algo u = auth_algo_xor \<longleftrightarrow> ue_algo c = HSS_ALGO_XOR"
    and "length res = 16" "length k_asme = 32"
  shows "\<exists>av' h' res' u'. gen_auth_info_answer L rs i av h = Some (True, av', h') \<and>
    generate_authentication_response L (av_rand av') (av_autn av') (hss_mcc h) (hss_mnc h) res k_asme u =
      Some (AUTH_OK, res', 8, av_k_asme av', u') \<and>
    auth_response_valid res' (av_xres av')"
proof -
  let ?x = "ue_algo c = HSS_ALGO_XOR" and ?key = "(ue_key c, ue_opc c)" and ?r = "gen_rand rs"
  let ?autn = "xor_bytes (ue_sqn c) (aka_f5 ?x ?key ?r) @ ue_amf c @ aka_f1 ?x ?key ?r (ue_sqn c) (ue_amf c)"
  have card: "card_f1 u = aka_f1 ?x ?key" "card_f5 u = aka_f5 ?x ?key" "card_res u = aka_res ?x ?key" "card_ck_ik u = aka_ck_ik ?x ?key"
    using assms(6-8) by (simp_all add: card_f1_def card_f5_def card_res_def card_ck_ik_def)
  have k: "key_ok ?key" and l: "length (ue_sqn c) = 6" "length (ue_amf c) = 2"
    using assms(3) by (simp_all add: ctx_ok_def)
  have r: "length ?r = 16" by simp
  note f = aka.challenge_fields [OF k r l refl, of ?x]
  from authentication_response [OF assms(1,5) r f(1) assms(9,10), of "hss_mcc h" "hss_mnc h"] obtain u' where
    card_answer: "generate_authentication_response L ?r ?autn (hss_mcc h) (hss_mnc h) res k_asme u =
      Some (AUTH_OK, aka_res ?x ?key ?r res, 8,
        lib_sha256 L (aka_ck_ik ?x ?key ?r) (k_asme_S (ue_sqn c) (aka_f5 ?x ?key ?r) (hss_mcc h) (hss_mnc h)), u')"
    unfolding card f by auto
  have "take 8 (aka_res ?x ?key ?r res) = take 8 (aka_res ?x ?key ?r (av_xres av))"
    "8 \<le> length (aka_res ?x ?key ?r res)" "8 \<le> length (aka_res ?x ?key ?r (av_xres av))"
    using k r by (simp_all add: aka_res_def key_ok_def)
  then have "auth_response_valid (aka_res ?x ?key ?r res) (aka_res ?x ?key ?r (av_xres av))"
    by (simp add: auth_response_valid_iff)
  then show ?thesis
    using authentication_vector [OF assms(1-4), of rs] card_answer by auto
qed

theorem aka_agreement_witness:
  "\<exists>av' h' res' u'. gen_auth_info_answer sample_lib (replicate 16 3) 1 sample_av (sample_hss HSS_ALGO_XOR) = Some (True, av', h') \<and>
    generate_authentication_response sample_lib (av_rand av') (av_autn av') 0xF001 0xFF01 (replicate 16 0) (replicate 32 0)
      (sample_usim auth_algo_xor) = Some (AUTH_OK, res', 8, av_k_asme av', u') \<and>
    auth_response_valid res' (av_xres av')"
  using aka_agreement [of sample_lib 1 "sample_hss HSS_ALGO_XOR" "sample_ctx HSS_ALGO_XOR" sample_av "sample_usim auth_algo_xor"
      "replicate 16 0" "replicate 32 0" "replicate 16 3"]
  by simp

end
