(* ===== verification/Rlc_Common.thy ===== *)
theory Rlc_Common
  imports Common Timers
begin

text \<open>
  What the RLC entities share: the configuration (\<open>lib/include/srslte/interfaces/rrc_interface_types.h\<close>), the
  counters (\<open>rlc_metrics.h\<close>), the framing of PDUs and the suspension of a bearer (\<open>rlc_common.h\<close>) and the transmit
  queue (\<open>rlc_tx_queue.h\<close> on \<open>block_queue.h\<close>).

  From here on a buffer is the list of its \<open>N_bytes\<close> bytes. A fresh buffer has room for \<open>ROOM\<close> bytes after its
  message pointer; the operations are \<open>None\<close> where the code writes past that room or reads bytes that are not part of a
  message. A blocking call that cannot go on is \<open>None\<close> too. Allocation does not fail.

  Lemmas: the queue counts the bytes it holds.
\<close>

definition ROOM :: nat where "ROOM = nat (SRSLTE_MAX_BUFFER_SIZE_BYTES - SRSLTE_BUFFER_HEADER_OFFSET)"

lemma ROOM [simp]: "ROOM = 12237"
  by (simp add: ROOM_def buffer_size_defs)

section \<open>Configuration\<close>

datatype rlc_mode_t = rlc_mode_tm | rlc_mode_um | rlc_mode_am | rlc_mode_nulltype

datatype rlc_umd_sn_size_t = umd_size5bits | umd_size10bits | umd_nulltype
datatype rlc_um_nr_sn_size_t = um_nr_size6bits | um_nr_size12bits | um_nr_nulltype
datatype rlc_am_nr_sn_size_t = am_nr_size12bits | am_nr_size18bits | am_nr_nulltype

text \<open>\<open>to_number\<close> indexes an array of two elements and compares the index with 3: there is no value for \<open>nulltype\<close>.\<close>

fun umd_sn_to_number :: "rlc_umd_sn_size_t \<Rightarrow> u16 option" where
  "umd_sn_to_number umd_size5bits = Some 5"
| "umd_sn_to_number umd_size10bits = Some 10"
| "umd_sn_to_number umd_nulltype = None"

fun um_nr_sn_to_number :: "rlc_um_nr_sn_size_t \<Rightarrow> u16 option" where
  "um_nr_sn_to_number um_nr_size6bits = Some 6"
| "um_nr_sn_to_number um_nr_size12bits = Some 12"
| "um_nr_sn_to_number um_nr_nulltype = None"

fun am_nr_sn_to_number :: "rlc_am_nr_sn_size_t \<Rightarrow> u16 option" where
  "am_nr_sn_to_number am_nr_size12bits = Some 12"
| "am_nr_sn_to_number am_nr_size18bits = Some 18"
| "am_nr_sn_to_number am_nr_nulltype = None"

text \<open>\<open>int32_t\<close> members are integers.\<close>

record rlc_am_config_t =
  am_t_poll_retx :: int
  am_poll_pdu :: int
  am_poll_byte :: int
  am_max_retx_thresh :: u32
  am_t_reordering :: int
  am_t_status_prohibit :: int

record rlc_um_config_t =
  um_t_reordering :: int
  um_tx_sn_field_length :: rlc_umd_sn_size_t
  um_rx_sn_field_length :: rlc_umd_sn_size_t
  um_rx_window_size :: u32
  um_rx_mod :: u32
  um_tx_mod :: u32
  um_is_mrb :: bool

record rlc_um_nr_config_t =
  um_nr_sn_field_length :: rlc_um_nr_sn_size_t
  um_nr_UM_Window_Size :: u32
  um_nr_mod :: u32
  um_nr_t_reassembly_ms :: int

definition RLC_TX_QUEUE_LEN :: u32 where "RLC_TX_QUEUE_LEN = 128"

datatype srslte_rat_t = rat_lte | rat_nr | rat_nulltype

record rlc_config_t =
  rlc_rat :: srslte_rat_t
  rlc_mode :: rlc_mode_t
  rlc_am :: rlc_am_config_t
  rlc_um :: rlc_um_config_t
  rlc_um_nr :: rlc_um_nr_config_t
  rlc_tx_queue_length :: u32

definition new_rlc_config :: rlc_config_t where
  "new_rlc_config = \<lparr>rlc_rat = rat_lte, rlc_mode = rlc_mode_tm,
     rlc_am = \<lparr>am_t_poll_retx = 0, am_poll_pdu = 0, am_poll_byte = 0, am_max_retx_thresh = 0, am_t_reordering = 0,
       am_t_status_prohibit = 0\<rparr>,
     rlc_um = \<lparr>um_t_reordering = 0, um_tx_sn_field_length = umd_size5bits, um_rx_sn_field_length = umd_size5bits,
       um_rx_window_size = 0, um_rx_mod = 0, um_tx_mod = 0, um_is_mrb = False\<rparr>,
     rlc_um_nr = \<lparr>um_nr_sn_field_length = um_nr_size6bits, um_nr_UM_Window_Size = 0, um_nr_mod = 0,
       um_nr_t_reassembly_ms = 0\<rparr>,
     rlc_tx_queue_length = RLC_TX_QUEUE_LEN\<rparr>"

definition mch_config :: rlc_config_t where
  "mch_config = new_rlc_config\<lparr>rlc_rat := rat_lte, rlc_mode := rlc_mode_um,
     rlc_um := \<lparr>um_t_reordering = 45, um_tx_sn_field_length = umd_size5bits, um_rx_sn_field_length = umd_size5bits,
       um_rx_window_size = 16, um_rx_mod = 32, um_tx_mod = 32, um_is_mrb = True\<rparr>,
     rlc_tx_queue_length := 1024\<rparr>"

definition srb_config :: "u32 \<Rightarrow> rlc_config_t" where
  "srb_config idx =
     (if idx = 0 \<or> idx > 2 then new_rlc_config
      else new_rlc_config\<lparr>rlc_rat := rat_lte, rlc_mode := rlc_mode_am,
        rlc_am := \<lparr>am_t_poll_retx = 45, am_poll_pdu = - 1, am_poll_byte = - 1, am_max_retx_thresh = 4,
          am_t_reordering = 35, am_t_status_prohibit = 0\<rparr>\<rparr>)"

definition default_rlc_um_config :: "u32 \<Rightarrow> rlc_config_t" where
  "default_rlc_um_config sn_size =
     (let cnfg = new_rlc_config\<lparr>rlc_rat := rat_lte, rlc_mode := rlc_mode_um\<rparr>
      in if sn_size = 10
         then cnfg\<lparr>rlc_um := \<lparr>um_t_reordering = 5, um_tx_sn_field_length = umd_size10bits,
           um_rx_sn_field_length = umd_size10bits, um_rx_window_size = 512, um_rx_mod = 1024, um_tx_mod = 1024,
           um_is_mrb = False\<rparr>\<rparr>
         else if sn_size = 5
         then cnfg\<lparr>rlc_um := \<lparr>um_t_reordering = 5, um_tx_sn_field_length = umd_size5bits,
           um_rx_sn_field_length = umd_size5bits, um_rx_window_size = 16, um_rx_mod = 32, um_tx_mod = 32,
           um_is_mrb = False\<rparr>\<rparr>
         else new_rlc_config)"

definition default_rlc_am_config :: rlc_config_t where
  "default_rlc_am_config = new_rlc_config\<lparr>rlc_rat := rat_lte, rlc_mode := rlc_mode_am,
     rlc_am := \<lparr>am_t_poll_retx = 5, am_poll_pdu = 4, am_poll_byte = 25, am_max_retx_thresh = 4,
       am_t_reordering = 5, am_t_status_prohibit = 5\<rparr>\<rparr>"

definition default_rlc_um_nr_config :: "u32 \<Rightarrow> rlc_config_t" where
  "default_rlc_um_nr_config sn_size =
     (let cnfg = new_rlc_config\<lparr>rlc_rat := rat_nr, rlc_mode := rlc_mode_um\<rparr>
      in if sn_size = 6
         then cnfg\<lparr>rlc_um_nr := \<lparr>um_nr_sn_field_length = um_nr_size6bits, um_nr_UM_Window_Size = 32, um_nr_mod = 64,
           um_nr_t_reassembly_ms = 5\<rparr>\<rparr>
         else if sn_size = 12
         then cnfg\<lparr>rlc_um_nr := \<lparr>um_nr_sn_field_length = um_nr_size12bits, um_nr_UM_Window_Size = 2048, um_nr_mod = 64,
           um_nr_t_reassembly_ms = 5\<rparr>\<rparr>
         else new_rlc_config)"

section \<open>Counters and framing\<close>

record rlc_bearer_metrics_t =
  num_tx_sdus :: u32
  num_rx_sdus :: u32
  num_tx_pdus :: u32
  num_rx_pdus :: u32
  num_tx_bytes :: u64
  num_rx_bytes :: u64
  num_lost_pdus :: u32
  num_dropped_sdus :: u32

definition no_metrics :: rlc_bearer_metrics_t where
  "no_metrics = \<lparr>num_tx_sdus = 0, num_rx_sdus = 0, num_tx_pdus = 0, num_rx_pdus = 0, num_tx_bytes = 0,
     num_rx_bytes = 0, num_lost_pdus = 0, num_dropped_sdus = 0\<rparr>"

definition RLC_AM_WINDOW_SIZE :: nat where "RLC_AM_WINDOW_SIZE = 512"
definition RLC_MAX_SDU_SIZE :: u32 where "RLC_MAX_SDU_SIZE = shl 1 11 - 1"

definition RLC_FI_FIELD_START_AND_END_ALIGNED :: u8 where "RLC_FI_FIELD_START_AND_END_ALIGNED = 0"
definition RLC_FI_FIELD_NOT_END_ALIGNED :: u8 where "RLC_FI_FIELD_NOT_END_ALIGNED = 1"
definition RLC_FI_FIELD_NOT_START_ALIGNED :: u8 where "RLC_FI_FIELD_NOT_START_ALIGNED = 2"
definition RLC_FI_FIELD_NOT_START_OR_END_ALIGNED :: u8 where "RLC_FI_FIELD_NOT_START_OR_END_ALIGNED = 3"

lemmas fi_defs = RLC_FI_FIELD_START_AND_END_ALIGNED_def RLC_FI_FIELD_NOT_END_ALIGNED_def
  RLC_FI_FIELD_NOT_START_ALIGNED_def RLC_FI_FIELD_NOT_START_OR_END_ALIGNED_def

text \<open>The array \<open>li\<close> with its counter \<open>N_li\<close> is the list of its first \<open>N_li\<close> elements.\<close>

record rlc_umd_pdu_header_t =
  umd_fi :: u8
  umd_sn_size :: rlc_umd_sn_size_t
  umd_sn :: u16
  umd_li :: "u16 list"

section \<open>The transmit queue\<close>

record rlc_tx_queue =
  queue_q :: "u8 list list"
  unread_bytes :: u32
  queue_capacity :: int

definition new_tx_queue :: "int \<Rightarrow> rlc_tx_queue" where
  "new_tx_queue capacity = \<lparr>queue_q = [], unread_bytes = 0, queue_capacity = capacity\<rparr>"

definition queue_full :: "rlc_tx_queue \<Rightarrow> bool" where
  "queue_full qu \<longleftrightarrow> queue_capacity qu > 0 \<and> queue_capacity qu \<le> int (length (queue_q qu))"

definition queue_pushing :: "u8 list \<Rightarrow> rlc_tx_queue \<Rightarrow> rlc_tx_queue" where
  "queue_pushing msg qu = qu\<lparr>unread_bytes := unread_bytes qu + of_nat (length msg)\<rparr>"

definition queue_popping :: "u8 list \<Rightarrow> rlc_tx_queue \<Rightarrow> rlc_tx_queue" where
  "queue_popping msg qu =
     (if unread_bytes qu > of_nat (length msg) then qu\<lparr>unread_bytes := unread_bytes qu - of_nat (length msg)\<rparr>
      else qu\<lparr>unread_bytes := 0\<rparr>)"

text \<open>\<open>try_push\<close>, which also returns the value when there is no space, and the blocking \<open>push\<close>.\<close>

definition queue_try_write :: "u8 list \<Rightarrow> rlc_tx_queue \<Rightarrow> (bool \<times> u8 list option) \<times> rlc_tx_queue" where
  "queue_try_write msg qu =
     (if queue_full qu then ((False, Some msg), qu)
      else ((True, None), (queue_pushing msg qu)\<lparr>queue_q := queue_q qu @ [msg]\<rparr>))"

definition queue_write :: "u8 list \<Rightarrow> rlc_tx_queue \<Rightarrow> rlc_tx_queue option" where
  "queue_write msg qu = (case queue_try_write msg qu of ((True, _), qu) \<Rightarrow> Some qu | _ \<Rightarrow> None)"

text \<open>\<open>try_pop\<close> and the blocking \<open>wait_pop\<close>.\<close>

definition queue_try_read :: "rlc_tx_queue \<Rightarrow> (u8 list option \<times> rlc_tx_queue)" where
  "queue_try_read qu =
     (case queue_q qu of [] \<Rightarrow> (None, qu) | msg # q \<Rightarrow> (Some msg, (queue_popping msg qu)\<lparr>queue_q := q\<rparr>))"

definition queue_read :: "rlc_tx_queue \<Rightarrow> (u8 list \<times> rlc_tx_queue) option" where
  "queue_read qu = (case queue_try_read qu of (Some msg, qu) \<Rightarrow> Some (msg, qu) | (None, _) \<Rightarrow> None)"

definition queue_resize :: "u32 \<Rightarrow> rlc_tx_queue \<Rightarrow> rlc_tx_queue" where
  "queue_resize capacity qu = qu\<lparr>queue_capacity := sint capacity\<rparr>"

definition queue_size :: "rlc_tx_queue \<Rightarrow> u32" where
  "queue_size qu = of_nat (length (queue_q qu))"

definition queue_size_bytes :: "rlc_tx_queue \<Rightarrow> u32" where
  "queue_size_bytes qu = unread_bytes qu"

definition queue_size_tail_bytes :: "rlc_tx_queue \<Rightarrow> u32" where
  "queue_size_tail_bytes qu = (case queue_q qu of [] \<Rightarrow> 0 | msg # _ \<Rightarrow> of_nat (length msg))"

definition queue_reset :: "rlc_tx_queue \<Rightarrow> rlc_tx_queue" where
  "queue_reset qu = qu\<lparr>unread_bytes := 0\<rparr>"

definition queue_is_empty :: "rlc_tx_queue \<Rightarrow> bool" where
  "queue_is_empty qu \<longleftrightarrow> queue_q qu = []"

text \<open>The loops that read until the queue is empty.\<close>

function queue_drain :: "rlc_tx_queue \<Rightarrow> rlc_tx_queue" where
  "queue_drain qu = (case queue_try_read qu of (Some _, qu) \<Rightarrow> queue_drain qu | (None, qu) \<Rightarrow> qu)"
  by auto
termination by (relation "measure (\<lambda>qu. length (queue_q qu))")
  (auto simp: queue_try_read_def split: list.splits)

declare queue_drain.simps [simp del]

section \<open>Suspended bearers\<close>

record rlc_suspend =
  is_suspended :: bool
  rx_pdu_resume_queue :: "u8 list list"

definition rlc_bearer_suspend :: "rlc_suspend \<Rightarrow> bool \<times> rlc_suspend" where
  "rlc_bearer_suspend s = (if is_suspended s then (False, s) else (True, s\<lparr>is_suspended := True\<rparr>))"

text \<open>\<open>write_pdu\<close> is the virtual method of the entity, on a state \<open>'e\<close> and with outputs \<open>'o\<close>.\<close>

type_synonym ('e, 'o) rlc_write_pdu = "u8 list \<Rightarrow> 'e \<Rightarrow> ('e \<times> 'o list) option"

primrec rlc_write_all :: "('e, 'o) rlc_write_pdu \<Rightarrow> u8 list list \<Rightarrow> 'e \<Rightarrow> ('e \<times> 'o list) option" where
  "rlc_write_all write_pdu [] e = Some (e, [])"
| "rlc_write_all write_pdu (p # ps) e =
     do {
       (e, out) \<leftarrow> write_pdu p e;
       (e, out') \<leftarrow> rlc_write_all write_pdu ps e;
       Some (e, out @ out')
     }"

definition rlc_bearer_resume ::
    "('e, 'o) rlc_write_pdu \<Rightarrow> rlc_suspend \<times> 'e \<Rightarrow> (bool \<times> (rlc_suspend \<times> 'e) \<times> 'o list) option" where
  "rlc_bearer_resume write_pdu = (\<lambda>(s, e).
     if \<not> is_suspended s then Some (False, (s, e), [])
     else do {
       (e, out) \<leftarrow> rlc_write_all write_pdu (rx_pdu_resume_queue s) e;
       Some (True, (s\<lparr>is_suspended := False, rx_pdu_resume_queue := []\<rparr>, e), out)
     })"

definition rlc_write_pdu_s ::
    "('e, 'o) rlc_write_pdu \<Rightarrow> u8 list \<Rightarrow> rlc_suspend \<times> 'e \<Rightarrow> ((rlc_suspend \<times> 'e) \<times> 'o list) option" where
  "rlc_write_pdu_s write_pdu payload = (\<lambda>(s, e).
     if is_suspended s then Some ((s\<lparr>rx_pdu_resume_queue := rx_pdu_resume_queue s @ [payload]\<rparr>, e), [])
     else map_option (\<lambda>(e, out). ((s, e), out)) (write_pdu payload e))"

section \<open>Lemmas\<close>

text \<open>The queue knows how many bytes it holds.\<close>

definition queue_ok :: "rlc_tx_queue \<Rightarrow> bool" where
  "queue_ok qu \<longleftrightarrow> unat (unread_bytes qu) = length (concat (queue_q qu)) \<and> length (queue_q qu) < 2 ^ 32"

lemma queue_read_ok:
  assumes "queue_ok qu" "queue_read qu = Some (msg, qu')"
  shows "queue_ok qu'" "queue_q qu = msg # queue_q qu'" "queue_capacity qu' = queue_capacity qu"
proof -
  have "length msg < 2 ^ 32" if "queue_q qu = msg # q" for q
    using assms(1) that unat_u32_less [of "unread_bytes qu"] by (simp add: queue_ok_def)
  then show "queue_ok qu'" "queue_q qu = msg # queue_q qu'" "queue_capacity qu' = queue_capacity qu"
    using assms
    by (auto simp: queue_ok_def queue_read_def queue_try_read_def queue_popping_def word_less_nat_alt unat_sub_if'
        unat_of_nat_u32 split: list.splits if_splits)
qed

lemma queue_write_ok:
  assumes "queue_ok qu" "queue_write msg qu = Some qu'" "length (concat (queue_q qu)) + length msg < 2 ^ 32"
    "length (queue_q qu) + 1 < 2 ^ 32"
  shows "queue_ok qu'" "queue_q qu' = queue_q qu @ [msg]"
  using assms
  by (auto simp: queue_ok_def queue_write_def queue_try_write_def queue_pushing_def unat_word_ariths unat_of_nat_u32
      split: if_splits)

lemma queue_drain: "queue_q (queue_drain qu) = []"
  by (induction qu rule: queue_drain.induct, subst queue_drain.simps)
    (auto simp: queue_try_read_def split: list.splits)

end
