(* ===== verification/Rlc_Um_Header.thy ===== *)
theory Rlc_Um_Header
  imports Rlc_Common
begin

text \<open>
  The header of an RLC UM data PDU (\<open>lib/src/upper/rlc_um_lte.cc\<close>): a fixed part of one or two bytes and 12 bits for
  each length indicator, two of them in three bytes. Reading does not look at the length of the PDU: it is \<open>None\<close> where
  it leaves the PDU, or the array of 512 length indicators.

  Lemmas: a header that is written is read back, and takes \<open>rlc_um_packed_length\<close> bytes.
\<close>

section \<open>Reading and writing\<close>

text \<open>\<open>N_li * 1.5 + 0.5\<close>, rounded down.\<close>

definition rlc_um_packed_length :: "rlc_umd_pdu_header_t \<Rightarrow> nat" where
  "rlc_um_packed_length h =
     (if umd_sn_size h = umd_size5bits then 1 else 2) + (3 * length (umd_li h) + 1) div 2"

definition rlc_um_start_aligned :: "u8 \<Rightarrow> bool" where
  "rlc_um_start_aligned fi \<longleftrightarrow> fi = RLC_FI_FIELD_START_AND_END_ALIGNED \<or> fi = RLC_FI_FIELD_NOT_END_ALIGNED"

definition rlc_um_end_aligned :: "u8 \<Rightarrow> bool" where
  "rlc_um_end_aligned fi \<longleftrightarrow> fi = RLC_FI_FIELD_START_AND_END_ALIGNED \<or> fi = RLC_FI_FIELD_NOT_START_ALIGNED"

text \<open>The extension part from the pointer, with \<open>n\<close> length indicators read so far.\<close>

fun um_read_li :: "nat \<Rightarrow> bool \<Rightarrow> u8 list \<Rightarrow> u16 list option" where
  "um_read_li n ext ptr =
     (if \<not> ext then Some []
      else if RLC_AM_WINDOW_SIZE \<le> n then None
      else case ptr of
          b0 # b1 # rest \<Rightarrow>
            (if n mod 2 = 0
             then let ext = (shr b0 7 AND 0x01 \<noteq> 0);
                      li = shl (u16_of (b0 AND 0x7F)) 4 OR u16_of (shr (b1 AND 0xF0) 4)
                  in map_option ((#) li) (um_read_li (n + 1) ext (b1 # rest))
             else let ext = (shr b0 3 AND 0x01 \<noteq> 0);
                      li = shl (u16_of (b0 AND 0x07)) 8 OR u16_of b1
                  in map_option ((#) li) (um_read_li (n + 1) ext rest))
        | _ \<Rightarrow> None)"

declare um_read_li.simps [simp del]

definition rlc_um_read_data_pdu_header :: "u8 list \<Rightarrow> rlc_umd_sn_size_t \<Rightarrow> rlc_umd_pdu_header_t option" where
  "rlc_um_read_data_pdu_header payload sn_size =
     (if sn_size = umd_size5bits
      then case payload of
          b # ptr \<Rightarrow>
            map_option (\<lambda>li. \<lparr>umd_fi = shr b 6 AND 0x03, umd_sn_size = sn_size, umd_sn = u16_of (b AND 0x1F), umd_li = li\<rparr>)
              (um_read_li 0 (shr b 5 AND 0x01 \<noteq> 0) ptr)
        | _ \<Rightarrow> None
      else case payload of
          b0 # b1 # ptr \<Rightarrow>
            map_option (\<lambda>li. \<lparr>umd_fi = shr b0 3 AND 0x03, umd_sn_size = sn_size,
                umd_sn = shl (u16_of (b0 AND 0x03)) 8 OR u16_of b1, umd_li = li\<rparr>)
              (um_read_li 0 (shr b0 2 AND 0x01 \<noteq> 0) ptr)
        | _ \<Rightarrow> None)"

fun um_write_li :: "u16 list \<Rightarrow> u8 list" where
  "um_write_li [] = []"
| "um_write_li [a] = [u8_of (shr (a AND 0x7F0) 4), u8_of (shl (a AND 0x00F) 4)]"
| "um_write_li (a # b # lis) =
     [0x80 OR u8_of (shr (a AND 0x7F0) 4),
      u8_of (shl (a AND 0x00F) 4) OR shl (if lis = [] then 0 else 1) 3 OR u8_of (shr (b AND 0x700) 8),
      u8_of (b AND 0x0FF)] @ um_write_li lis"

definition rlc_um_write_data_pdu_header :: "rlc_umd_pdu_header_t \<Rightarrow> u8 list \<Rightarrow> u8 list" where
  "rlc_um_write_data_pdu_header h pdu =
     (let ext = (if umd_li h \<noteq> [] then 1 else 0);
          fixed = (if umd_sn_size h = umd_size5bits
                   then [shl (umd_fi h AND 0x03) 6 OR shl ext 5 OR u8_of (umd_sn h AND 0x1F)]
                   else [shl (umd_fi h AND 0x03) 3 OR shl ext 2 OR u8_of (shr (umd_sn h AND 0x300) 8),
                         u8_of (umd_sn h AND 0xFF)])
      in fixed @ um_write_li (umd_li h) @ pdu)"

section \<open>Lemmas\<close>

lemma length_um_write_li: "length (um_write_li lis) = (3 * length lis + 1) div 2"
  by (induction lis rule: um_write_li.induct) auto

lemma length_um_write: "length (rlc_um_write_data_pdu_header h pdu) = rlc_um_packed_length h + length pdu"
  by (simp add: rlc_um_write_data_pdu_header_def rlc_um_packed_length_def Let_def length_um_write_li)

lemma um_drop_header: "drop (rlc_um_packed_length h) (rlc_um_write_data_pdu_header h pdu) = pdu"
  by (simp add: rlc_um_write_data_pdu_header_def rlc_um_packed_length_def Let_def length_um_write_li)

lemma rlc_um_aligned [simp]:
  "rlc_um_start_aligned 0" "rlc_um_start_aligned 1" "\<not> rlc_um_start_aligned 2" "\<not> rlc_um_start_aligned 3"
  "rlc_um_end_aligned 0" "\<not> rlc_um_end_aligned 1" "rlc_um_end_aligned 2" "\<not> rlc_um_end_aligned 3"
  by (simp_all add: rlc_um_start_aligned_def rlc_um_end_aligned_def fi_defs)

text \<open>The masks of the code as bits.\<close>

lemma li_masks:
  "(0x7F0 :: u16) = push_bit 4 (mask 7)" "(0x700 :: u16) = push_bit 8 (mask 3)" "(0x00F :: u16) = mask 4"
  "(0x300 :: u16) = push_bit 8 (mask 2)" "(0xF0 :: u8) = push_bit 4 (mask 4)"
  "(0xF0 :: u16) = push_bit 4 (mask 4)"
  by (simp_all add: mask_eq_exp_minus_1)

lemma mask_numerals:
  "(3 :: 'a::len word) = mask 2" "(7 :: 'a::len word) = mask 3" "(0x0F :: 'a::len word) = mask 4"
  "(0x1F :: 'a::len word) = mask 5" "(0x7F :: 'a::len word) = mask 7" "(0xFF :: 'a::len word) = mask 8"
  by (simp_all add: mask_eq_exp_minus_1)

lemma bit_li_masks:
  "bit (0x7F0 :: u16) n \<longleftrightarrow> 4 \<le> n \<and> n < 11" "bit (0x700 :: u16) n \<longleftrightarrow> 8 \<le> n \<and> n < 11" "bit (0x00F :: u16) n \<longleftrightarrow> n < 4"
  "bit (0x300 :: u16) n \<longleftrightarrow> 8 \<le> n \<and> n < 10" "bit (0xF0 :: u8) n \<longleftrightarrow> 4 \<le> n \<and> n < 8"
  "bit (0xFF :: u16) n \<longleftrightarrow> n < 8" "bit (0x7F :: u8) n \<longleftrightarrow> n < 7" "bit (0x07 :: u8) n \<longleftrightarrow> n < 3"
  "bit (0x0F :: u8) n \<longleftrightarrow> n < 4" "bit (0xF0 :: u16) n \<longleftrightarrow> 4 \<le> n \<and> n < 8" "bit (0x7F :: u16) n \<longleftrightarrow> n < 7" "bit (0x07 :: u16) n \<longleftrightarrow> n < 3" "bit (0x03 :: u16) n \<longleftrightarrow> n < 2" "bit (0xFF :: u8) n \<longleftrightarrow> n < 8"
  "bit (0x03 :: u8) n \<longleftrightarrow> n < 2" "bit (0x1F :: u8) n \<longleftrightarrow> n < 5" "bit (0x1F :: u16) n \<longleftrightarrow> n < 5"
  unfolding li_masks mask_numerals by (auto simp: bit_push_bit_iff bit_mask_iff)

lemma bit_u16_less: "(x :: u16) < 2 ^ k \<Longrightarrow> k \<le> 16 \<Longrightarrow> bit x n \<Longrightarrow> n < k"
proof -
  assume "x < 2 ^ k" "k \<le> 16" "bit x n"
  then have "take_bit k x = x"
    by (cases "k = 16") (simp_all add: take_bit_word_eq_self less_mask_eq take_bit_eq_mask)
  with \<open>bit x n\<close> show "n < k" by (metis bit_take_bit_iff)
qed

text \<open>What is read from the bytes that are written.\<close>

lemmas li_bits = bit_li_masks bit_or_iff bit_and_iff bit_push_bit_iff bit_drop_bit_eq bit_ucast_iff

lemma bit_u8_0x80: "bit (0x80 :: u8) n \<longleftrightarrow> n = 7"
proof -
  have "(0x80 :: u8) = push_bit 7 1" by simp
  then show ?thesis by (simp only: bit_push_bit_iff bit_1_iff) auto
qed

lemma li_first:
  assumes "a < 2 ^ 11" "(x :: u8) \<in> {0, 0x80}" "\<And>n. bit (y :: u8) n \<Longrightarrow> n < 4"
  shows "shl (u16_of ((x OR u8_of (shr (a AND 0x7F0) 4)) AND 0x7F)) 4 OR u16_of (shr ((u8_of (shl (a AND 0x00F) 4) OR y) AND 0xF0) 4) = a"
proof (rule bit_word_eqI)
  fix n assume "n < LENGTH(16)"
  have x: "\<not> bit x m" if "m < 7" for m using assms(2) that by (auto simp: bit_u8_0x80 simp del: bit_numeral_word_iff)
  have y: "\<not> bit y m" if "4 \<le> m" for m using assms(3) that by force
  have "bit a n \<Longrightarrow> n < 11" using bit_u16_less [OF assms(1)] by simp
  then show "bit (shl (u16_of ((x OR u8_of (shr (a AND 0x7F0) 4)) AND 0x7F)) 4 OR
      u16_of (shr ((u8_of (shl (a AND 0x00F) 4) OR y) AND 0xF0) 4)) n = bit a n"
    using \<open>n < LENGTH(16)\<close> x [of "n - 4"] y by (cases "n < 4") (auto simp: li_bits simp del: bit_numeral_word_iff)
qed

lemma li_second:
  assumes "b < 2 ^ 11" "\<And>n. bit (y :: u8) n \<Longrightarrow> 3 \<le> n"
  shows "shl (u16_of ((y OR u8_of (shr (b AND 0x700) 8)) AND 0x07)) 8 OR u16_of (u8_of (b AND 0x0FF)) = b"
proof (rule bit_word_eqI)
  fix n assume "n < LENGTH(16)"
  have y: "\<not> bit y m" if "m < 3" for m using assms(2) that by force
  have "bit b n \<Longrightarrow> n < 11" using bit_u16_less [OF assms(1)] by simp
  then show "bit (shl (u16_of ((y OR u8_of (shr (b AND 0x700) 8)) AND 0x07)) 8 OR u16_of (u8_of (b AND 0x0FF))) n = bit b n"
    using \<open>n < LENGTH(16)\<close> y [of "n - 8"] by (cases "n < 8") (auto simp: li_bits simp del: bit_numeral_word_iff)
qed

lemma ext_first: "shr (u8_of (shr ((a :: u16) AND 0x7F0) 4)) 7 AND 0x01 = 0" "shr (0x80 OR u8_of (shr ((a :: u16) AND 0x7F0) 4)) 7 AND 0x01 = 1"
  by (rule bit_word_eqI, auto simp: li_bits bit_1_iff bit_u8_0x80 simp del: bit_numeral_word_iff)+

lemma ext_second:
  "shr (u8_of (shl ((a :: u16) AND 0x00F) 4) OR shl c 3 OR u8_of (shr ((b :: u16) AND 0x700) 8)) 3 AND 0x01 = c AND 0x01"
  by (rule bit_word_eqI) (auto simp: li_bits bit_1_iff simp del: bit_numeral_word_iff)

lemma um_read_write_li:
  assumes "n mod 2 = 0" "\<forall>l \<in> set lis. l < 2 ^ 11" "n + length lis \<le> 512" "lis \<noteq> []"
  shows "um_read_li n True (um_write_li lis @ rest) = Some lis"
  using assms
proof (induction lis arbitrary: n rest rule: um_write_li.induct)
  case (2 a)
  then show ?case
    using li_first [of a 0 "0 :: u8"] ext_first [of a]
    by (simp add: um_read_li.simps [of n] um_read_li.simps [of "Suc n"] RLC_AM_WINDOW_SIZE_def)
next
  case (3 a b lis)
  let ?c = "if lis = [] then 0 else 1 :: u8"
  define y where "y = shl ?c 3 OR u8_of (shr (b AND 0x700) 8)"
  have y1: "k < 4" if "bit y k" for k using that by (auto simp: y_def li_bits bit_1_iff simp del: bit_numeral_word_iff split: if_splits)
  define z where "z = u8_of (shl (a AND 0x00F) 4) OR shl ?c 3"
  have z: "3 \<le> k" if "bit z k" for k using that by (auto simp: z_def li_bits bit_1_iff simp del: bit_numeral_word_iff split: if_splits)
  have a: "a < 2 ^ 11" "b < 2 ^ 11" using 3(3) by simp_all
  note first = li_first [OF a(1), where x = "0x80" and y = y, OF _ y1, unfolded y_def]
  note second = li_second [OF a(2), where y = z, OF z, unfolded z_def or.assoc]
  have "um_read_li (n + 2) (lis \<noteq> []) (um_write_li lis @ rest) = Some lis"
  proof (cases "lis = []")
    case True
    then show ?thesis by (simp add: um_read_li.simps)
  next
    case False
    then show ?thesis using 3(1) [of "n + 2" rest] 3(2-4) by simp
  qed
  then have tail: "um_read_li (Suc (Suc n)) (lis \<noteq> []) (um_write_li lis @ rest) = Some lis" by simp
  have c: "(?c AND 0x01 \<noteq> 0) = (lis \<noteq> [])" by simp
  have l: "\<not> 512 \<le> n" "\<not> 512 \<le> Suc n" "Suc n mod 2 \<noteq> 0" using 3(2,4) by (simp_all, presburger)
  show ?case
    using first second ext_first(2) [of a] ext_second [of a ?c b] tail c l 3(2)
    by (cases "lis = []")
      (simp_all add: um_read_li.simps [of n] um_read_li.simps [of "Suc n"] RLC_AM_WINDOW_SIZE_def Let_def)
qed simp

lemma um_ext_bits:
  assumes "(x :: u8) \<in> {0, 1}"
  shows "shr (shl (fi AND 0x03) 6 OR shl x 5 OR u8_of ((sn :: u16) AND 0x1F)) 5 AND 0x01 = x"
    "shr (shl (fi AND 0x03) 6 OR shl x 5 OR u8_of (sn AND 0x1F)) 6 AND 0x03 = fi AND 0x03"
    "(shl (fi AND 0x03) 6 OR shl x 5 OR u8_of (sn AND 0x1F)) AND 0x1F = u8_of (sn AND 0x1F)"
    "shr (shl (fi AND 0x03) 3 OR shl x 2 OR u8_of (shr (sn AND 0x300) 8)) 2 AND 0x01 = x"
    "shr (shl (fi AND 0x03) 3 OR shl x 2 OR u8_of (shr (sn AND 0x300) 8)) 3 AND 0x03 = fi AND 0x03"
    "(shl (fi AND 0x03) 3 OR shl x 2 OR u8_of (shr (sn AND 0x300) 8)) AND 0x03 = u8_of (shr (sn AND 0x300) 8)"
proof -
  have x: "bit x n \<Longrightarrow> n = 0" for n using assms by (auto simp: bit_1_iff)
  show "shr (shl (fi AND 0x03) 6 OR shl x 5 OR u8_of (sn AND 0x1F)) 5 AND 0x01 = x"
    "shr (shl (fi AND 0x03) 6 OR shl x 5 OR u8_of (sn AND 0x1F)) 6 AND 0x03 = fi AND 0x03"
    "(shl (fi AND 0x03) 6 OR shl x 5 OR u8_of (sn AND 0x1F)) AND 0x1F = u8_of (sn AND 0x1F)"
    "shr (shl (fi AND 0x03) 3 OR shl x 2 OR u8_of (shr (sn AND 0x300) 8)) 2 AND 0x01 = x"
    "shr (shl (fi AND 0x03) 3 OR shl x 2 OR u8_of (shr (sn AND 0x300) 8)) 3 AND 0x03 = fi AND 0x03"
    "(shl (fi AND 0x03) 3 OR shl x 2 OR u8_of (shr (sn AND 0x300) 8)) AND 0x03 = u8_of (shr (sn AND 0x300) 8)"
    by (rule bit_word_eqI, auto simp: li_bits bit_1_iff simp del: bit_numeral_word_iff dest: x)+
qed

definition umd_header_ok :: "rlc_umd_pdu_header_t \<Rightarrow> bool" where
  "umd_header_ok h \<longleftrightarrow> umd_fi h < 4 \<and> umd_sn_size h \<noteq> umd_nulltype \<and>
     umd_sn h < (if umd_sn_size h = umd_size5bits then 2 ^ 5 else 2 ^ 10) \<and>
     length (umd_li h) \<le> 512 \<and> (\<forall>l \<in> set (umd_li h). l < 2 ^ 11)"

lemma um_header_roundtrip:
  assumes "umd_header_ok h"
  shows "rlc_um_read_data_pdu_header (rlc_um_write_data_pdu_header h pdu) (umd_sn_size h) = Some h"
proof -
  let ?x = "if umd_li h \<noteq> [] then 1 else 0 :: u8"
  have x: "?x \<in> {0, 1}" by simp
  have fi: "umd_fi h AND 0x03 = umd_fi h"
    using assms by (simp add: umd_header_ok_def mask_numerals less_mask_eq)
  note bits = um_ext_bits [OF x, of "umd_fi h" "umd_sn h", unfolded fi]
  have li: "um_read_li 0 (umd_li h \<noteq> []) (um_write_li (umd_li h) @ pdu) = Some (umd_li h)"
    using um_read_write_li [of 0 "umd_li h" pdu] assms
    by (cases "umd_li h = []") (simp_all add: um_read_li.simps umd_header_ok_def)
  have x1: "(?x \<noteq> 0) = (umd_li h \<noteq> [])" by simp
  show ?thesis
  proof (cases "umd_sn_size h = umd_size5bits")
    case True
    then have "umd_sn h < 2 ^ 5" using assms by (simp add: umd_header_ok_def)
    then have "bit (umd_sn h) n \<Longrightarrow> n < 5" for n using bit_u16_less [of "umd_sn h" 5 n] by simp
    then have "u16_of (u8_of (umd_sn h AND 0x1F)) = umd_sn h"
      by (intro bit_word_eqI) (fastforce simp: li_bits simp del: bit_numeral_word_iff)
    then show ?thesis
      using True li x1 bits(1-3) fi
      by (simp add: rlc_um_read_data_pdu_header_def rlc_um_write_data_pdu_header_def Let_def)
  next
    case False
    then have "umd_sn h < 2 ^ 10" using assms by (simp add: umd_header_ok_def)
    then have "bit (umd_sn h) n \<Longrightarrow> n < 10" for n using bit_u16_less [of "umd_sn h" 10 n] by simp
    then have "shl (u16_of (u8_of (shr (umd_sn h AND 0x300) 8))) 8 OR u16_of (u8_of (umd_sn h AND 0xFF)) = umd_sn h"
      by (intro bit_word_eqI) (fastforce simp: li_bits simp del: bit_numeral_word_iff)
    then show ?thesis
      using False li x1 bits(4-6) fi
      by (simp add: rlc_um_read_data_pdu_header_def rlc_um_write_data_pdu_header_def Let_def)
  qed
qed

section \<open>PDUs of segments\<close>

text \<open>The header and the PDU with sequence number \<open>sn\<close> that carry the segments \<open>segs\<close>, at least one.\<close>

abbreviation um_fi :: "bool \<Rightarrow> bool \<Rightarrow> u8" where
  "um_fi st en \<equiv> (if st then 0 else 2) OR (if en then 0 else 1)"

lemma um_fi_aligned [simp]: "rlc_um_start_aligned (um_fi st en) = st" "rlc_um_end_aligned (um_fi st en) = en"
  by (cases st; cases en; simp)+

definition um_header_of :: "rlc_umd_sn_size_t \<Rightarrow> u16 \<Rightarrow> bool \<Rightarrow> bool \<Rightarrow> u8 list list \<Rightarrow> rlc_umd_pdu_header_t" where
  "um_header_of sz sn start_aligned end_aligned segs =
     \<lparr>umd_fi = um_fi start_aligned end_aligned, umd_sn_size = sz, umd_sn = sn,
      umd_li = map (\<lambda>s. of_nat (length s)) (butlast segs)\<rparr>"

definition um_pdu :: "rlc_umd_sn_size_t \<Rightarrow> u16 \<Rightarrow> bool \<Rightarrow> bool \<Rightarrow> u8 list list \<Rightarrow> u8 list" where
  "um_pdu sz sn start_aligned end_aligned segs =
     rlc_um_write_data_pdu_header (um_header_of sz sn start_aligned end_aligned segs) (concat segs)"

end
