(* ===== verification/Rlc_Um_Tx.thy ===== *)
theory Rlc_Um_Tx
  imports Rlc_Um_Header
begin

text \<open>
  The transmitter of an RLC UM entity: \<open>rlc_um_lte_tx\<close> (\<open>lib/src/upper/rlc_um_lte.cc\<close>) and its base class
  \<open>rlc_um_base_tx\<close> (\<open>rlc_um_base.cc\<close>). Building a PDU is \<open>None\<close> where the code writes past the PDU buffer, the array of
  length indicators or the space of the MAC, or blocks on an empty queue.

  Lemmas: a PDU is the header of its segments followed by them; the segments are what was pending, cut where the grant
  ends; the PDU fits the grant.
\<close>

section \<open>State and operations\<close>

record rlc_um_tx =
  tx_cfg :: rlc_config_t
  vt_us :: u32
  tx_sdu_queue :: rlc_tx_queue
  tx_sdu :: "u8 list option"

definition new_um_tx :: rlc_um_tx where
  "new_um_tx = \<lparr>tx_cfg = new_rlc_config, vt_us = 0, tx_sdu_queue = new_tx_queue 128, tx_sdu = None\<rparr>"

definition um_tx_configure :: "rlc_config_t \<Rightarrow> rlc_um_tx \<Rightarrow> bool \<times> rlc_um_tx" where
  "um_tx_configure cnfg e =
     (let e = e\<lparr>tx_cfg := cnfg\<rparr>
      in if um_tx_mod (rlc_um (tx_cfg e)) = 0 then (False, e)
         else (True, e\<lparr>tx_sdu_queue := queue_resize (rlc_tx_queue_length cnfg) (tx_sdu_queue e)\<rparr>))"

definition um_tx_empty_queue :: "rlc_um_tx \<Rightarrow> rlc_um_tx" where
  "um_tx_empty_queue e = e\<lparr>tx_sdu_queue := queue_drain (tx_sdu_queue e), tx_sdu := None\<rparr>"

definition um_tx_stop :: "rlc_um_tx \<Rightarrow> rlc_um_tx" where
  "um_tx_stop e = um_tx_empty_queue e"

definition um_tx_reestablish :: "rlc_um_tx \<Rightarrow> rlc_um_tx" where
  "um_tx_reestablish e = um_tx_stop e"

definition um_tx_has_data :: "rlc_um_tx \<Rightarrow> bool" where
  "um_tx_has_data e \<longleftrightarrow> tx_sdu e \<noteq> None \<or> \<not> queue_is_empty (tx_sdu_queue e)"

text \<open>An SDU is \<open>None\<close> for a null pointer.\<close>

definition um_tx_write_sdu :: "u8 list option \<Rightarrow> rlc_um_tx \<Rightarrow> rlc_um_tx option" where
  "um_tx_write_sdu sdu e =
     (case sdu of
        None \<Rightarrow> Some e
      | Some s \<Rightarrow> map_option (\<lambda>q. e\<lparr>tx_sdu_queue := q\<rparr>) (queue_write s (tx_sdu_queue e)))"

definition um_tx_try_write_sdu :: "u8 list option \<Rightarrow> rlc_um_tx \<Rightarrow> rlc_um_tx" where
  "um_tx_try_write_sdu sdu e =
     (case sdu of None \<Rightarrow> e | Some s \<Rightarrow> e\<lparr>tx_sdu_queue := snd (queue_try_write s (tx_sdu_queue e))\<rparr>)"

definition um_tx_discard_sdu :: "u32 \<Rightarrow> rlc_um_tx \<Rightarrow> rlc_um_tx" where
  "um_tx_discard_sdu discard_sn e = e"

text \<open>\<open>n_bytes += ((n_sdus - 1) * 1.5) + 0.5\<close>, rounded down.\<close>

definition um_tx_get_buffer_state :: "rlc_um_tx \<Rightarrow> u32" where
  "um_tx_get_buffer_state e =
     (let n_sdus = queue_size (tx_sdu_queue e);
          n_bytes = queue_size_bytes (tx_sdu_queue e);
          (n_sdus, n_bytes) = (case tx_sdu e of None \<Rightarrow> (n_sdus, n_bytes)
                                              | Some s \<Rightarrow> (n_sdus + 1, n_bytes + of_nat (length s)));
          n_bytes = (if n_sdus > 1 then n_bytes + of_nat ((3 * unat (n_sdus - 1) + 1) div 2) else n_bytes)
      in if n_bytes > 0 then n_bytes + (if um_is_mrb (rlc_um (tx_cfg e)) then 2 else 3) else n_bytes)"

text \<open>The part of an SDU that is moved into the PDU, and what remains of the SDU.\<close>

definition um_move :: "int \<Rightarrow> int \<Rightarrow> u8 list \<Rightarrow> u8 list \<times> u8 list option" where
  "um_move pdu_space head_len sdu =
     (let space = nat ((pdu_space - head_len) mod 2 ^ 32);
          to_move = (if space \<ge> length sdu then length sdu else space);
          rest = drop to_move sdu
      in (take to_move sdu, if rest = [] then None else Some rest))"

text \<open>The loop that pulls SDUs from the queue; \<open>data\<close> is what is in the PDU so far.\<close>

function um_pull_sdus ::
    "int \<Rightarrow> int \<Rightarrow> nat \<Rightarrow> rlc_umd_pdu_header_t \<Rightarrow> u8 list \<Rightarrow> u8 list option \<Rightarrow> rlc_tx_queue
     \<Rightarrow> (rlc_umd_pdu_header_t \<times> u8 list \<times> u8 list option \<times> rlc_tx_queue) option" where
  "um_pull_sdus pdu_space head_len last_li header data sdu qu =
     (if pdu_space > head_len + 1 \<and> queue_size qu > 0
      then
        let header = (if last_li > 0 then header\<lparr>umd_li := umd_li header @ [of_nat last_li]\<rparr> else header);
            head_len = int (rlc_um_packed_length header)
        in if length (umd_li header) > RLC_AM_WINDOW_SIZE then None
           else case queue_read qu of
               None \<Rightarrow> None
             | Some (msg, qu) \<Rightarrow>
                 let (moved, sdu) = um_move pdu_space head_len msg
                 in um_pull_sdus (pdu_space - int (length moved)) head_len (length moved) header (data @ moved) sdu qu
      else Some (header, data, sdu, qu))"
  by auto
termination
  by (relation "measure (\<lambda>(_, _, _, _, _, _, qu). length (queue_q qu))")
    (auto simp: queue_read_def queue_try_read_def queue_popping_def split: list.splits)

declare um_pull_sdus.simps [simp del]

text \<open>The remainder of an SDU that was cut before: header, data, what remains of the SDU, and the space left.\<close>

definition um_first_segment ::
    "int \<Rightarrow> int \<Rightarrow> rlc_umd_pdu_header_t \<Rightarrow> u8 list option \<Rightarrow> rlc_umd_pdu_header_t \<times> u8 list \<times> u8 list option \<times> int" where
  "um_first_segment pdu_space head_len header sdu =
     (case sdu of
        None \<Rightarrow> (header, [], None, pdu_space)
      | Some s \<Rightarrow>
          let (moved, rest) = um_move pdu_space head_len s;
              tailroom = int ROOM - int (length moved)
          in (header\<lparr>umd_fi := umd_fi header OR RLC_FI_FIELD_NOT_START_ALIGNED\<rparr>, moved, rest,
              pdu_space - min (int (length moved)) tailroom))"

text \<open>Framing, sequence number and header; the PDU is copied to the MAC.\<close>

definition um_finish_pdu ::
    "u32 \<Rightarrow> rlc_umd_pdu_header_t \<Rightarrow> u8 list \<Rightarrow> u8 list option \<Rightarrow> rlc_tx_queue \<Rightarrow> rlc_um_tx \<Rightarrow> (u8 list \<times> rlc_um_tx) option" where
  "um_finish_pdu nof_bytes header data sdu qu e =
     (let header = (if sdu \<noteq> None then header\<lparr>umd_fi := umd_fi header OR RLC_FI_FIELD_NOT_END_ALIGNED\<rparr> else header);
          header = header\<lparr>umd_sn := u16_of (vt_us e)\<rparr>;
          pdu = rlc_um_write_data_pdu_header header data
      in if length data > ROOM \<or> length pdu > unat nof_bytes then None
         else Some (pdu, e\<lparr>vt_us := (vt_us e + 1) mod um_tx_mod (rlc_um (tx_cfg e)), tx_sdu := sdu, tx_sdu_queue := qu\<rparr>))"

definition um_tx_build_data_pdu_lte :: "u32 \<Rightarrow> rlc_um_tx \<Rightarrow> (u8 list \<times> rlc_um_tx) option" where
  "um_tx_build_data_pdu_lte nof_bytes e =
     (let header = \<lparr>umd_fi = RLC_FI_FIELD_START_AND_END_ALIGNED,
            umd_sn_size = um_tx_sn_field_length (rlc_um (tx_cfg e)), umd_sn = u16_of (vt_us e), umd_li = []\<rparr>;
          head_len = int (rlc_um_packed_length header);
          pdu_space = min (uint nof_bytes) (int ROOM)
      in if pdu_space \<le> head_len + 1 then Some ([], e)
         else
           let (header, data, sdu, pdu_space) = um_first_segment pdu_space head_len header (tx_sdu e)
           in case um_pull_sdus pdu_space head_len (length data) header data sdu (tx_sdu_queue e) of
               None \<Rightarrow> None
             | Some (header, data, sdu, qu) \<Rightarrow> um_finish_pdu nof_bytes header data sdu qu e)"

text \<open>Nothing is built, and \<open>[]\<close> returned, when there is no data.\<close>

definition um_tx_build_data_pdu :: "u32 \<Rightarrow> rlc_um_tx \<Rightarrow> (u8 list \<times> rlc_um_tx) option" where
  "um_tx_build_data_pdu nof_bytes e =
     (if tx_sdu e = None \<and> queue_size (tx_sdu_queue e) = 0 then Some ([], e)
      else um_tx_build_data_pdu_lte nof_bytes e)"

section \<open>The segments of a PDU\<close>

text \<open>What a transmitter still has to send.\<close>

definition um_pending :: "rlc_um_tx \<Rightarrow> u8 list list" where
  "um_pending e = (case tx_sdu e of None \<Rightarrow> [] | Some s \<Rightarrow> [s]) @ queue_q (tx_sdu_queue e)"

text \<open>
  \<open>segs\<close> is cut from the front of \<open>pend\<close>: all are whole but the last, of which \<open>rest\<close> remains.
\<close>

fun um_cut :: "u8 list list \<Rightarrow> u8 list list \<Rightarrow> u8 list option \<Rightarrow> u8 list list \<Rightarrow> bool" where
  "um_cut pend [] rest q \<longleftrightarrow> rest = None \<and> q = pend"
| "um_cut [] (s # segs) rest q \<longleftrightarrow> False"
| "um_cut (p # pend) (s # segs) rest q \<longleftrightarrow>
     p = s \<and> um_cut pend segs rest q \<or>
     segs = [] \<and> q = pend \<and> (\<exists>r. r \<noteq> [] \<and> p = s @ r \<and> rest = Some r)"

definition um_sdus_ok :: "u8 list list \<Rightarrow> bool" where
  "um_sdus_ok pend \<longleftrightarrow> (\<forall>s \<in> set pend. s \<noteq> [] \<and> length s < 2 ^ 11)"

lemma um_move:
  assumes "head_len \<le> pdu_space" "pdu_space < 2 ^ 31" "0 \<le> head_len" "um_move pdu_space head_len sdu = (moved, rest)"
  shows "sdu = moved @ (case rest of None \<Rightarrow> [] | Some r \<Rightarrow> r)" "rest \<noteq> Some []" "int (length moved) \<le> pdu_space - head_len"
    "rest \<noteq> None \<Longrightarrow> int (length moved) = pdu_space - head_len"
proof -
  have "nat ((pdu_space - head_len) mod 2 ^ 32) = nat (pdu_space - head_len)" using assms(1-3) by simp
  then show "sdu = moved @ (case rest of None \<Rightarrow> [] | Some r \<Rightarrow> r)" "rest \<noteq> Some []" "int (length moved) \<le> pdu_space - head_len"
    "rest \<noteq> None \<Longrightarrow> int (length moved) = pdu_space - head_len"
    using assms by (auto simp: um_move_def Let_def not_le split: if_splits)
qed

lemma packed_length_Suc:
  "length (umd_li h') = Suc (length (umd_li h)) \<Longrightarrow> umd_sn_size h' = umd_sn_size h \<Longrightarrow>
   rlc_um_packed_length h' \<le> rlc_um_packed_length h + 2"
  by (simp add: rlc_um_packed_length_def)

abbreviation seg_lengths :: "u8 list list \<Rightarrow> u16 list" where
  "seg_lengths segs \<equiv> map (\<lambda>s. of_nat (length s)) (butlast segs)"

lemma um_pull_sdus:
  assumes "queue_ok qu" "um_sdus_ok (queue_q qu)" "\<forall>s \<in> set segs. s \<noteq> []" "length segs + length (queue_q qu) \<le> 513"
    "umd_li header = seg_lengths segs" "int (rlc_um_packed_length header) \<le> P - int (length (concat segs))" "P < 2 ^ 31"
  shows "\<exists>new sdu' qu' header'. um_pull_sdus (P - int (length (concat segs))) (int (rlc_um_packed_length header))
      (if segs = [] then 0 else length (last segs)) header (concat segs) None qu = Some (header', concat (segs @ new), sdu', qu') \<and>
    header' = header\<lparr>umd_li := seg_lengths (segs @ new)\<rparr> \<and> queue_ok qu' \<and> queue_capacity qu' = queue_capacity qu \<and>
    um_cut (queue_q qu) new sdu' (queue_q qu') \<and> (\<forall>s \<in> set (butlast (segs @ new)). s \<noteq> []) \<and>
    int (rlc_um_packed_length header') \<le> P - int (length (concat (segs @ new))) \<and>
    (P - int (length (concat segs)) > int (rlc_um_packed_length header) + 1 \<and> queue_q qu \<noteq> [] \<longrightarrow> new \<noteq> [])"
  using assms
proof (induction "queue_q qu" arbitrary: qu segs header)
  case Nil
  then have "queue_size qu = 0" by (simp add: queue_size_def)
  then show ?case using Nil by (subst um_pull_sdus.simps) (auto simp: in_set_butlastD intro!: exI [of _ "[]"])
next
  case (Cons msg q)
  let ?space = "P - int (length (concat segs))" and ?len = "int (rlc_um_packed_length header)"
  show ?case
  proof (cases "?space > ?len + 1")
    case False
    then show ?thesis using Cons.prems Cons.hyps(2)
      by (subst um_pull_sdus.simps) (auto simp: in_set_butlastD intro!: exI [of _ "[]"])
  next
    case True
    define header1 where "header1 = header\<lparr>umd_li := map (\<lambda>s. of_nat (length s)) segs\<rparr>"
    have li: "(if (if segs = [] then 0 else length (last segs)) > 0
        then header\<lparr>umd_li := umd_li header @ [of_nat (if segs = [] then 0 else length (last segs))]\<rparr> else header) = header1"
      using Cons.prems(3,5) by (cases segs rule: rev_cases) (auto simp: header1_def)
    have h1: "length (umd_li header1) \<le> 512" "int (rlc_um_packed_length header1) \<le> ?space" "umd_sn_size header1 = umd_sn_size header"
    proof -
      show "length (umd_li header1) \<le> 512" using Cons.prems(4) Cons.hyps(2) [symmetric] by (simp add: header1_def)
      have "rlc_um_packed_length header1 \<le> rlc_um_packed_length header + 2"
      proof (cases segs rule: rev_cases)
        case Nil
        then show ?thesis using Cons.prems(5) by (simp add: header1_def rlc_um_packed_length_def)
      next
        case (snoc ys y)
        then show ?thesis using Cons.prems(5) by (intro packed_length_Suc) (simp_all add: header1_def)
      qed
      then show "int (rlc_um_packed_length header1) \<le> ?space" using True by linarith
    qed (simp add: header1_def)
    have size: "queue_size qu > 0"
      using Cons.prems(1) Cons.hyps(2) [symmetric] by (simp add: queue_ok_def queue_size_def word_less_nat_alt unat_word_ariths unat_of_nat_u32 flip: of_nat_Suc)
    obtain qu1 where qu1: "queue_read qu = Some (msg, qu1)" "queue_q qu1 = q" "queue_ok qu1" "queue_capacity qu1 = queue_capacity qu"
    proof -
      obtain m qu1 where "queue_read qu = Some (m, qu1)"
        using Cons.hyps(2) [symmetric] by (auto simp: queue_read_def queue_try_read_def)
      with queue_read_ok [OF Cons.prems(1) this] Cons.hyps(2) show thesis using that [of qu1] by auto
    qed
    obtain moved rest where mv: "um_move ?space (int (rlc_um_packed_length header1)) msg = (moved, rest)" by fastforce
    have P: "?space < 2 ^ 31" using Cons.prems(7) by simp
    note move = um_move [OF h1(2) P _ mv, simplified]
    have msg: "msg \<noteq> []" "um_sdus_ok q" using Cons.prems(2) Cons.hyps(2) [symmetric] by (auto simp: um_sdus_ok_def)
    have step: "um_pull_sdus ?space ?len (if segs = [] then 0 else length (last segs)) header (concat segs) None qu =
        um_pull_sdus (?space - int (length moved)) (int (rlc_um_packed_length header1)) (length moved) header1 (concat segs @ moved) rest qu1"
      using True size h1(1) qu1(1) mv by (subst um_pull_sdus.simps) (simp add: li RLC_AM_WINDOW_SIZE_def)
    show ?thesis
    proof (cases rest)
      case None
      then have m: "msg = moved" using move(1) by simp
      have "\<exists>new sdu' qu' header'. um_pull_sdus (P - int (length (concat (segs @ [moved])))) (int (rlc_um_packed_length header1))
            (if segs @ [moved] = [] then 0 else length (last (segs @ [moved]))) header1 (concat (segs @ [moved])) None qu1 =
            Some (header', concat ((segs @ [moved]) @ new), sdu', qu') \<and>
          header' = header1\<lparr>umd_li := seg_lengths ((segs @ [moved]) @ new)\<rparr> \<and> queue_ok qu' \<and> queue_capacity qu' = queue_capacity qu1 \<and>
          um_cut (queue_q qu1) new sdu' (queue_q qu') \<and> (\<forall>s \<in> set (butlast ((segs @ [moved]) @ new)). s \<noteq> []) \<and>
          int (rlc_um_packed_length header') \<le> P - int (length (concat ((segs @ [moved]) @ new))) \<and>
          (P - int (length (concat (segs @ [moved]))) > int (rlc_um_packed_length header1) + 1 \<and> queue_q qu1 \<noteq> [] \<longrightarrow> new \<noteq> [])"
      proof (rule Cons.hyps(1))
        show "\<forall>s\<in>set (segs @ [moved]). s \<noteq> []" using Cons.prems(3) msg(1) m by simp
        show "length (segs @ [moved]) + length (queue_q qu1) \<le> 513" using Cons.prems(4) Cons.hyps(2) [symmetric] qu1(2) by simp
        show "umd_li header1 = seg_lengths (segs @ [moved])" by (simp add: header1_def)
        show "int (rlc_um_packed_length header1) \<le> P - int (length (concat (segs @ [moved])))" using move(3) by simp
      qed (use qu1 msg(2) Cons.prems(7) in auto)
      then obtain new sdu' qu' header' where
        IH: "um_pull_sdus (P - int (length (concat (segs @ [moved])))) (int (rlc_um_packed_length header1))
            (if segs @ [moved] = [] then 0 else length (last (segs @ [moved]))) header1 (concat (segs @ [moved])) None qu1 =
            Some (header', concat ((segs @ [moved]) @ new), sdu', qu')"
          "header' = header1\<lparr>umd_li := seg_lengths ((segs @ [moved]) @ new)\<rparr>" "queue_ok qu'" "queue_capacity qu' = queue_capacity qu1"
          "um_cut (queue_q qu1) new sdu' (queue_q qu')" "\<forall>s \<in> set (butlast ((segs @ [moved]) @ new)). s \<noteq> []"
          "int (rlc_um_packed_length header') \<le> P - int (length (concat ((segs @ [moved]) @ new)))"
        by blast
      show ?thesis
      proof (intro exI conjI)
        show "um_pull_sdus ?space ?len (if segs = [] then 0 else length (last segs)) header (concat segs) None qu =
          Some (header', concat (segs @ moved # new), sdu', qu')"
          using IH(1) unfolding step None by (simp add: algebra_simps)
        show "header' = header\<lparr>umd_li := seg_lengths (segs @ moved # new)\<rparr>" using IH(2) by (simp add: header1_def)
        show "um_cut (queue_q qu) (moved # new) sdu' (queue_q qu')"
          using IH(5) qu1(2) Cons.hyps(2) [symmetric] m by simp
      qed (use IH qu1 in simp_all)
    next
      case (Some r)
      then have full: "?space - int (length moved) = int (rlc_um_packed_length header1)" "r \<noteq> []" "msg = moved @ r"
        using move by auto
      show ?thesis
      proof (intro exI conjI)
        show "um_pull_sdus ?space ?len (if segs = [] then 0 else length (last segs)) header (concat segs) None qu =
          Some (header1, concat (segs @ [moved]), Some r, qu1)"
          unfolding step full(1) Some by (subst um_pull_sdus.simps) simp
        show "header1 = header\<lparr>umd_li := seg_lengths (segs @ [moved])\<rparr>" by (simp add: header1_def)
        show "um_cut (queue_q qu) [moved] (Some r) (queue_q qu1)"
          using qu1(2) Cons.hyps(2) [symmetric] full(2,3) by simp
        show "\<forall>s \<in> set (butlast (segs @ [moved])). s \<noteq> []" using Cons.prems(3) by simp
        show "int (rlc_um_packed_length header1) \<le> P - int (length (concat (segs @ [moved])))" using full(1) by simp
      qed (use qu1 in simp_all)
    qed
  qed
qed

section \<open>Building a PDU\<close>

abbreviation um_tx_sz :: "rlc_um_tx \<Rightarrow> rlc_umd_sn_size_t" where
  "um_tx_sz e \<equiv> um_tx_sn_field_length (rlc_um (tx_cfg e))"

definition um_tx_ok :: "rlc_um_tx \<Rightarrow> bool" where
  "um_tx_ok e \<longleftrightarrow> queue_ok (tx_sdu_queue e) \<and> um_sdus_ok (um_pending e) \<and> length (um_pending e) \<le> 512"

text \<open>A grant too small for a header and two bytes of data builds nothing.\<close>

definition um_grant_ok :: "u32 \<Rightarrow> rlc_um_tx \<Rightarrow> bool" where
  "um_grant_ok g e \<longleftrightarrow> uint g > (if um_tx_sz e = umd_size5bits then 1 else 2) + 1"

lemma um_cut_Cons: "um_cut pend segs rest q \<Longrightarrow> um_cut (p # pend) (p # segs) rest q"
  by simp

lemma um_build_none:
  assumes "um_pending e = [] \<or> \<not> um_grant_ok g e"
  shows "um_tx_build_data_pdu g e = Some ([], e)"
proof (cases "um_pending e = []")
  case True
  then show ?thesis by (simp add: um_tx_build_data_pdu_def um_pending_def queue_size_def split: option.splits)
next
  case False
  with assms have "uint g \<le> (if um_tx_sz e = umd_size5bits then 1 else 2) + 1" by (simp add: um_grant_ok_def)
  then have "um_tx_build_data_pdu_lte g e = Some ([], e)"
    unfolding um_tx_build_data_pdu_lte_def Let_def by (intro if_P) (auto simp: rlc_um_packed_length_def split: if_splits)
  then show ?thesis by (simp add: um_tx_build_data_pdu_def)
qed

text \<open>The remainder of an SDU that was cut before comes first.\<close>

lemma um_move_remainder:
  assumes "um_move space hl s = (moved, rest)" "hl \<le> space" "0 \<le> hl" "space \<le> int ROOM" "length s < 2 ^ 11"
  shows "space - min (int (length moved)) (int ROOM - int (length moved)) = space - int (length moved)"
proof -
  have "length moved \<le> length s" using um_move(1) [OF assms(2) _ assms(3,1)] assms(4) by simp
  then show ?thesis using assms(5) by (simp add: min_def)
qed

definition um_fixed_header :: "rlc_um_tx \<Rightarrow> rlc_umd_pdu_header_t" where
  "um_fixed_header e = \<lparr>umd_fi = 0, umd_sn_size = um_tx_sz e, umd_sn = u16_of (vt_us e), umd_li = []\<rparr>"

abbreviation um_tx_pdu :: "rlc_um_tx \<Rightarrow> bool \<Rightarrow> u8 list option \<Rightarrow> u8 list list \<Rightarrow> u8 list" where
  "um_tx_pdu e start_aligned rest segs \<equiv> um_pdu (um_tx_sz e) (u16_of (vt_us e)) start_aligned (rest = None) segs"

text \<open>The state after a PDU.\<close>

abbreviation um_tx_next :: "rlc_um_tx \<Rightarrow> u8 list option \<Rightarrow> rlc_tx_queue \<Rightarrow> rlc_um_tx" where
  "um_tx_next e rest qu \<equiv>
     e\<lparr>vt_us := (vt_us e + 1) mod um_tx_mod (rlc_um (tx_cfg e)), tx_sdu := rest, tx_sdu_queue := qu\<rparr>"

lemma um_finish_pdu:
  assumes "h = (um_fixed_header e)\<lparr>umd_fi := (if b then 0 else 2), umd_li := seg_lengths segs\<rparr>"
    "int (rlc_um_packed_length h) \<le> min (uint g) (int ROOM) - int (length (concat segs))"
  shows "um_finish_pdu g h (concat segs) rest qu e = Some (um_tx_pdu e b rest segs, um_tx_next e rest qu)"
    and "length (um_tx_pdu e b rest segs) \<le> min (unat g) ROOM"
proof -
  have w: "(if rest \<noteq> None then h\<lparr>umd_fi := umd_fi h OR 1\<rparr> else h)\<lparr>umd_sn := u16_of (vt_us e)\<rparr> =
      um_header_of (um_tx_sz e) (u16_of (vt_us e)) b (rest = None) segs"
    by (simp add: assms(1) um_fixed_header_def um_header_of_def)
  have "rlc_um_packed_length (um_header_of (um_tx_sz e) (u16_of (vt_us e)) b (rest = None) segs) = rlc_um_packed_length h"
    by (simp add: assms(1) um_fixed_header_def um_header_of_def rlc_um_packed_length_def)
  then have len: "length (um_tx_pdu e b rest segs) = rlc_um_packed_length h + length (concat segs)"
    by (simp add: um_pdu_def length_um_write)
  then show "length (um_tx_pdu e b rest segs) \<le> min (unat g) ROOM"
    using assms(2) uint_nat [of g] by linarith
  then show "um_finish_pdu g h (concat segs) rest qu e = Some (um_tx_pdu e b rest segs, um_tx_next e rest qu)"
    using len unfolding um_finish_pdu_def Let_def fi_defs w by (simp add: um_pdu_def)
qed

text \<open>The segments of the next PDU, with the remainder of an SDU and without.\<close>

lemma um_segments_remainder:
  fixes e P
  defines "h0 \<equiv> um_fixed_header e"
  assumes "um_tx_ok e" "int (rlc_um_packed_length h0) + 1 < P" "P \<le> int ROOM" "tx_sdu e = Some s"
  shows "\<exists>data sdu space segs rest qu h. um_first_segment P (int (rlc_um_packed_length h0)) h0 (tx_sdu e) = (h0\<lparr>umd_fi := 2\<rparr>, data, sdu, space) \<and>
    um_pull_sdus space (int (rlc_um_packed_length h0)) (length data) (h0\<lparr>umd_fi := 2\<rparr>) data sdu (tx_sdu_queue e) = Some (h, concat segs, rest, qu) \<and>
    h = h0\<lparr>umd_fi := 2, umd_li := seg_lengths segs\<rparr> \<and> segs \<noteq> [] \<and> queue_ok qu \<and> um_cut (um_pending e) segs rest (queue_q qu) \<and>
    (\<forall>s \<in> set (butlast segs). s \<noteq> []) \<and> int (rlc_um_packed_length h) \<le> P - int (length (concat segs))"
proof -
  let ?q = "tx_sdu_queue e" and ?len = "int (rlc_um_packed_length h0)"
  obtain moved sdu where mv: "um_move P ?len s = (moved, sdu)" by fastforce
  have s: "length s < 2 ^ 11" "s \<noteq> []" and q: "queue_ok ?q" "um_sdus_ok (queue_q ?q)"
    using assms(2,5) by (auto simp: um_tx_ok_def um_sdus_ok_def um_pending_def)
  have P: "?len \<le> P" "P < 2 ^ 31" using assms(3,4) by simp_all
  note move = um_move [OF P _ mv, simplified]
  have space: "P - min (int (length moved)) (int ROOM - int (length moved)) = P - int (length moved)"
    by (rule um_move_remainder [OF mv P(1) _ assms(4) s(1)]) simp
  define h1 where "h1 = h0\<lparr>umd_fi := 2\<rparr>"
  have h1: "rlc_um_packed_length h1 = rlc_um_packed_length h0" "umd_li h1 = []"
    by (simp_all add: h1_def h0_def um_fixed_header_def rlc_um_packed_length_def)
  have first: "um_first_segment P ?len h0 (tx_sdu e) = (h1, moved, sdu, P - int (length moved))"
    using mv space by (simp add: um_first_segment_def assms(5) fi_defs h1_def h0_def um_fixed_header_def)
  have m: "moved \<noteq> []"
  proof
    assume "moved = []"
    with move(1,4) s(2) assms(3) show False by (cases sdu) auto
  qed
  show ?thesis
  proof (cases sdu)
    case None
    have pend: "um_pending e = moved # queue_q ?q" "length (queue_q ?q) \<le> 511"
      using assms(5) None move(1) assms(2) by (simp_all add: um_pending_def um_tx_ok_def)
    have hm: "int (rlc_um_packed_length h1) \<le> P - int (length (concat [moved]))" using move(3) by (simp add: h1)
    from um_pull_sdus [OF q, of "[moved]" h1, OF _ _ _ hm P(2)] pend(2) m obtain new rest qu h where
      "um_pull_sdus (P - int (length moved)) ?len (length moved) h1 moved None ?q = Some (h, concat (moved # new), rest, qu)"
      "h = h1\<lparr>umd_li := seg_lengths (moved # new)\<rparr>" "queue_ok qu" "um_cut (queue_q ?q) new rest (queue_q qu)"
      "\<forall>s \<in> set (butlast (moved # new)). s \<noteq> []" "int (rlc_um_packed_length h) \<le> P - int (length (concat (moved # new)))"
      by (auto simp: h1)
    then show ?thesis using first None pend(1) unfolding h1_def
      by (intro exI [of _ moved] exI [of _ None] exI [of _ "P - int (length moved)"] exI [of _ "moved # new"] exI [of _ rest] exI [of _ qu] exI [of _ h]) simp
  next
    case (Some r)
    then have full: "P - int (length moved) = ?len" "r \<noteq> []" "s = moved @ r" using move by auto
    have "um_pull_sdus (P - int (length moved)) ?len (length moved) h1 moved sdu ?q = Some (h1, concat [moved], Some r, ?q)"
      unfolding full(1) Some by (subst um_pull_sdus.simps) simp
    then show ?thesis using first full(2,3) assms(5) q(1) h1 full(1) unfolding h1_def
      by (intro exI [of _ moved] exI [of _ sdu] exI [of _ "P - int (length moved)"] exI [of _ "[moved]"] exI [of _ "Some r"] exI [of _ ?q] exI [of _ h1])
        (simp add: um_pending_def h1_def)
  qed
qed

lemma um_segments_new:
  fixes e P
  defines "h0 \<equiv> um_fixed_header e"
  assumes "um_tx_ok e" "int (rlc_um_packed_length h0) + 1 < P" "P \<le> int ROOM" "tx_sdu e = None" "um_pending e \<noteq> []"
  shows "\<exists>segs rest qu h. um_pull_sdus P (int (rlc_um_packed_length h0)) 0 h0 [] None (tx_sdu_queue e) = Some (h, concat segs, rest, qu) \<and>
    h = h0\<lparr>umd_fi := 0, umd_li := seg_lengths segs\<rparr> \<and> segs \<noteq> [] \<and> queue_ok qu \<and> um_cut (um_pending e) segs rest (queue_q qu) \<and>
    (\<forall>s \<in> set (butlast segs). s \<noteq> []) \<and> int (rlc_um_packed_length h) \<le> P - int (length (concat segs))"
proof -
  have q: "queue_ok (tx_sdu_queue e)" "um_sdus_ok (queue_q (tx_sdu_queue e))" "length (queue_q (tx_sdu_queue e)) \<le> 512"
    and pend: "um_pending e = queue_q (tx_sdu_queue e)"
    using assms(2,5) by (auto simp: um_tx_ok_def um_sdus_ok_def um_pending_def)
  have h0: "umd_li h0 = []" "h0\<lparr>umd_fi := 0\<rparr> = h0" by (simp_all add: h0_def um_fixed_header_def)
  have P: "int (rlc_um_packed_length h0) \<le> P - int (length (concat []))" "P < 2 ^ 31" using assms(3,4) by simp_all
  from um_pull_sdus [OF q(1,2), of "[]" h0, OF _ _ _ P] q(3) assms(3,6) pend show ?thesis
    by (auto simp: h0)
qed

lemma um_build_eq:
  fixes e g
  defines "h0 \<equiv> um_fixed_header e" and "P \<equiv> min (uint g) (int ROOM)"
  assumes "um_tx_ok e" "um_pending e \<noteq> []" "um_grant_ok g e"
  shows "int (rlc_um_packed_length h0) + 1 < P" "P \<le> int ROOM"
    "um_tx_build_data_pdu g e =
      (case um_first_segment P (int (rlc_um_packed_length h0)) h0 (tx_sdu e) of (header, data, sdu, space) \<Rightarrow>
       case um_pull_sdus space (int (rlc_um_packed_length h0)) (length data) header data sdu (tx_sdu_queue e) of
           None \<Rightarrow> None | Some (header, data, sdu, qu) \<Rightarrow> um_finish_pdu g header data sdu qu e)"
proof -
  show P: "int (rlc_um_packed_length h0) + 1 < P" "P \<le> int ROOM"
    using assms(5) by (auto simp: h0_def P_def um_grant_ok_def um_fixed_header_def rlc_um_packed_length_def)
  have "um_tx_build_data_pdu g e = um_tx_build_data_pdu_lte g e"
    using assms(3,4) by (cases "queue_q (tx_sdu_queue e)") (auto simp: um_tx_build_data_pdu_def um_pending_def queue_size_def
        um_tx_ok_def queue_ok_def word_unat_eq_iff unat_of_nat_u32 simp flip: of_nat_Suc split: option.splits)
  with P show "um_tx_build_data_pdu g e =
      (case um_first_segment P (int (rlc_um_packed_length h0)) h0 (tx_sdu e) of (header, data, sdu, space) \<Rightarrow>
       case um_pull_sdus space (int (rlc_um_packed_length h0)) (length data) header data sdu (tx_sdu_queue e) of
           None \<Rightarrow> None | Some (header, data, sdu, qu) \<Rightarrow> um_finish_pdu g header data sdu qu e)"
    unfolding um_tx_build_data_pdu_lte_def Let_def um_fixed_header_def fi_defs h0_def P_def
    by (elim trans) (rule if_not_P, simp only: not_le)
qed

lemma um_build:
  assumes "um_tx_ok e" "um_pending e \<noteq> []" "um_grant_ok g e"
  shows "\<exists>segs rest qu. um_tx_build_data_pdu g e = Some (um_tx_pdu e (tx_sdu e = None) rest segs, um_tx_next e rest qu) \<and>
    segs \<noteq> [] \<and> um_cut (um_pending e) segs rest (queue_q qu) \<and> (\<forall>s \<in> set (butlast segs). s \<noteq> []) \<and>
    queue_ok qu \<and> length (um_tx_pdu e (tx_sdu e = None) rest segs) \<le> min (unat g) ROOM"
proof -
  let ?h0 = "um_fixed_header e" and ?P = "min (uint g) (int ROOM)"
  note P = um_build_eq(1,2) [OF assms] and build = um_build_eq(3) [OF assms]
  show ?thesis
  proof (cases "tx_sdu e")
    case None
    from um_segments_new [OF assms(1) P None assms(2)] obtain segs rest qu h where
      r: "um_pull_sdus ?P (int (rlc_um_packed_length ?h0)) 0 ?h0 [] None (tx_sdu_queue e) = Some (h, concat segs, rest, qu)"
        "h = ?h0\<lparr>umd_fi := (if True then 0 else 2), umd_li := seg_lengths segs\<rparr>" "segs \<noteq> []" "queue_ok qu" "um_cut (um_pending e) segs rest (queue_q qu)"
        "\<forall>s \<in> set (butlast segs). s \<noteq> []" "int (rlc_um_packed_length h) \<le> ?P - int (length (concat segs))"
      unfolding if_True by blast
    note f = um_finish_pdu [OF r(2,7)]
    have "um_tx_build_data_pdu g e = Some (um_tx_pdu e True rest segs, um_tx_next e rest qu)"
      using r(1) f(1) [of rest qu] by (simp add: build None um_first_segment_def del: ROOM)
    then show ?thesis using r(3-6) f(2) [of rest] None by (intro exI [of _ segs] exI [of _ rest] exI [of _ qu]) simp
  next
    case (Some s)
    from um_segments_remainder [OF assms(1) P Some] obtain data sdu space segs rest qu h where
      r: "um_first_segment ?P (int (rlc_um_packed_length ?h0)) ?h0 (tx_sdu e) = (?h0\<lparr>umd_fi := 2\<rparr>, data, sdu, space)"
        "um_pull_sdus space (int (rlc_um_packed_length ?h0)) (length data) (?h0\<lparr>umd_fi := 2\<rparr>) data sdu (tx_sdu_queue e) = Some (h, concat segs, rest, qu)"
        "h = ?h0\<lparr>umd_fi := 2, umd_li := seg_lengths segs\<rparr>" "segs \<noteq> []" "queue_ok qu" "um_cut (um_pending e) segs rest (queue_q qu)"
        "\<forall>s \<in> set (butlast segs). s \<noteq> []" "int (rlc_um_packed_length h) \<le> ?P - int (length (concat segs))"
      by (elim exE conjE) (rule that)
    have h: "h = ?h0\<lparr>umd_fi := (if False then 0 else 2), umd_li := seg_lengths segs\<rparr>" by (simp only: r(3) if_False)
    note f = um_finish_pdu [OF h r(8)]
    have "um_tx_build_data_pdu g e = Some (um_tx_pdu e False rest segs, um_tx_next e rest qu)"
      using r(2) f(1) [of rest qu] by (simp add: build r(1) del: ROOM)
    then show ?thesis using r(4-7) f(2) [of rest] Some by (intro exI [of _ segs] exI [of _ rest] exI [of _ qu]) simp
  qed
qed

text \<open>A PDU that leaves something behind leaves at most one byte of the grant.\<close>

lemma um_pull_fills:
  assumes "um_pull_sdus space hl li h data sdu qu = Some (h', data', sdu', qu')" "hl = int (rlc_um_packed_length h)" "hl \<le> space"
    "space < 2 ^ 31" "sdu \<noteq> None \<Longrightarrow> space \<le> hl + 1" "sdu' \<noteq> None \<or> queue_size qu' > 0"
  shows "space + int (length data) \<le> int (length data') + int (rlc_um_packed_length h') + 1"
  using assms
proof (induction space hl li h data sdu qu rule: um_pull_sdus.induct)
  case (1 space hl li h data sdu qu)
  show ?case
  proof (cases "space > hl + 1 \<and> queue_size qu > 0")
    case False
    then have "um_pull_sdus space hl li h data sdu qu = Some (h, data, sdu, qu)" by (subst um_pull_sdus.simps) (auto simp del: word_neq_0_conv)
    then show ?thesis using False 1(2-) by auto
  next
    case True
    define h1 where "h1 = (if li > 0 then h\<lparr>umd_li := umd_li h @ [of_nat li]\<rparr> else h)"
    note pull = 1(2) [unfolded um_pull_sdus.simps [of space hl li h data sdu qu] if_P [OF True] Let_def h1_def [symmetric]]
    obtain msg qu1 moved rest where n: "\<not> length (umd_li h1) > RLC_AM_WINDOW_SIZE" "queue_read qu = Some (msg, qu1)"
      "um_move space (int (rlc_um_packed_length h1)) msg = (moved, rest)"
      "um_pull_sdus (space - int (length moved)) (int (rlc_um_packed_length h1)) (length moved) h1 (data @ moved) rest qu1 =
        Some (h', data', sdu', qu')"
      using pull by (auto split: if_splits option.splits prod.splits)
    have "rlc_um_packed_length h1 \<le> rlc_um_packed_length h + 2" by (cases "li > 0") (use packed_length_Suc [of h1 h] in \<open>simp_all add: h1_def\<close>)
    then have le: "int (rlc_um_packed_length h1) \<le> space" using True 1(3) by linarith
    note mv = um_move [OF le 1(5) _ n(3)]
    have "space - int (length moved) + int (length (data @ moved)) \<le> int (length data') + int (rlc_um_packed_length h') + 1"
      by (rule 1(1) [OF True h1_def refl n(1,2) refl n(3) [symmetric] refl n(4) refl]) (use mv 1(5,7) in auto)
    then show ?thesis by simp
  qed
qed

lemma um_finish_pdu_length:
  assumes "um_finish_pdu g h data sdu qu e = Some (pdu, e')"
  shows "length pdu = rlc_um_packed_length h + length data \<and> tx_sdu e' = sdu \<and> tx_sdu_queue e' = qu"
proof -
  let ?h = "(if sdu \<noteq> None then h\<lparr>umd_fi := umd_fi h OR RLC_FI_FIELD_NOT_END_ALIGNED\<rparr> else h)\<lparr>umd_sn := u16_of (vt_us e)\<rparr>"
  have "rlc_um_packed_length ?h = rlc_um_packed_length h" by (simp add: rlc_um_packed_length_def)
  then show ?thesis using assms unfolding um_finish_pdu_def Let_def by (auto simp: length_um_write split: if_splits)
qed

lemma um_build_fills:
  assumes "um_tx_ok e" "um_grant_ok g e" "um_tx_build_data_pdu g e = Some (pdu, e')" "um_pending e' \<noteq> []"
  shows "min (unat g) ROOM \<le> length pdu + 1"
proof -
  let ?h0 = "um_fixed_header e" and ?P = "min (uint g) (int ROOM)"
  have pend: "um_pending e \<noteq> []" using um_build_none [of e g] assms(3,4) by auto
  note P = um_build_eq(1,2) [OF assms(1) pend assms(2)] and build = um_build_eq(3) [OF assms(1) pend assms(2)]
  from um_build [OF assms(1) pend assms(2)] assms(3) obtain rest0 qu0 where
    e': "e' = um_tx_next e rest0 qu0" "queue_ok qu0" by auto
  obtain h data sdu space where first: "um_first_segment ?P (int (rlc_um_packed_length ?h0)) ?h0 (tx_sdu e) = (h, data, sdu, space)"
    by (cases "um_first_segment ?P (int (rlc_um_packed_length ?h0)) ?h0 (tx_sdu e)")
  have st: "rlc_um_packed_length h = rlc_um_packed_length ?h0 \<and> space = ?P - int (length data) \<and>
      int (rlc_um_packed_length ?h0) \<le> space \<and> (sdu \<noteq> None \<longrightarrow> space \<le> int (rlc_um_packed_length ?h0) + 1)"
  proof (cases "tx_sdu e")
    case None
    then show ?thesis using first P(1) by (auto simp: um_first_segment_def simp del: ROOM)
  next
    case (Some s)
    obtain moved rest where mv: "um_move ?P (int (rlc_um_packed_length ?h0)) s = (moved, rest)" by fastforce
    have le: "int (rlc_um_packed_length ?h0) \<le> ?P" "?P < 2 ^ 31" using P(1) by simp_all
    have "length s < 2 ^ 11" using assms(1) Some by (simp add: um_tx_ok_def um_sdus_ok_def um_pending_def)
    note sp = um_move_remainder [OF mv le(1) of_nat_0_le_iff P(2) this] and move = um_move [OF le of_nat_0_le_iff mv]
    have "um_first_segment ?P (int (rlc_um_packed_length ?h0)) ?h0 (tx_sdu e) =
        (?h0\<lparr>umd_fi := umd_fi ?h0 OR RLC_FI_FIELD_NOT_START_ALIGNED\<rparr>, moved, rest, ?P - int (length moved))"
      unfolding um_first_segment_def Some option.case mv Let_def prod.case sp ..
    then have f: "h = ?h0\<lparr>umd_fi := umd_fi ?h0 OR RLC_FI_FIELD_NOT_START_ALIGNED\<rparr>" "data = moved" "sdu = rest"
        "space = ?P - int (length moved)" unfolding first by simp_all
    have pl: "rlc_um_packed_length (x\<lparr>umd_fi := y\<rparr>) = rlc_um_packed_length x" for x y by (simp add: rlc_um_packed_length_def)
    show ?thesis using move(3,4) unfolding f pl by (simp del: ROOM)
  qed
  obtain h' data' sdu' qu' where
    pull: "um_pull_sdus space (int (rlc_um_packed_length ?h0)) (length data) h data sdu (tx_sdu_queue e) = Some (h', data', sdu', qu')"
    and fin: "um_finish_pdu g h' data' sdu' qu' e = Some (pdu, e')"
    using assms(3) unfolding build first by (auto split: option.splits)
  have len: "length pdu = rlc_um_packed_length h' + length data'" and nx: "tx_sdu e' = sdu'" "tx_sdu_queue e' = qu'"
    using um_finish_pdu_length [OF fin] by simp_all
  have ok: "queue_ok qu'" using e' nx by simp
  have "sdu' \<noteq> None \<or> queue_size qu' > 0"
    using assms(4) ok nx by (auto simp: um_pending_def queue_size_def queue_ok_def word_less_nat_alt unat_of_nat_u32)
  moreover have "space < 2 ^ 31" using st P(2) by simp
  ultimately have "space + int (length data) \<le> int (length data') + int (rlc_um_packed_length h') + 1"
    by (intro um_pull_fills [OF pull]) (use st in auto)
  then show ?thesis using st len uint_nat [of g] by linarith
qed

section \<open>Grants\<close>

lemma um_cut_left:
  assumes "um_cut pend segs rest q" "\<forall>x \<in> set pend. x \<noteq> []"
  shows "length segs \<le> length pend" "rest \<noteq> None \<or> q \<noteq> [] \<Longrightarrow> length (concat segs) < length (concat pend)"
  using assms by (induction pend segs rest q rule: um_cut.induct) (auto simp: neq_Nil_conv)

lemma um_ext_mono: "length segs \<le> n \<Longrightarrow> (3 * (length segs - 1) + 1) div 2 \<le> (3 * (n - 1) + 1) div (2 :: nat)"
  by (intro div_le_mono) simp

lemma length_um_pdu:
  "segs \<noteq> [] \<Longrightarrow> length (um_pdu sz sn st en segs) =
     (if sz = umd_size5bits then 1 else 2) + (3 * (length segs - 1) + 1) div 2 + length (concat segs)"
  by (simp add: um_pdu_def length_um_write um_header_of_def rlc_um_packed_length_def)

lemma um_buffer_state:
  assumes "um_tx_ok e" "um_pending e \<noteq> []"
  shows "unat (um_tx_get_buffer_state e) = length (concat (um_pending e)) + (3 * (length (um_pending e) - 1) + 1) div 2 +
    (if um_is_mrb (rlc_um (tx_cfg e)) then 2 else 3)"
proof -
  define L T where "L = length (um_pending e)" and "T = length (concat (um_pending e))"
  define N where "N = T + (3 * (L - 1) + 1) div 2"
  have ok: "queue_ok (tx_sdu_queue e)" "\<forall>x \<in> set (um_pending e). x \<noteq> [] \<and> length x < 2 ^ 11" "L \<le> 512" "0 < L"
    using assms by (simp_all add: um_tx_ok_def um_sdus_ok_def L_def)
  have "length (concat xs) \<le> length xs * 2 ^ 11" if "\<forall>x \<in> set xs. length x < 2 ^ 11" for xs :: "u8 list list"
    using that by (induction xs) auto
  then have "T \<le> L * 2 ^ 11" using ok(2) by (simp add: T_def L_def)
  moreover have "0 < T" using ok(2) assms(2) by (cases "um_pending e") (auto simp: T_def)
  ultimately have N: "0 < N" "N + 3 < 2 ^ 32" using ok(3) by (simp_all add: N_def)
  have bytes: "queue_size_bytes (tx_sdu_queue e) = of_nat (length (concat (queue_q (tx_sdu_queue e))))"
    using ok(1) unat_u32_less [of "unread_bytes (tx_sdu_queue e)"]
    by (simp add: queue_ok_def queue_size_bytes_def word_unat_eq_iff unat_of_nat_u32)
  have pair: "(case tx_sdu e of None \<Rightarrow> (queue_size (tx_sdu_queue e), queue_size_bytes (tx_sdu_queue e))
      | Some s \<Rightarrow> (queue_size (tx_sdu_queue e) + 1, queue_size_bytes (tx_sdu_queue e) + of_nat (length s))) = (of_nat L, of_nat T)"
    by (simp add: bytes queue_size_def L_def T_def um_pending_def split: option.splits)
  have one: "(of_nat L :: u32) > 1 \<longleftrightarrow> 1 < L" "unat (of_nat L - 1 :: u32) = L - 1"
  proof -
    show "(of_nat L :: u32) > 1 \<longleftrightarrow> 1 < L" using ok(3) by (simp add: word_less_nat_alt unat_of_nat_u32)
    have "(of_nat L - 1 :: u32) = of_nat (L - 1)" using ok(4) by (simp add: of_nat_diff)
    then show "unat (of_nat L - 1 :: u32) = L - 1" using ok(3) by (simp add: unat_of_nat_u32 del: of_nat_diff)
  qed
  have "(if (of_nat L :: u32) > 1 then of_nat T + of_nat ((3 * unat (of_nat L - 1 :: u32) + 1) div 2) else of_nat T) = (of_nat N :: u32)"
    using ok(4) unfolding one by (cases "L = 1") (simp_all add: N_def)
  then have state: "um_tx_get_buffer_state e =
      (if (of_nat N :: u32) > 0 then of_nat N + (if um_is_mrb (rlc_um (tx_cfg e)) then 2 else 3) else of_nat N)"
    unfolding um_tx_get_buffer_state_def Let_def pair prod.case by (simp only:)
  have "unat (of_nat N :: u32) = N" using N(2) by (simp add: unat_of_nat_u32)
  then have "unat (um_tx_get_buffer_state e) = N + (if um_is_mrb (rlc_um (tx_cfg e)) then 2 else 3)"
    unfolding state using N by (simp add: word_less_nat_alt unat_word_ariths)
  then show ?thesis by (simp add: N_def T_def L_def)
qed

lemma um_grant_iff: "um_grant_ok g e \<longleftrightarrow> (if um_tx_sz e = umd_size5bits then 2 else 3) < unat g"
proof -
  have "int k < uint g \<longleftrightarrow> k < unat g" for k using uint_nat [of g] by linarith
  from this [of 2] this [of 3] show ?thesis by (simp add: um_grant_ok_def)
qed

lemma um_pdu_nonempty: "um_pdu sz sn st en segs \<noteq> []"
  by (simp add: um_pdu_def rlc_um_write_data_pdu_header_def Let_def)

end
