(* ===== verification/Rlc_Um_Rx.thy ===== *)
theory Rlc_Um_Rx
  imports Rlc_Um_Header
begin

text \<open>
  The receiver of an RLC UM entity: \<open>rlc_um_lte_rx\<close> (\<open>lib/src/upper/rlc_um_lte.cc\<close>). The state of the model is the
  timer service, with the callbacks of the program, and the receiver. The receive window is an association list
  from sequence numbers to PDUs, a PDU its header and the bytes that follow it. What the entity hands to PDCP is a list of
  \<open>um_out\<close>. An operation is \<open>None\<close> where the code writes past a buffer, reads bytes that were not received or does not
  return.

  Lemmas: the window arithmetic, and what the reassembly loop does with the PDUs of a transmitter.
\<close>

section \<open>State\<close>

datatype um_callback = um_timer_expired

datatype um_out = Pdcp_write_pdu u32 "u8 list" | Pdcp_write_pdu_mch u32 "u8 list"

type_synonym rlc_umd_pdu_t = "rlc_umd_pdu_header_t \<times> u8 list"

record rlc_um_rx =
  rx_cfg :: rlc_um_config_t
  rx_lcid :: u32
  rx_sdu :: "u8 list option"
  rx_window :: "(u32 \<times> rlc_umd_pdu_t) list"
  vr_ur_in_rx_sdu :: u32
  vr_ur :: u32
  vr_ux :: u32
  vr_uh :: u32
  pdu_lost :: bool
  um_reordering_timer :: unique_timer

type_synonym um_rx_state = "um_callback timer_handler \<times> rlc_um_rx"

definition new_um_rx :: "rlc_um_config_t \<Rightarrow> u32 \<Rightarrow> um_callback timer_handler \<Rightarrow> um_rx_state" where
  "new_um_rx cfg lcid h =
     (let (i, h) = get_unique_timer h
      in (h, \<lparr>rx_cfg = cfg, rx_lcid = lcid, rx_sdu = None, rx_window = [], vr_ur_in_rx_sdu = 0, vr_ur = 0, vr_ux = 0,
              vr_uh = 0, pdu_lost = False, um_reordering_timer = Some i\<rparr>))"

definition um_rx_configure :: "um_rx_state \<Rightarrow> bool \<times> um_rx_state" where
  "um_rx_configure = (\<lambda>(h, e).
     if um_rx_mod (rx_cfg e) = 0 then (False, (h, e))
     else case um_reordering_timer e of
         None \<Rightarrow> (False, (h, e))
       | Some i \<Rightarrow>
           (True, (if um_t_reordering (rx_cfg e) > 0
                   then snd (timer_set_callback i (word_of_int (um_t_reordering (rx_cfg e))) um_timer_expired h) else h, e)))"

definition um_rx_reset :: "rlc_um_rx \<Rightarrow> rlc_um_rx" where
  "um_rx_reset e = e\<lparr>vr_ur := 0, vr_ux := 0, vr_uh := 0, pdu_lost := False, rx_sdu := None, rx_window := []\<rparr>"

definition um_rx_stop :: "um_rx_state \<Rightarrow> um_rx_state" where
  "um_rx_stop = (\<lambda>(h, e). (case um_reordering_timer e of None \<Rightarrow> h | Some i \<Rightarrow> timer_stop i h, um_rx_reset e))"

section \<open>The window\<close>

definition RX_MOD_BASE :: "rlc_um_rx \<Rightarrow> u32 \<Rightarrow> u32" where
  "RX_MOD_BASE e x = (x - vr_uh e - um_rx_window_size (rx_cfg e)) mod um_rx_mod (rx_cfg e)"

definition um_inside_reordering_window :: "rlc_um_rx \<Rightarrow> u16 \<Rightarrow> bool" where
  "um_inside_reordering_window e sn \<longleftrightarrow>
     (if um_rx_window_size (rx_cfg e) = 0 \<or> rx_window e = [] then True
      else RX_MOD_BASE e (vr_uh e - um_rx_window_size (rx_cfg e)) \<le> RX_MOD_BASE e (u32_of sn) \<and>
           RX_MOD_BASE e (u32_of sn) < RX_MOD_BASE e (vr_uh e))"

definition um_pdu_belongs_to_rx_sdu :: "rlc_um_rx \<Rightarrow> bool" where
  "um_pdu_belongs_to_rx_sdu e \<longleftrightarrow>
     (vr_ur_in_rx_sdu e + 1) mod um_rx_mod (rx_cfg e) = vr_ur e \<or> vr_ur e = vr_ur_in_rx_sdu e"

definition um_window_erase :: "u32 \<Rightarrow> (u32 \<times> 'b) list \<Rightarrow> (u32 \<times> 'b) list" where
  "um_window_erase k w = filter (\<lambda>(k', _). k' \<noteq> k) w"

section \<open>Reassembly\<close>

text \<open>The bytes in \<open>rx_sdu\<close>, and the buffer passed to PDCP and replaced by a fresh one.\<close>

definition um_sdu :: "rlc_um_rx \<Rightarrow> u8 list" where
  "um_sdu e = (case rx_sdu e of None \<Rightarrow> [] | Some s \<Rightarrow> s)"

definition um_deliver :: "rlc_um_rx \<Rightarrow> rlc_um_rx \<times> um_out list" where
  "um_deliver e =
     (e\<lparr>rx_sdu := Some []\<rparr>,
      [(if um_is_mrb (rx_cfg e) then Pdcp_write_pdu_mch else Pdcp_write_pdu) (rx_lcid e) (um_sdu e)])"

text \<open>\<open>memcpy\<close> of \<open>bs\<close> to the end of \<open>rx_sdu\<close>.\<close>

definition um_append :: "u8 list \<Rightarrow> rlc_um_rx \<Rightarrow> rlc_um_rx option" where
  "um_append bs e = (if length (um_sdu e) + length bs > ROOM then None else Some (e\<lparr>rx_sdu := Some (um_sdu e @ bs)\<rparr>))"

text \<open>\<open>n\<close> bytes of the PDU and the rest of it.\<close>

definition um_split :: "nat \<Rightarrow> u8 list \<Rightarrow> (u8 list \<times> u8 list) option" where
  "um_split n buf = (if n > length buf then None else Some (take n buf, drop n buf))"

text \<open>
  The loop over the length indicators of a PDU at the lower edge of the window, \<open>i\<close> counting them. A first segment
  whose start was lost ends the loop.
\<close>

fun um_lower_segments ::
    "u8 \<Rightarrow> nat \<Rightarrow> u16 list \<Rightarrow> u8 list \<Rightarrow> rlc_um_rx \<Rightarrow> (u8 list \<times> rlc_um_rx \<times> um_out list) option" where
  "um_lower_segments fi i [] buf e = Some (buf, e, [])"
| "um_lower_segments fi i (len # lis) buf e =
     (if um_sdu e = [] \<and> i = 0 \<and> \<not> rlc_um_start_aligned fi
      then Some (drop (unat len) buf, e\<lparr>rx_sdu := Some []\<rparr>, [])
      else do {
        (seg, buf) \<leftarrow> um_split (unat len) buf;
        e \<leftarrow> um_append seg e;
        let (e, out) =
          (if pdu_lost e \<and> \<not> rlc_um_start_aligned fi \<or> vr_ur e \<noteq> (vr_ur_in_rx_sdu e + 1) mod um_rx_mod (rx_cfg e)
           then (e\<lparr>rx_sdu := Some []\<rparr>, []) else um_deliver e);
        let e = e\<lparr>pdu_lost := False\<rparr>;
        (buf, e, out') \<leftarrow> um_lower_segments fi (i + 1) lis buf e;
        Some (buf, e, out @ out')
      })"

text \<open>What follows the last segment of a PDU: delivery when the PDU ends an SDU.\<close>

definition um_end_of_pdu :: "u8 \<Rightarrow> rlc_um_rx \<Rightarrow> rlc_um_rx \<times> um_out list" where
  "um_end_of_pdu fi e =
     (if rlc_um_end_aligned fi
      then let (e, out) = (if pdu_lost e \<and> \<not> rlc_um_start_aligned fi then (e\<lparr>rx_sdu := Some []\<rparr>, []) else um_deliver e)
           in (e\<lparr>pdu_lost := False\<rparr>, out)
      else (e, []))"

definition um_lower_pdu :: "rlc_umd_pdu_t \<Rightarrow> rlc_um_rx \<Rightarrow> (rlc_um_rx \<times> um_out list) option" where
  "um_lower_pdu = (\<lambda>(header, buf) e. do {
     (buf, e, out) \<leftarrow> um_lower_segments (umd_fi header) 0 (umd_li header) buf e;
     if um_sdu e \<noteq> [] \<or> rlc_um_start_aligned (umd_fi header)
     then do {
       e \<leftarrow> um_append buf e;
       let e = e\<lparr>vr_ur_in_rx_sdu := vr_ur e\<rparr>;
       let (e, out') = um_end_of_pdu (umd_fi header) e;
       Some (e, out @ out')
     }
     else Some (e, out)
   })"

definition um_next_vr_ur :: "rlc_um_rx \<Rightarrow> rlc_um_rx" where
  "um_next_vr_ur e = e\<lparr>vr_ur := (vr_ur e + 1) mod um_rx_mod (rx_cfg e)\<rparr>"

text \<open>First loop: catch up with the lower edge of the window.\<close>

partial_function (option) um_catch_up :: "rlc_um_rx \<Rightarrow> (rlc_um_rx \<times> um_out list) option" where
  "um_catch_up e =
     (if um_inside_reordering_window e (u16_of (vr_ur e)) then Some (e, [])
      else do {
        (e, out) \<leftarrow> (case map_of (rx_window e) (vr_ur e) of
            None \<Rightarrow> Some (e\<lparr>rx_sdu := Some []\<rparr>, [])
          | Some pdu \<Rightarrow>
              map_option (\<lambda>(e, out). (e\<lparr>rx_window := um_window_erase (vr_ur e) (rx_window e)\<rparr>, out)) (um_lower_pdu pdu e));
        (e, out') \<leftarrow> um_catch_up (um_next_vr_ur e);
        Some (e, out @ out')
      })"

declare um_catch_up.simps [code]

text \<open>The loop over the length indicators in the second loop. \<open>False\<close> is the jump to \<open>clean_up_rx_window\<close>.\<close>

fun um_segments ::
    "u8 \<Rightarrow> nat \<Rightarrow> u16 list \<Rightarrow> u8 list \<Rightarrow> rlc_um_rx \<Rightarrow> (bool \<times> u8 list \<times> rlc_um_rx \<times> um_out list) option" where
  "um_segments fi i [] buf e = Some (True, buf, e, [])"
| "um_segments fi i (len # lis) buf e =
     (if um_sdu e = [] \<and> i = 0 \<and> \<not> rlc_um_start_aligned fi
      then if length buf < unat len then Some (False, buf, e, [])
           else um_segments fi (i + 1) lis (drop (unat len) buf) (e\<lparr>rx_sdu := Some [], pdu_lost := False\<rparr>)
      else if unat len > ROOM - length (um_sdu e) then Some (False, buf, e\<lparr>rx_sdu := Some []\<rparr>, [])
      else do {
        (seg, buf) \<leftarrow> um_split (unat len) buf;
        e \<leftarrow> um_append seg e;
        let e = e\<lparr>vr_ur_in_rx_sdu := vr_ur e\<rparr>;
        let (e, buf, out) = (if um_pdu_belongs_to_rx_sdu e then case um_deliver e of (e, out) \<Rightarrow> (e, buf, out)
                             else (e, drop (unat len) buf, []));
        let e = e\<lparr>pdu_lost := False\<rparr>;
        (ok, buf, e, out') \<leftarrow> um_segments fi (i + 1) lis buf e;
        Some (ok, buf, e, out @ out')
      })"

definition um_last_segment :: "rlc_umd_pdu_header_t \<Rightarrow> u8 list \<Rightarrow> rlc_um_rx \<Rightarrow> (rlc_um_rx \<times> um_out list) option" where
  "um_last_segment header buf e =
     (if um_sdu e = [] \<and> umd_li header = [] \<and> \<not> rlc_um_start_aligned (umd_fi header)
      then Some (e\<lparr>rx_sdu := Some []\<rparr>, [])
      else do {
        e \<leftarrow> (if length (um_sdu e) < nat SRSLTE_MAX_BUFFER_SIZE_BYTES \<and> length buf < nat SRSLTE_MAX_BUFFER_SIZE_BYTES \<and>
                 length buf + length (um_sdu e) < nat SRSLTE_MAX_BUFFER_SIZE_BYTES
              then um_append buf e else Some e);
        Some (um_end_of_pdu (umd_fi header) (e\<lparr>vr_ur_in_rx_sdu := vr_ur e\<rparr>))
      })"

definition um_reassemble_pdu :: "rlc_umd_pdu_t \<Rightarrow> rlc_um_rx \<Rightarrow> (rlc_um_rx \<times> um_out list) option" where
  "um_reassemble_pdu = (\<lambda>(header, buf) e. do {
     let e = (if \<not> um_pdu_belongs_to_rx_sdu e then e\<lparr>pdu_lost := False, rx_sdu := Some []\<rparr> else e);
     (ok, buf, e, out) \<leftarrow> um_segments (umd_fi header) 0 (umd_li header) buf e;
     if ok then map_option (\<lambda>(e, out'). (e, out @ out')) (um_last_segment header buf e) else Some (e, out)
   })"

text \<open>Second loop: the PDUs that follow without a gap. Each round takes one out of the window.\<close>

partial_function (option) um_in_sequence :: "rlc_um_rx \<Rightarrow> (rlc_um_rx \<times> um_out list) option" where
  "um_in_sequence e =
     (case map_of (rx_window e) (vr_ur e) of
        None \<Rightarrow> Some (e, [])
      | Some pdu \<Rightarrow> do {
          (e, out) \<leftarrow> um_reassemble_pdu pdu e;
          (e, out') \<leftarrow> um_in_sequence (um_next_vr_ur (e\<lparr>rx_window := um_window_erase (vr_ur e) (rx_window e)\<rparr>));
          Some (e, out @ out')
        })"

declare um_in_sequence.simps [code]

definition um_reassemble_rx_sdus :: "rlc_um_rx \<Rightarrow> (rlc_um_rx \<times> um_out list) option" where
  "um_reassemble_rx_sdus e =
     do {
       let e = (if rx_sdu e = None then e\<lparr>rx_sdu := Some []\<rparr> else e);
       (e, out) \<leftarrow> um_catch_up e;
       (e, out') \<leftarrow> um_in_sequence e;
       Some (e, out @ out')
     }"

section \<open>Receiving a PDU\<close>

text \<open>The PDU without its header goes to the window, in a buffer of its own.\<close>

definition um_store_pdu :: "rlc_umd_pdu_header_t \<Rightarrow> u8 list \<Rightarrow> rlc_um_rx \<Rightarrow> rlc_um_rx option" where
  "um_store_pdu header payload e =
     (if length payload > ROOM then None
      else
        let e = e\<lparr>rx_window := (u32_of (umd_sn header), (header, drop (rlc_um_packed_length header) payload)) # rx_window e\<rparr>
        in Some (if \<not> um_inside_reordering_window e (umd_sn header)
                 then e\<lparr>vr_uh := (u32_of (umd_sn header) + 1) mod um_rx_mod (rx_cfg e)\<rparr> else e))"

definition um_update_timer :: "nat \<Rightarrow> um_rx_state \<Rightarrow> um_rx_state" where
  "um_update_timer i = (\<lambda>(h, e).
     let h = (if is_running (impl h i) \<and>
                 (RX_MOD_BASE e (vr_ux e) \<le> RX_MOD_BASE e (vr_ur e) \<or>
                  \<not> um_inside_reordering_window e (u16_of (vr_ux e)) \<and> vr_ux e \<noteq> vr_uh e)
              then timer_stop i h else h)
     in if \<not> is_running (impl h i) \<and> RX_MOD_BASE e (vr_uh e) > RX_MOD_BASE e (vr_ur e)
        then (timer_run_op i h, e\<lparr>vr_ux := vr_uh e\<rparr>) else (h, e))"

definition um_handle_data_pdu :: "u8 list \<Rightarrow> um_rx_state \<Rightarrow> (um_rx_state \<times> um_out list) option" where
  "um_handle_data_pdu payload = (\<lambda>(h, e). do {
     header \<leftarrow> rlc_um_read_data_pdu_header payload (um_rx_sn_field_length (rx_cfg e));
     let sn = u32_of (umd_sn header);
     if RX_MOD_BASE e sn \<ge> RX_MOD_BASE e (vr_uh e - um_rx_window_size (rx_cfg e)) \<and> RX_MOD_BASE e sn < RX_MOD_BASE e (vr_ur e)
     then Some ((h, e), [])
     else if map_of (rx_window e) sn \<noteq> None then Some ((h, e), [])
     else do {
       e \<leftarrow> um_store_pdu header payload e;
       (e, out) \<leftarrow> um_reassemble_rx_sdus e;
       i \<leftarrow> um_reordering_timer e;
       Some (um_update_timer i (h, e), out)
     }
   })"

section \<open>Expiry of t-Reordering\<close>

partial_function (option) um_skip_to_ux :: "rlc_um_rx \<Rightarrow> (rlc_um_rx \<times> um_out list) option" where
  "um_skip_to_ux e =
     (if RX_MOD_BASE e (vr_ur e) < RX_MOD_BASE e (vr_ux e)
      then do {
        (e, out) \<leftarrow> um_reassemble_rx_sdus (um_next_vr_ur e);
        (e, out') \<leftarrow> um_skip_to_ux e;
        Some (e, out @ out')
      }
      else Some (e, []))"

declare um_skip_to_ux.simps [code]

definition um_rx_timer_expired :: "u32 \<Rightarrow> um_rx_state \<Rightarrow> (um_rx_state \<times> um_out list) option" where
  "um_rx_timer_expired timeout_id = (\<lambda>(h, e).
     case um_reordering_timer e of
       None \<Rightarrow> None
     | Some i \<Rightarrow>
         if of_nat i = timeout_id
         then do {
           let e = e\<lparr>pdu_lost := True, rx_sdu := map_option (\<lambda>_. []) (rx_sdu e)\<rparr>;
           (e, out) \<leftarrow> um_skip_to_ux e;
           Some (if RX_MOD_BASE e (vr_uh e) > RX_MOD_BASE e (vr_ur e)
                 then ((timer_run_op i h, e\<lparr>vr_ux := vr_uh e\<rparr>), out) else ((h, e), out))
         }
         else Some ((h, e), []))"

definition um_rx_reestablish :: "um_rx_state \<Rightarrow> (um_rx_state \<times> um_out list) option" where
  "um_rx_reestablish = (\<lambda>(h, e).
     do {
       ((h, e), out) \<leftarrow> (case um_reordering_timer e of
           None \<Rightarrow> Some ((h, e), [])
         | Some i \<Rightarrow> if is_running (impl h i) then um_rx_timer_expired (of_nat i) (timer_stop i h, e) else Some ((h, e), []));
       Some ((h, um_rx_reset e), out)
     })"

section \<open>Reassembling the segments of a transmitter\<close>

text \<open>A PDU as start aligned, end aligned and its segments; joining it to the beginning \<open>p\<close> of an SDU.\<close>

type_synonym um_frame = "bool \<times> bool \<times> u8 list list"

fun um_glue :: "'a list \<Rightarrow> 'a list list \<Rightarrow> 'a list list" where
  "um_glue p [] = []"
| "um_glue p (x # xs) = (p @ x) # xs"

lemma um_glue_Nil [simp]: "um_glue [] xs = xs"
  by (cases xs) simp_all

definition um_join :: "u8 list \<Rightarrow> um_frame \<Rightarrow> u8 list \<times> u8 list list" where
  "um_join p = (\<lambda>(st, en, segs).
     let all = (p @ hd segs) # tl segs in if en then ([], all) else (last all, butlast all))"

definition um_frame_ok :: "u8 list \<Rightarrow> um_frame \<Rightarrow> bool" where
  "um_frame_ok p = (\<lambda>(st, en, segs).
     segs \<noteq> [] \<and> (\<forall>s \<in> set segs. s \<noteq> [] \<and> length s < 2 ^ 11) \<and> length segs \<le> 513 \<and> (st \<longleftrightarrow> p = []) \<and>
     length p < 2 ^ 11)"

abbreviation um_pdu_out :: "rlc_um_rx \<Rightarrow> u8 list \<Rightarrow> um_out" where
  "um_pdu_out e s \<equiv> (if um_is_mrb (rx_cfg e) then Pdcp_write_pdu_mch else Pdcp_write_pdu) (rx_lcid e) s"

lemma um_sdu_simps [simp]:
  "rx_sdu e = Some p \<Longrightarrow> um_sdu e = p" "um_sdu (e\<lparr>rx_sdu := Some p\<rparr>) = p" "um_sdu (e\<lparr>vr_ur_in_rx_sdu := x\<rparr>) = um_sdu e"
  "um_sdu (e\<lparr>pdu_lost := b\<rparr>) = um_sdu e" "um_sdu (e\<lparr>vr_ur := x\<rparr>) = um_sdu e" "um_sdu (e\<lparr>rx_window := w\<rparr>) = um_sdu e"
  "um_sdu (e\<lparr>vr_uh := x\<rparr>) = um_sdu e"
  by (simp_all add: um_sdu_def)

text \<open>The beginning of an SDU is in the buffer, and nothing was lost.\<close>

abbreviation um_holding :: "u8 list \<Rightarrow> rlc_um_rx \<Rightarrow> rlc_um_rx" where
  "um_holding p e \<equiv> e\<lparr>vr_ur_in_rx_sdu := vr_ur e, rx_sdu := Some p, pdu_lost := False\<rparr>"

lemma um_segments:
  assumes "\<forall>s \<in> set ss. s \<noteq> [] \<and> length s < 2 ^ 11" "0 < i \<or> (rlc_um_start_aligned fi \<longleftrightarrow> um_sdu e = [])"
    "\<not> pdu_lost e" "length (um_sdu e) < 2 ^ 11"
  shows "um_segments fi i (map (\<lambda>s. of_nat (length s)) ss) (concat ss @ t) e =
    Some (True, t, if ss = [] then e else um_holding [] e, map (um_pdu_out e) (um_glue (um_sdu e) ss))"
  using assms
proof (induction ss arbitrary: i e)
  case (Cons x xs)
  have x: "unat (of_nat (length x) :: u16) = length x" "x \<noteq> []" using Cons.prems(1) by (simp_all add: unat_of_nat)
  have nc: "\<not> (um_sdu e = [] \<and> i = 0 \<and> \<not> rlc_um_start_aligned fi)" using Cons.prems(2) by auto
  have l: "length (um_sdu e) + length x \<le> 12237" "length x \<le> 12237 - length (um_sdu e)" using Cons.prems(1,4) by auto
  have IH: "um_segments fi (Suc i) (map (\<lambda>s. of_nat (length s)) xs) (concat xs @ t) (um_holding [] e) =
      Some (True, t, um_holding [] e, map (um_pdu_out e) xs)"
    using Cons.IH [of "Suc i" "um_holding [] e"] Cons.prems(1,4) by simp
  show ?case
    using IH nc l x by (auto simp: um_split_def um_append_def um_deliver_def um_pdu_belongs_to_rx_sdu_def)
qed simp

lemma um_last_segment:
  assumes "um_sdu e \<noteq> [] \<or> umd_li h \<noteq> [] \<or> rlc_um_start_aligned (umd_fi h)" "\<not> pdu_lost e"
    "length (um_sdu e) + length t \<le> ROOM"
  shows "um_last_segment h t e = Some (if rlc_um_end_aligned (umd_fi h) then (um_holding [] e, [um_pdu_out e (um_sdu e @ t)])
    else (um_holding (um_sdu e @ t) e, []))"
proof -
  have keep: "e\<lparr>vr_ur_in_rx_sdu := x, rx_sdu := y\<rparr> = e\<lparr>vr_ur_in_rx_sdu := x, rx_sdu := y, pdu_lost := False\<rparr>" for x y
    using assms(2) by (cases e) simp
  show ?thesis
    using assms keep by (auto simp: um_last_segment_def um_append_def um_end_of_pdu_def um_deliver_def buffer_size_defs)
qed

lemma um_reassemble_frame:
  assumes "um_frame_ok p (st, en, segs)" "rx_sdu e = Some p" "\<not> pdu_lost e" "um_pdu_belongs_to_rx_sdu e"
    "um_join p (st, en, segs) = (p', out)"
  shows "um_reassemble_pdu (um_header_of sz sn st en segs, concat segs) e = Some (um_holding p' e, map (um_pdu_out e) out)"
proof -
  obtain ss t where segs: "segs = ss @ [t]" using assms(1) by (cases segs rule: rev_cases) (auto simp: um_frame_ok_def)
  have f: "\<forall>s \<in> set ss. s \<noteq> [] \<and> length s < 2 ^ 11" "st \<longleftrightarrow> p = []" "length p < 2 ^ 11" "length t < 2 ^ 11"
    using assms(1) by (auto simp: um_frame_ok_def segs)
  let ?e = "if ss = [] then e else um_holding [] e" and ?h = "um_header_of sz sn st en segs"
  have h: "umd_fi ?h = um_fi st en" "umd_li ?h = map (\<lambda>s. of_nat (length s)) ss" by (simp_all add: um_header_of_def segs)
  have seg: "um_segments (um_fi st en) 0 (map (\<lambda>s. of_nat (length s)) ss) (concat ss @ t) e =
      Some (True, t, ?e, map (um_pdu_out e) (um_glue p ss))"
    using um_segments [OF f(1), of 0 "um_fi st en" e t] assms(2,3) f(2,3) by simp
  have e: "um_sdu ?e = (if ss = [] then p else [])" "um_holding r ?e = um_holding r e" "um_pdu_out ?e = um_pdu_out e" for r
    using assms(2) by (simp_all add: fun_eq_iff)
  have "um_last_segment ?h t ?e = Some (
      if en then (um_holding [] e, [um_pdu_out e ((if ss = [] then p else []) @ t)])
      else (um_holding ((if ss = [] then p else []) @ t) e, []))"
    using um_last_segment [of ?e ?h t] assms(3) f(2-4) unfolding h e by (auto split: if_splits)
  moreover have "um_join p (st, en, segs) = (if en then ([], um_glue p ss @ [(if ss = [] then p else []) @ t])
       else ((if ss = [] then p else []) @ t, um_glue p ss))"
    by (cases ss) (simp_all add: um_join_def segs)
  ultimately show ?thesis
    using seg assms(4,5) h by (auto simp: um_reassemble_pdu_def segs)
qed

end
