(* ===== verification/Rlc_Um_Window.thy ===== *)
theory Rlc_Um_Window
  imports Rlc_Um_Rx
begin

text \<open>
  The receive window of RLC UM: what \<open>handle_data_pdu\<close> (\<open>lib/src/upper/rlc_um_lte.cc\<close>) does with the PDUs of one round, at
  most a window of them, arriving in any order and any number of times. The PDUs are numbered from the sequence number at
  which the round starts; \<open>um_round\<close> is the invariant that relates the state of the receiver to the set of PDUs that have
  arrived.
\<close>

section \<open>Window arithmetic\<close>

definition um_cfg_ok :: "rlc_um_config_t \<Rightarrow> bool" where
  "um_cfg_ok cfg \<longleftrightarrow>
     um_rx_sn_field_length cfg = umd_size5bits \<and> um_rx_window_size cfg = 16 \<and> um_rx_mod cfg = 32 \<or>
     um_rx_sn_field_length cfg = umd_size10bits \<and> um_rx_window_size cfg = 512 \<and> um_rx_mod cfg = 1024"

abbreviation um_W :: "rlc_um_rx \<Rightarrow> nat" where "um_W e \<equiv> unat (um_rx_window_size (rx_cfg e))"
abbreviation um_M :: "rlc_um_rx \<Rightarrow> nat" where "um_M e \<equiv> unat (um_rx_mod (rx_cfg e))"

text \<open>Sequence number \<open>k\<close> modulo the modulus of the bearer.\<close>

definition um_sn :: "rlc_um_rx \<Rightarrow> nat \<Rightarrow> u32" where
  "um_sn e k = of_nat (k mod um_M e)"

lemma um_cfg_numbers:
  assumes "um_cfg_ok (rx_cfg e)"
  shows "um_M e = 2 * um_W e" "0 < um_W e" "um_W e \<le> 512" "um_rx_window_size (rx_cfg e) \<noteq> 0"
    "um_M e = (if um_rx_sn_field_length (rx_cfg e) = umd_size5bits then 2 ^ 5 else 2 ^ 10)" "um_M e dvd 2 ^ 32"
    "um_rx_sn_field_length (rx_cfg e) \<noteq> umd_nulltype"
  using assms by (auto simp: um_cfg_ok_def)

lemma unat_um_sn:
  assumes "um_cfg_ok (rx_cfg e)"
  shows "unat (um_sn e k) = k mod um_M e" "unat (um_sn e k) < um_M e"
proof -
  have m: "0 < um_M e" "um_M e \<le> 1024" using um_cfg_numbers [OF assms] by auto
  then have "k mod um_M e < 1024" by (metis mod_less_divisor less_le_trans)
  then have "k mod um_M e < 2 ^ 32" by simp
  then have "unat (of_nat (k mod um_M e) :: u32) = k mod um_M e" by (simp only: unat_of_nat_u32)
  then show "unat (um_sn e k) = k mod um_M e" "unat (um_sn e k) < um_M e" using m(1) by (simp_all add: um_sn_def)
qed

lemma um_sn_u16:
  assumes "um_cfg_ok (rx_cfg e)"
  shows "u32_of (u16_of (um_sn e k)) = um_sn e k" "unat (u16_of (um_sn e k)) = unat (um_sn e k)"
proof -
  have "unat (um_sn e k) < 1024" using unat_um_sn(2) [OF assms, of k] um_cfg_numbers(1,3) [OF assms] by linarith
  then have "unat (um_sn e k) < 2 ^ 16" by simp
  then show "unat (u16_of (um_sn e k)) = unat (um_sn e k)" by (rule unat_u16_of)
  then show "u32_of (u16_of (um_sn e k)) = um_sn e k" by (simp add: word_unat_eq_iff unat_u32_of_u16)
qed

lemma um_sn_eq_iff:
  assumes "um_cfg_ok (rx_cfg e)" "j < k + um_M e" "k < j + um_M e"
  shows "um_sn e (s + j) = um_sn e (s + k) \<longleftrightarrow> j = k"
proof
  assume "um_sn e (s + j) = um_sn e (s + k)"
  then have eq: "(s + j) mod um_M e = (s + k) mod um_M e" using unat_um_sn(1) [OF assms(1)] by metis
  have m: "a = b" if "a \<le> b" "b < a + m" "a mod m = b mod m" for a b m :: nat
  proof -
    have "m dvd b - a" using that(1,3) by (metis mod_eq_dvd_iff_nat)
    then show ?thesis using that(1,2) by (cases "a = b") (auto dest: dvd_imp_le)
  qed
  show "j = k"
  proof (cases "j \<le> k")
    case True
    then show ?thesis using m [of "s + j" "s + k" "um_M e"] eq assms(3) by simp
  next
    case False
    then show ?thesis using m [of "s + k" "s + j" "um_M e"] eq assms(2) by simp
  qed
qed simp

lemma um_sn_Suc:
  assumes "um_cfg_ok (rx_cfg e)"
  shows "(um_sn e k + 1) mod um_rx_mod (rx_cfg e) = um_sn e (Suc k)"
proof -
  have "unat (um_sn e k + 1) = unat (um_sn e k) + 1"
    using unat_um_sn(2) [OF assms, of k] um_cfg_numbers [OF assms] by (simp add: unat_word_ariths)
  then show ?thesis
    using unat_um_sn(1) [OF assms] by (simp add: word_unat_eq_iff unat_mod_distrib mod_Suc_eq)
qed

lemma window_mod:
  fixes s j h W :: int
  assumes "j < h + W" "h \<le> j + W"
  shows "((s + j) mod (2 * W) - (s + h) mod (2 * W) - W) mod (2 * W) = j + W - h"
proof -
  have "((s + j) mod (2 * W) - (s + h) mod (2 * W) - W) mod (2 * W) = ((s + j) - (s + h) - W) mod (2 * W)"
    by (metis mod_diff_eq mod_diff_left_eq)
  also have "(s + j) - (s + h) - W = j + W - h - 2 * W" by simp
  also have "(j + W - h - 2 * W) mod (2 * W) = (j + W - h) mod (2 * W)" by (rule minus_mod_self2)
  also have "\<dots> = j + W - h" using assms by simp
  finally show ?thesis .
qed

text \<open>The position of a sequence number relative to the window below \<open>h\<close>.\<close>

lemma RX_MOD_BASE_sn:
  assumes "um_cfg_ok (rx_cfg e)" "vr_uh e = um_sn e (s + h)" "j < h + um_W e" "h \<le> j + um_W e"
  shows "unat (RX_MOD_BASE e (um_sn e (s + j))) = j + um_W e - h"
proof -
  note m = um_cfg_numbers [OF assms(1)]
  let ?W = "int (um_W e)"
  have u: "uint (um_sn e k) = int k mod (2 * ?W)" for k
    unfolding uint_nat unat_um_sn(1) [OF assms(1), of k] m(1) by (simp add: zmod_int)
  have uM: "uint (um_rx_mod (rx_cfg e)) = 2 * ?W" unfolding uint_nat m(1) by simp
  have uW: "uint (um_rx_window_size (rx_cfg e)) = ?W" by (rule uint_nat)
  have d: "(2 * ?W) dvd 2 ^ 32"
  proof -
    have "int (um_M e) dvd int (2 ^ 32)" using m(6) by (simp only: int_dvd_int_iff)
    then show ?thesis unfolding m(1) by simp
  qed
  have "uint (RX_MOD_BASE e (um_sn e (s + j))) = uint (um_sn e (s + j) - um_sn e (s + h) - um_rx_window_size (rx_cfg e)) mod (2 * ?W)"
    unfolding RX_MOD_BASE_def assms(2) uint_mod_distrib uM ..
  also have "uint (um_sn e (s + j) - um_sn e (s + h) - um_rx_window_size (rx_cfg e)) =
      (int (s + j) mod (2 * ?W) - int (s + h) mod (2 * ?W) - ?W) mod 2 ^ 32"
    unfolding uint_word_ariths(2) u uW by (simp add: mod_simps)
  also have "\<dots> mod (2 * ?W) = (int (s + j) mod (2 * ?W) - int (s + h) mod (2 * ?W) - ?W) mod (2 * ?W)"
    by (rule mod_mod_cancel [OF d])
  also have "\<dots> = int j + ?W - int h"
    unfolding of_nat_add by (rule window_mod) (use assms(3,4) in linarith)+
  finally show ?thesis using assms(4) uint_nat [of "RX_MOD_BASE e (um_sn e (s + j))"] by linarith
qed

lemma RX_MOD_BASE_edges:
  assumes "um_cfg_ok (rx_cfg e)" "vr_uh e = um_sn e (s + h)"
  shows "RX_MOD_BASE e (vr_uh e - um_rx_window_size (rx_cfg e)) = 0"
    "unat (RX_MOD_BASE e (vr_uh e)) = um_W e"
proof -
  show "RX_MOD_BASE e (vr_uh e - um_rx_window_size (rx_cfg e)) = 0"
  proof -
    have "x - 16 - x - 16 = (0xFFFFFFE0 :: u32)" "x - 512 - x - 512 = (0xFFFFFC00 :: u32)" for x :: u32 by simp_all
    then show ?thesis using assms(1) by (auto simp: RX_MOD_BASE_def um_cfg_ok_def simp del: diff_diff_eq)
  qed
  show "unat (RX_MOD_BASE e (vr_uh e)) = um_W e"
    using RX_MOD_BASE_sn [OF assms, of h] um_cfg_numbers [OF assms(1)] by (simp add: assms(2))
qed

lemma um_inside_sn:
  assumes "um_cfg_ok (rx_cfg e)" "vr_uh e = um_sn e (s + h)" "j < h + um_W e" "h \<le> j + um_W e" "rx_window e \<noteq> []"
  shows "um_inside_reordering_window e (u16_of (um_sn e (s + j))) \<longleftrightarrow> j < h"
  using RX_MOD_BASE_sn [OF assms(1-4)] RX_MOD_BASE_edges [OF assms(1,2)] um_cfg_numbers [OF assms(1)] assms(3-5) um_sn_u16(1) [OF assms(1)]
  by (simp add: um_inside_reordering_window_def word_less_nat_alt) linarith

section \<open>A sequence of PDUs\<close>

fun um_join_all :: "u8 list \<Rightarrow> um_frame list \<Rightarrow> u8 list \<times> u8 list list" where
  "um_join_all p [] = (p, [])"
| "um_join_all p (f # fs) =
     (let (p', out) = um_join p f; (p'', out') = um_join_all p' fs in (p'', out @ out'))"

fun um_chain :: "u8 list \<Rightarrow> um_frame list \<Rightarrow> bool" where
  "um_chain p [] \<longleftrightarrow> True"
| "um_chain p (f # fs) \<longleftrightarrow> um_frame_ok p f \<and> um_chain (fst (um_join p f)) fs"

lemma um_join_all_snoc:
  "um_join_all p (fs @ [f]) =
     (fst (um_join (fst (um_join_all p fs)) f), snd (um_join_all p fs) @ snd (um_join (fst (um_join_all p fs)) f))"
  by (induction fs arbitrary: p) (simp_all add: case_prod_beta Let_def)

lemma um_chain_nth:
  "um_chain p fs \<Longrightarrow> k < length fs \<Longrightarrow> um_frame_ok (fst (um_join_all p (take k fs))) (fs ! k)"
  by (induction fs arbitrary: p k) (auto simp: take_Cons' nth_Cons' case_prod_beta Let_def)

lemma um_join_all_take_Suc:
  assumes "k < length fs" "um_join (fst (um_join_all p (take k fs))) (fs ! k) = (p', out)"
  shows "um_join_all p (take (Suc k) fs) = (p', snd (um_join_all p (take k fs)) @ out)"
  using assms by (simp add: take_Suc_conv_app_nth um_join_all_snoc)

section \<open>The invariant of a round\<close>

text \<open>What the window holds for PDU \<open>k\<close> of a round that starts at \<open>s\<close>.\<close>

definition um_window_pdu :: "rlc_um_rx \<Rightarrow> nat \<Rightarrow> um_frame \<Rightarrow> rlc_umd_pdu_t" where
  "um_window_pdu e k = (\<lambda>(st, en, segs).
     (um_header_of (um_rx_sn_field_length (rx_cfg e)) (u16_of (um_sn e k)) st en segs, concat segs))"

text \<open>The PDUs of \<open>A\<close> have arrived, those below \<open>u\<close> are reassembled, \<open>h\<close> follows the highest one.\<close>

definition um_round :: "nat \<Rightarrow> um_frame list \<Rightarrow> u8 list \<Rightarrow> nat set \<Rightarrow> nat \<Rightarrow> nat \<Rightarrow> rlc_um_rx \<Rightarrow> bool" where
  "um_round s fs p A u h e \<longleftrightarrow>
     vr_ur e = um_sn e (s + u) \<and> vr_uh e = um_sn e (s + h) \<and> {..<u} \<subseteq> A \<and> A \<subseteq> {..<h} \<and> u \<le> h \<and> h \<le> length fs \<and>
     fst ` set (rx_window e) = (\<lambda>j. um_sn e (s + j)) ` {j \<in> A. u \<le> j} \<and>
     (\<forall>j \<in> A. u \<le> j \<longrightarrow> map_of (rx_window e) (um_sn e (s + j)) = Some (um_window_pdu e (s + j) (fs ! j))) \<and>
     \<not> pdu_lost e \<and> um_pdu_belongs_to_rx_sdu e \<and> um_sdu e = fst (um_join_all p (take u fs))"

lemma map_of_erase: "map_of (um_window_erase k w) j = (if j = k then None else map_of w j)"
  by (induction w) (auto simp: um_window_erase_def)

lemma fst_erase: "fst ` set (um_window_erase k w) = fst ` set w - {k}"
  by (induction w) (auto simp: um_window_erase_def)

lemma um_sn_cfg: "rx_cfg e' = rx_cfg e \<Longrightarrow> um_sn e' = um_sn e"
  by (simp add: um_sn_def fun_eq_iff)

lemma um_window_pdu_cfg: "rx_cfg e' = rx_cfg e \<Longrightarrow> um_window_pdu e' = um_window_pdu e"
  by (simp add: um_window_pdu_def um_sn_def fun_eq_iff)

lemma um_round_key:
  assumes "um_cfg_ok (rx_cfg e)" "um_round s fs p A u h e" "length fs \<le> um_W e" "j < length fs + um_W e"
  shows "um_sn e (s + j) \<in> fst ` set (rx_window e) \<longleftrightarrow> j \<in> A \<and> u \<le> j"
proof -
  note m = um_cfg_numbers(1,2) [OF assms(1)]
  have "um_sn e (s + j) = um_sn e (s + k) \<longleftrightarrow> j = k" if "k \<in> A" for k
  proof -
    have "k < length fs" using assms(2) that by (auto simp: um_round_def)
    then show ?thesis using um_sn_eq_iff [OF assms(1), of j k s] assms(3,4) m by simp
  qed
  then show ?thesis using assms(2) by (auto simp: um_round_def)
qed

text \<open>One round of the loop: the next PDU is there.\<close>

lemma um_round_next:
  assumes "um_cfg_ok (rx_cfg e)" "um_round s fs p A u h e" "length fs \<le> um_W e" "um_chain p fs" "u \<in> A" "rx_sdu e \<noteq> None"
    "um_join (um_sdu e) (fs ! u) = (p', out)"
  defines "e1 \<equiv> um_holding p' e"
  defines "e2 \<equiv> um_next_vr_ur (e1\<lparr>rx_window := um_window_erase (vr_ur e1) (rx_window e1)\<rparr>)"
  shows "map_of (rx_window e) (vr_ur e) = Some (um_window_pdu e (s + u) (fs ! u))"
    "um_reassemble_pdu (um_window_pdu e (s + u) (fs ! u)) e = Some (e1, map (um_pdu_out e) out)"
    "um_round s fs p A (Suc u) h e2" "snd (um_join_all p (take (Suc u) fs)) = snd (um_join_all p (take u fs)) @ out"
proof -
  note r = assms(2) [unfolded um_round_def]
  have u: "u < h" "u < length fs" using r assms(5) by auto
  obtain st en segs where f: "fs ! u = (st, en, segs)" by (cases "fs ! u") auto
  have sdu: "rx_sdu e = Some (um_sdu e)" using assms(6) by (auto simp: um_sdu_def)
  show "map_of (rx_window e) (vr_ur e) = Some (um_window_pdu e (s + u) (fs ! u))" using r assms(5) by auto
  have "um_frame_ok (um_sdu e) (fs ! u)" using um_chain_nth [OF assms(4) u(2)] r by simp
  then show "um_reassemble_pdu (um_window_pdu e (s + u) (fs ! u)) e = Some (e1, map (um_pdu_out e) out)"
    using um_reassemble_frame [OF _ sdu] r assms(7) unfolding f um_window_pdu_def e1_def by simp
  have join: "um_join_all p (take (Suc u) fs) = (p', snd (um_join_all p (take u fs)) @ out)"
    using um_join_all_take_Suc [OF u(2)] r assms(7) by simp
  then show "snd (um_join_all p (take (Suc u) fs)) = snd (um_join_all p (take u fs)) @ out" by simp
  have e2: "rx_cfg e2 = rx_cfg e" "vr_ur e2 = um_sn e (s + Suc u)" "vr_uh e2 = vr_uh e" "\<not> pdu_lost e2"
    "rx_window e2 = um_window_erase (um_sn e (s + u)) (rx_window e)" "um_sdu e2 = p'" "um_pdu_belongs_to_rx_sdu e2"
    using r um_sn_Suc [OF assms(1), of "s + u"]
    by (simp_all add: e2_def e1_def um_next_vr_ur_def um_pdu_belongs_to_rx_sdu_def)
  have inj: "um_sn e (s + j) = um_sn e (s + u) \<longleftrightarrow> j = u" if "j \<in> A" for j
  proof -
    have "j < length fs" using r that by auto
    then show ?thesis using um_sn_eq_iff [OF assms(1), of j u s] assms(3) u um_cfg_numbers(1,2) [OF assms(1)] by simp
  qed
  have keys: "fst ` set (rx_window e2) = (\<lambda>j. um_sn e (s + j)) ` {j \<in> A. Suc u \<le> j}"
  proof -
    have "fst ` set (rx_window e2) = (\<lambda>j. um_sn e (s + j)) ` {j \<in> A. u \<le> j} - {um_sn e (s + u)}" using r by (simp add: e2 fst_erase)
    also have "\<dots> = (\<lambda>j. um_sn e (s + j)) ` {j \<in> A. Suc u \<le> j}"
      using inj by (auto simp: image_iff)
    finally show ?thesis .
  qed
  have "map_of (rx_window e2) (um_sn e (s + j)) = Some (um_window_pdu e (s + j) (fs ! j))" if "j \<in> A" "Suc u \<le> j" for j
    using inj [OF that(1)] r that by (simp add: e2 map_of_erase)
  then show "um_round s fs p A (Suc u) h e2"
    unfolding um_round_def um_sn_cfg [OF e2(1)] um_window_pdu_cfg [OF e2(1)]
    using r u e2 keys join assms(5) by (auto simp: lessThan_Suc)
qed

text \<open>What reassembly leaves alone.\<close>

abbreviation um_const :: "rlc_um_rx \<Rightarrow> rlc_um_config_t \<times> u32 \<times> unique_timer \<times> u32" where
  "um_const e \<equiv> (rx_cfg e, rx_lcid e, um_reordering_timer e, vr_ux e)"

lemma um_in_sequence_round:
  assumes "um_cfg_ok (rx_cfg e)" "um_round s fs p A u h e" "length fs \<le> um_W e" "um_chain p fs" "rx_sdu e \<noteq> None"
  shows "\<exists>u' e' out. um_in_sequence e = Some (e', map (um_pdu_out e) out) \<and> um_round s fs p A u' h e' \<and> u' \<notin> A \<and>
    snd (um_join_all p (take u' fs)) = snd (um_join_all p (take u fs)) @ out \<and> um_const e' = um_const e \<and> rx_sdu e' \<noteq> None"
  using assms
proof (induction "h - u" arbitrary: u e rule: less_induct)
  case less
  show ?case
  proof (cases "u \<in> A")
    case False
    have "u \<le> length fs" using less.prems(2) by (auto simp: um_round_def)
    then have "um_sn e (s + u) \<notin> fst ` set (rx_window e)"
      using um_round_key [OF less.prems(1,2,3), of u] um_cfg_numbers(2) [OF less.prems(1)] False by simp
    then have "map_of (rx_window e) (vr_ur e) = None" using less.prems(2) by (simp add: um_round_def map_of_eq_None_iff)
    then show ?thesis using less.prems False
      by (intro exI [of _ u] exI [of _ e] exI [of _ "[]"]) (simp add: um_in_sequence.simps)
  next
    case True
    obtain p' out1 where j: "um_join (um_sdu e) (fs ! u) = (p', out1)" by fastforce
    let ?e1 = "um_holding p' e"
    let ?e2 = "um_next_vr_ur (?e1\<lparr>rx_window := um_window_erase (vr_ur ?e1) (rx_window ?e1)\<rparr>)"
    note n = um_round_next [OF less.prems(1-4) True less.prems(5) j]
    have c: "um_const ?e2 = um_const e" "rx_sdu ?e2 \<noteq> None" by (simp_all add: um_next_vr_ur_def)
    have "h - Suc u < h - u" using less.prems(2) True by (auto simp: um_round_def)
    from less.hyps [OF this, of ?e2] n(3) less.prems(1,3,4) c obtain u' e' out2 where
      r: "um_in_sequence ?e2 = Some (e', map (um_pdu_out ?e2) out2)" "um_round s fs p A u' h e'" "u' \<notin> A"
        "snd (um_join_all p (take u' fs)) = snd (um_join_all p (take (Suc u) fs)) @ out2" "um_const e' = um_const ?e2" "rx_sdu e' \<noteq> None"
      by auto
    have "um_in_sequence e = Some (e', map (um_pdu_out e) (out1 @ out2))"
      using n(1,2) r(1) c(1) by (subst um_in_sequence.simps) simp
    then show ?thesis using r(2-6) n(4) c(1) by (intro exI [of _ u'] exI [of _ e'] exI [of _ "out1 @ out2"]) simp
  qed
qed

lemma um_round_cong:
  "vr_ur e' = vr_ur e \<Longrightarrow> vr_uh e' = vr_uh e \<Longrightarrow> rx_window e' = rx_window e \<Longrightarrow> pdu_lost e' = pdu_lost e \<Longrightarrow>
   vr_ur_in_rx_sdu e' = vr_ur_in_rx_sdu e \<Longrightarrow> um_sdu e' = um_sdu e \<Longrightarrow> rx_cfg e' = rx_cfg e \<Longrightarrow>
   um_round s fs p A u h e' = um_round s fs p A u h e"
  by (simp add: um_round_def um_window_pdu_def um_sn_def um_pdu_belongs_to_rx_sdu_def)

text \<open>A PDU that is not in the window and not below it is stored.\<close>

lemma um_store_round:
  assumes "um_cfg_ok (rx_cfg e)" "um_round s fs p A u h e" "length fs \<le> um_W e" "j < length fs" "j \<notin> A"
    "fs ! j = (st, en, segs)" "length (um_pdu sz sn st en segs) \<le> ROOM" "sz = um_rx_sn_field_length (rx_cfg e)" "sn = u16_of (um_sn e (s + j))"
  shows "\<exists>h' e'. um_store_pdu (um_header_of sz sn st en segs) (um_pdu sz sn st en segs) e = Some e' \<and>
    um_round s fs p (insert j A) u h' e' \<and> um_const e' = um_const e \<and> rx_sdu e' = rx_sdu e \<and> h \<le> h' \<and> u < h' \<and> rx_window e' \<noteq> []"
proof -
  note r = assms(2) [unfolded um_round_def]
  note m = um_cfg_numbers [OF assms(1)]
  let ?pdu = "um_window_pdu e (s + j) (fs ! j)"
  let ?e = "e\<lparr>rx_window := (um_sn e (s + j), ?pdu) # rx_window e\<rparr>"
  define h' where "h' = (if j < h then h else Suc j)"
  define e' where "e' = ?e\<lparr>vr_uh := um_sn e (s + h')\<rparr>"
  have sn: "u32_of sn = um_sn e (s + j)" using um_sn_u16 [OF assms(1)] assms(9) by simp
  have sn_e: "um_sn ?e = um_sn e" by (rule um_sn_cfg) simp
  have h: "h \<le> length fs" "u \<le> j" using r assms(5) by (auto simp: not_less [symmetric])
  have "um_inside_reordering_window ?e (u16_of (um_sn ?e (s + j))) \<longleftrightarrow> j < h"
    by (rule um_inside_sn) (use assms(1,3,4) h r m sn_e in simp_all)
  then have inside: "um_inside_reordering_window ?e sn \<longleftrightarrow> j < h" using assms(9) sn_e by simp
  have uh: "(if \<not> j < h then (um_sn e (s + j) + 1) mod um_rx_mod (rx_cfg e) else vr_uh e) = um_sn e (s + h')"
    using r um_sn_Suc [OF assms(1), of "s + j"] by (simp add: h'_def)
  have wp: "(um_header_of sz sn st en segs, concat segs) = ?pdu" using assms(6,8,9) by (simp add: um_window_pdu_def)
  have drop: "drop (rlc_um_packed_length (um_header_of sz sn st en segs)) (um_pdu sz sn st en segs) = concat segs"
    by (simp add: um_pdu_def um_drop_header)
  have store: "um_store_pdu (um_header_of sz sn st en segs) (um_pdu sz sn st en segs) e = Some e'"
  proof -
    have "umd_sn (um_header_of sz sn st en segs) = sn" by (simp add: um_header_of_def)
    then show ?thesis
      using assms(7) inside uh by (simp add: um_store_pdu_def sn drop wp e'_def Let_def) auto
  qed
  have cfg: "um_sn e' = um_sn e" "um_window_pdu e' = um_window_pdu e"
    by (rule um_sn_cfg um_window_pdu_cfg; simp add: e'_def)+
  have inj: "um_sn e (s + k) = um_sn e (s + j) \<longleftrightarrow> k = j" if "k \<in> A" for k
  proof -
    have "k < length fs" using r that by auto
    then show ?thesis using um_sn_eq_iff [OF assms(1), of k j s] assms(3,4) m(1,2) by simp
  qed
  have "um_round s fs p (insert j A) u h' e'"
    unfolding um_round_def cfg
    using r h assms(4) inj by (auto simp: e'_def h'_def um_pdu_belongs_to_rx_sdu_def)
  moreover have "h \<le> h'" "u < h'" "um_const e' = um_const e" "rx_sdu e' = rx_sdu e" "rx_window e' \<noteq> []"
    using h by (simp_all add: h'_def e'_def)
  ultimately show ?thesis using store by blast
qed

lemma um_catch_up_round:
  assumes "um_cfg_ok (rx_cfg e)" "um_round s fs p A u h e" "length fs \<le> um_W e" "u < h" "rx_window e \<noteq> []"
  shows "um_catch_up e = Some (e, [])"
proof -
  have "um_inside_reordering_window e (u16_of (um_sn e (s + u))) \<longleftrightarrow> u < h"
    by (rule um_inside_sn) (use assms um_cfg_numbers(1,2) [OF assms(1)] in \<open>auto simp: um_round_def\<close>)
  then show ?thesis using assms(2,4) by (subst um_catch_up.simps) (simp add: um_round_def)
qed

section \<open>The timer\<close>

text \<open>t-Reordering runs only while a PDU is missing.\<close>

definition um_timer_ok :: "nat \<Rightarrow> nat \<Rightarrow> nat \<Rightarrow> um_rx_state \<Rightarrow> bool" where
  "um_timer_ok s u h = (\<lambda>(tm, e). \<exists>i. um_reordering_timer e = Some i \<and> i < length (timer_list tm) \<and>
     (is_running (impl tm i) \<longrightarrow> u < h \<and> (\<exists>x. x \<le> h \<and> u < x \<and> vr_ux e = um_sn e (s + x))))"

lemma timer_ops_simps [simp]:
  "length (timer_list (timer_stop i h)) = length (timer_list h)"
  "length (timer_list (timer_run_op i h)) = length (timer_list h)"
  "i < length (timer_list h) \<Longrightarrow> \<not> is_running (impl (timer_stop i h) i)"
  by (simp_all add: timer_stop_def timer_run_op_def Let_def is_running_def)

lemma um_update_timer_round:
  assumes "um_cfg_ok (rx_cfg e)" "um_round s fs p A u h e" "length fs \<le> um_W e"
    "um_reordering_timer e = Some i" "i < length (timer_list tm)"
    "is_running (impl tm i) \<longrightarrow> (\<exists>x. x \<le> h \<and> vr_ux e = um_sn e (s + x))" "um_update_timer i (tm, e) = (tm', e')"
  shows "um_timer_ok s u h (tm', e')" "um_round s fs p A u h e'" "rx_cfg e' = rx_cfg e" "rx_lcid e' = rx_lcid e" "rx_sdu e' = rx_sdu e"
proof -
  note r = assms(2) [unfolded um_round_def]
  have W: "h \<le> um_W e" "u \<le> h" "0 < um_W e" using r assms(3) um_cfg_numbers(2) [OF assms(1)] by auto
  have uh: "vr_uh e = um_sn e (s + h)" using r by simp
  have base: "unat (RX_MOD_BASE e (um_sn e (s + x))) = x + um_W e - h" if "x \<le> h" for x
    by (rule RX_MOD_BASE_sn [OF assms(1) uh]) (use that W in simp_all)
  have ur: "unat (RX_MOD_BASE e (vr_ur e)) = u + um_W e - h" using base [OF W(2)] r by simp
  have edge: "unat (RX_MOD_BASE e (vr_uh e)) = um_W e" by (rule RX_MOD_BASE_edges(2) [OF assms(1) uh])
  define tm1 where "tm1 = (if is_running (impl tm i) \<and>
      (RX_MOD_BASE e (vr_ux e) \<le> RX_MOD_BASE e (vr_ur e) \<or> \<not> um_inside_reordering_window e (u16_of (vr_ux e)) \<and> vr_ux e \<noteq> vr_uh e)
      then timer_stop i tm else tm)"
  have len: "length (timer_list tm1) = length (timer_list tm)" by (simp add: tm1_def)
  have run1: "u < h \<and> (\<exists>x. x \<le> h \<and> u < x \<and> vr_ux e = um_sn e (s + x))" if "is_running (impl tm1 i)"
  proof -
    have "is_running (impl tm i)" "\<not> RX_MOD_BASE e (vr_ux e) \<le> RX_MOD_BASE e (vr_ur e)"
      using that assms(5) by (auto simp: tm1_def split: if_splits)
    then obtain x where x: "x \<le> h" "vr_ux e = um_sn e (s + x)" "u + um_W e - h < x + um_W e - h"
      using assms(6) base ur by (auto simp: word_le_nat_alt not_le)
    then have "u < x" using W(1) by linarith
    with x show ?thesis by auto
  qed
  have start: "RX_MOD_BASE e (vr_uh e) > RX_MOD_BASE e (vr_ur e) \<longleftrightarrow> u < h"
    unfolding word_less_nat_alt ur edge using W by linarith
  have upd: "(tm', e') = (if \<not> is_running (impl tm1 i) \<and> u < h then (timer_run_op i tm1, e\<lparr>vr_ux := vr_uh e\<rparr>) else (tm1, e))"
    using assms(7) unfolding um_update_timer_def case_prod_conv Let_def tm1_def [symmetric] start by (rule sym)
  show "rx_cfg e' = rx_cfg e" "rx_lcid e' = rx_lcid e" "rx_sdu e' = rx_sdu e" using upd by (auto split: if_splits)
  show "um_round s fs p A u h e'"
    using upd assms(2) um_round_cong [of "e\<lparr>vr_ux := vr_uh e\<rparr>" e s fs p A u h] by (auto split: if_splits simp: um_sdu_def)
  have sn: "um_sn (e\<lparr>vr_ux := x\<rparr>) = um_sn e" for x by (rule um_sn_cfg) simp
  show "um_timer_ok s u h (tm', e')"
    using upd assms(4,5) run1 len uh W(2) by (auto simp: um_timer_ok_def sn split: if_splits)
qed

section \<open>One arrival, and a round\<close>

abbreviation um_frame_pdu :: "rlc_um_rx \<Rightarrow> nat \<Rightarrow> um_frame \<Rightarrow> u8 list" where
  "um_frame_pdu e k \<equiv> (\<lambda>(st, en, segs). um_pdu (um_rx_sn_field_length (rx_cfg e)) (u16_of (um_sn e k)) st en segs)"

lemma um_read_segs:
  assumes "um_cfg_ok (rx_cfg e)" "\<forall>x \<in> set segs. length x < 2 ^ 11" "length segs \<le> 513"
    "sz = um_rx_sn_field_length (rx_cfg e)" "sn = u16_of (um_sn e k)"
  shows "rlc_um_read_data_pdu_header (um_pdu sz sn st en segs) sz = Some (um_header_of sz sn st en segs)"
proof -
  have sn: "unat sn < (if sz = umd_size5bits then 2 ^ 5 else 2 ^ 10)"
    unfolding assms(4,5) um_sn_u16(2) [OF assms(1)] um_cfg_numbers(5) [OF assms(1), symmetric] by (rule unat_um_sn(2) [OF assms(1)])
  have li: "(of_nat (length x) :: u16) < 2 ^ 11" if "x \<in> set segs" for x
  proof -
    have "length x < 2 ^ 11" using assms(2) that by simp
    moreover then have "unat (of_nat (length x) :: u16) = length x" by (simp add: unat_of_nat)
    ultimately show ?thesis by (simp add: word_less_nat_alt)
  qed
  have "umd_header_ok (um_header_of sz sn st en segs)"
    using sn li assms(3) um_cfg_numbers(7) [OF assms(1)]
    by (auto simp: umd_header_ok_def um_header_of_def assms(4) word_less_nat_alt dest: in_set_butlastD)
  then show ?thesis using um_header_roundtrip [of "um_header_of sz sn st en segs" "concat segs"]
    by (simp add: um_pdu_def um_header_of_def)
qed

lemma um_read_frame:
  assumes "um_cfg_ok (rx_cfg e)" "um_frame_ok p (st, en, segs)" "sz = um_rx_sn_field_length (rx_cfg e)" "sn = u16_of (um_sn e k)"
  shows "rlc_um_read_data_pdu_header (um_pdu sz sn st en segs) sz = Some (um_header_of sz sn st en segs)"
  by (rule um_read_segs [OF assms(1)]) (use assms(2-4) in \<open>auto simp: um_frame_ok_def\<close>)

lemma um_arrival:
  assumes "um_cfg_ok (rx_cfg e)" "um_round s fs p A u h e" "u \<notin> A" "length fs \<le> um_W e" "um_chain p fs" "j < length fs"
    "length (um_frame_pdu e (s + j) (fs ! j)) \<le> ROOM" "um_timer_ok s u h (tm, e)"
  shows "\<exists>u' h' tm' e' out. um_handle_data_pdu (um_frame_pdu e (s + j) (fs ! j)) (tm, e) = Some ((tm', e'), map (um_pdu_out e) out) \<and>
    um_round s fs p (insert j A) u' h' e' \<and> u' \<notin> insert j A \<and> um_timer_ok s u' h' (tm', e') \<and>
    rx_cfg e' = rx_cfg e \<and> rx_lcid e' = rx_lcid e \<and>
    snd (um_join_all p (take u' fs)) = snd (um_join_all p (take u fs)) @ out"
proof -
  note r = assms(2) [unfolded um_round_def]
  let ?sz = "um_rx_sn_field_length (rx_cfg e)" and ?sn = "u16_of (um_sn e (s + j))"
  obtain st en segs where f: "fs ! j = (st, en, segs)" by (cases "fs ! j") auto
  let ?pdu = "um_pdu ?sz ?sn st en segs" and ?h = "um_header_of ?sz ?sn st en segs"
  have read: "rlc_um_read_data_pdu_header ?pdu ?sz = Some ?h"
    using um_read_frame [OF assms(1) _ refl refl] um_chain_nth [OF assms(5,6)] f by auto
  have sn: "u32_of (umd_sn ?h) = um_sn e (s + j)" using um_sn_u16 [OF assms(1)] by (simp add: um_header_of_def)
  have W: "h \<le> um_W e" "u \<le> h" "0 < um_W e" "j < um_W e" using r assms(4,6) um_cfg_numbers(2) [OF assms(1)] by auto
  have uh: "vr_uh e = um_sn e (s + h)" using r by simp
  have below: "RX_MOD_BASE e (um_sn e (s + j)) < RX_MOD_BASE e (vr_ur e) \<longleftrightarrow> j < u"
  proof -
    have "unat (RX_MOD_BASE e (um_sn e (s + j))) = j + um_W e - h" "unat (RX_MOD_BASE e (um_sn e (s + u))) = u + um_W e - h"
      by (rule RX_MOD_BASE_sn [OF assms(1) uh]; use W in linarith)+
    then show ?thesis using r W by (simp add: word_less_nat_alt) linarith
  qed
  note edge = RX_MOD_BASE_edges(1) [OF assms(1) uh]
  obtain i where i: "um_reordering_timer e = Some i" "i < length (timer_list tm)"
      "is_running (impl tm i) \<longrightarrow> (\<exists>x. x \<le> h \<and> u < x \<and> vr_ux e = um_sn e (s + x))"
    using assms(8) by (auto simp: um_timer_ok_def)
  have key: "map_of (rx_window e) (um_sn e (s + j)) \<noteq> None \<longleftrightarrow> j \<in> A \<and> u \<le> j"
    using um_round_key [OF assms(1,2,4), of j] assms(6) by (simp add: map_of_eq_None_iff)
  show ?thesis
  proof (cases "j \<in> A")
    case True
    then have "um_handle_data_pdu ?pdu (tm, e) = Some ((tm, e), [])"
      using read key by (cases "j < u") (auto simp: um_handle_data_pdu_def sn below edge Let_def)
    then show ?thesis using True assms(2,3,8) f
      by (intro exI [of _ u] exI [of _ h] exI [of _ tm] exI [of _ e] exI [of _ "[]"]) (simp add: insert_absorb)
  next
    case False
    have j: "\<not> j < u" "map_of (rx_window e) (um_sn e (s + j)) = None" using r False key by auto
    from um_store_round [OF assms(1,2,4,6) False f _ refl refl] assms(7) f obtain h1 e1 where
      st: "um_store_pdu ?h ?pdu e = Some e1" "um_round s fs p (insert j A) u h1 e1" "um_const e1 = um_const e"
        "rx_sdu e1 = rx_sdu e" "h \<le> h1" "u < h1" "rx_window e1 \<noteq> []" by auto
    define e2 where "e2 = (if rx_sdu e1 = None then e1\<lparr>rx_sdu := Some []\<rparr> else e1)"
    have e2: "um_round s fs p (insert j A) u h1 e2" "um_const e2 = um_const e" "rx_sdu e2 \<noteq> None" "rx_window e2 \<noteq> []" "um_cfg_ok (rx_cfg e2)"
      "length fs \<le> um_W e2"
      using st um_round_cong [of e2 e1 s fs p "insert j A" u h1] assms(1,4) by (auto simp: e2_def um_sdu_def)
    have catch: "um_catch_up e2 = Some (e2, [])" by (rule um_catch_up_round [OF e2(5,1,6) st(6) e2(4)])
    from um_in_sequence_round [OF e2(5,1,6) assms(5) e2(3)] obtain u' e3 out where
      s3: "um_in_sequence e2 = Some (e3, map (um_pdu_out e2) out)" "um_round s fs p (insert j A) u' h1 e3" "u' \<notin> insert j A"
        "snd (um_join_all p (take u' fs)) = snd (um_join_all p (take u fs)) @ out" "um_const e3 = um_const e2" by blast
    have out: "um_reassemble_rx_sdus e1 = Some (e3, map (um_pdu_out e) out)"
      using catch s3(1) e2(2) by (simp add: um_reassemble_rx_sdus_def e2_def [symmetric] Let_def)
    obtain tm' e' where upd: "um_update_timer i (tm, e3) = (tm', e')" by fastforce
    have c3: "rx_cfg e3 = rx_cfg e" "rx_lcid e3 = rx_lcid e" "um_reordering_timer e3 = Some i" "vr_ux e3 = vr_ux e"
      using s3(5) e2(2) i(1) by simp_all
    have ux: "is_running (impl tm i) \<longrightarrow> (\<exists>x. x \<le> h1 \<and> vr_ux e3 = um_sn e3 (s + x))"
      using i(3) st(5) c3(4) um_sn_cfg [OF c3(1)] by (metis order_trans)
    have cfg3: "um_cfg_ok (rx_cfg e3)" "length fs \<le> um_W e3" using assms(1,4) c3(1) by simp_all
    note t = um_update_timer_round [OF cfg3(1) s3(2) cfg3(2) c3(3) i(2) ux upd]
    have "um_handle_data_pdu ?pdu (tm, e) = Some ((tm', e'), map (um_pdu_out e) out)"
      using read j st(1) out c3(3) upd by (simp add: um_handle_data_pdu_def sn below edge Let_def)
    then show ?thesis using t s3(3,4) c3(1,2) f
      by (intro exI [of _ u'] exI [of _ h1] exI [of _ tm'] exI [of _ e'] exI [of _ out]) simp
  qed
qed

end
