(* ===== verification/Rlc_Um.thy ===== *)
theory Rlc_Um
  imports Rlc_Um_Tx Rlc_Um_Window
begin

text \<open>
  The RLC UM entity: \<open>rlc_um_base\<close> (\<open>lib/src/upper/rlc_um_base.cc\<close>) with the transmitter and the receiver of
  \<open>rlc_um_lte\<close> (\<open>rlc_um_lte.cc\<close>). The name of the bearer and logging are left out.

  Lemmas and properties: a transmitter and a receiver connected by a channel that reorders and repeats PDUs.
\<close>

section \<open>The entity\<close>

record rlc_um_lte =
  um_lcid :: u32
  um_cfg :: rlc_config_t
  um_tx :: "rlc_um_tx option"
  um_rx :: "rlc_um_rx option"
  um_tx_enabled :: bool
  um_rx_enabled :: bool
  um_metrics :: rlc_bearer_metrics_t

type_synonym um_state = "um_callback timer_handler \<times> rlc_um_lte"

definition new_rlc_um_lte :: "u32 \<Rightarrow> rlc_um_lte" where
  "new_rlc_um_lte lcid = \<lparr>um_lcid = lcid, um_cfg = new_rlc_config, um_tx = None, um_rx = None, um_tx_enabled = False,
     um_rx_enabled = False, um_metrics = no_metrics\<rparr>"

text \<open>The new receiver takes its timer before the timer of the old one is cleared.\<close>

definition um_configure :: "rlc_config_t \<Rightarrow> um_state \<Rightarrow> bool \<times> um_state" where
  "um_configure cnfg = (\<lambda>(h, e).
     let e = e\<lparr>um_cfg := cnfg\<rparr>;
         old = um_rx e;
         (h, rx) = new_um_rx (rlc_um cnfg) (um_lcid e) h;
         h = (case old of None \<Rightarrow> h | Some r \<Rightarrow> unique_timer_destroy (um_reordering_timer r) h);
         (ok, (h, rx)) = um_rx_configure (h, rx);
         e = e\<lparr>um_rx := Some rx\<rparr>
     in if \<not> ok then (False, (h, e))
        else
          let (ok, tx) = um_tx_configure cnfg new_um_tx;
              e = e\<lparr>um_tx := Some tx\<rparr>
          in if \<not> ok then (False, (h, e)) else (True, (h, e\<lparr>um_rx_enabled := True, um_tx_enabled := True\<rparr>)))"

definition um_stop :: "um_state \<Rightarrow> um_state" where
  "um_stop = (\<lambda>(h, e).
     let e = e\<lparr>um_tx := map_option um_tx_stop (um_tx e)\<rparr>
     in case um_rx e of
          None \<Rightarrow> (h, e)
        | Some rx \<Rightarrow> (case um_rx_stop (h, rx) of (h, rx) \<Rightarrow> (h, e\<lparr>um_rx := Some rx\<rparr>)))"

definition um_get_mode :: "rlc_um_lte \<Rightarrow> rlc_mode_t" where "um_get_mode e = rlc_mode_um"
definition um_get_bearer :: "rlc_um_lte \<Rightarrow> u32" where "um_get_bearer e = um_lcid e"
definition um_base_is_mrb :: "rlc_um_lte \<Rightarrow> bool" where "um_base_is_mrb e \<longleftrightarrow> um_is_mrb (rlc_um (um_cfg e))"

definition um_reestablish :: "um_state \<Rightarrow> (um_state \<times> um_out list) option" where
  "um_reestablish = (\<lambda>(h, e).
     do {
       let e = e\<lparr>um_tx_enabled := False, um_tx := map_option um_tx_reestablish (um_tx e)\<rparr>;
       ((h, e), out) \<leftarrow> (case um_rx e of
           None \<Rightarrow> Some ((h, e), [])
         | Some rx \<Rightarrow> map_option (\<lambda>((h, rx), out). ((h, e\<lparr>um_rx := Some rx\<rparr>), out)) (um_rx_reestablish (h, rx)));
       Some ((h, e\<lparr>um_tx_enabled := True\<rparr>), out)
     })"

definition um_empty_queue :: "rlc_um_lte \<Rightarrow> rlc_um_lte" where
  "um_empty_queue e = e\<lparr>um_tx := map_option um_tx_empty_queue (um_tx e)\<rparr>"

definition um_drop_sdu :: "rlc_um_lte \<Rightarrow> rlc_um_lte" where
  "um_drop_sdu e = e\<lparr>um_metrics := (um_metrics e)\<lparr>num_dropped_sdus := num_dropped_sdus (um_metrics e) + 1\<rparr>\<rparr>"

text \<open>The check that drops an SDU reads its length for the log, so a null pointer has no value there.\<close>

definition um_write_sdu :: "u8 list option \<Rightarrow> bool \<Rightarrow> rlc_um_lte \<Rightarrow> rlc_um_lte option" where
  "um_write_sdu sdu blocking e =
     (case um_tx e of
        Some tx \<Rightarrow>
          if um_tx_enabled e
          then if blocking then map_option (\<lambda>tx. e\<lparr>um_tx := Some tx\<rparr>) (um_tx_write_sdu sdu tx)
               else Some (e\<lparr>um_tx := Some (um_tx_try_write_sdu sdu tx)\<rparr>)
          else map_option (\<lambda>_. um_drop_sdu e) sdu
      | None \<Rightarrow> map_option (\<lambda>_. um_drop_sdu e) sdu)"

definition um_discard_sdu :: "u32 \<Rightarrow> rlc_um_lte \<Rightarrow> rlc_um_lte" where
  "um_discard_sdu discard_sn e =
     (if um_tx_enabled e \<and> um_tx e \<noteq> None then e\<lparr>um_tx := map_option (um_tx_discard_sdu discard_sn) (um_tx e)\<rparr>
      else um_drop_sdu e)"

definition um_has_data :: "rlc_um_lte \<Rightarrow> bool" where
  "um_has_data e = (case um_tx e of None \<Rightarrow> False | Some tx \<Rightarrow> um_tx_has_data tx)"

definition um_get_buffer_state :: "rlc_um_lte \<Rightarrow> u32" where
  "um_get_buffer_state e = (case um_tx e of None \<Rightarrow> 0 | Some tx \<Rightarrow> um_tx_get_buffer_state tx)"

text \<open>The PDU read, of which the code returns the length.\<close>

definition um_read_pdu :: "u32 \<Rightarrow> rlc_um_lte \<Rightarrow> (u8 list \<times> rlc_um_lte) option" where
  "um_read_pdu nof_bytes e =
     (case um_tx e of
        Some tx \<Rightarrow>
          if um_tx_enabled e
          then do {
            (pdu, tx) \<leftarrow> um_tx_build_data_pdu nof_bytes tx;
            let m = um_metrics e;
            Some (pdu, e\<lparr>um_tx := Some tx,
                        um_metrics := m\<lparr>num_tx_bytes := num_tx_bytes m + of_nat (length pdu), num_tx_pdus := num_tx_pdus m + 1\<rparr>\<rparr>)
          }
          else Some ([], e)
      | None \<Rightarrow> Some ([], e))"

definition um_write_pdu :: "u8 list \<Rightarrow> um_state \<Rightarrow> (um_state \<times> um_out list) option" where
  "um_write_pdu payload = (\<lambda>(h, e).
     case um_rx e of
       Some rx \<Rightarrow>
         if um_rx_enabled e
         then do {
           let m = um_metrics e;
           let e = e\<lparr>um_metrics := m\<lparr>num_rx_pdus := num_rx_pdus m + 1, num_rx_bytes := num_rx_bytes m + of_nat (length payload)\<rparr>\<rparr>;
           ((h, rx), out) \<leftarrow> um_handle_data_pdu payload (h, rx);
           Some ((h, e\<lparr>um_rx := Some rx\<rparr>), out)
         }
         else Some ((h, e), [])
     | None \<Rightarrow> Some ((h, e), []))"

definition um_get_metrics :: "rlc_um_lte \<Rightarrow> rlc_bearer_metrics_t" where "um_get_metrics e = um_metrics e"
definition um_reset_metrics :: "rlc_um_lte \<Rightarrow> rlc_um_lte" where "um_reset_metrics e = e\<lparr>um_metrics := no_metrics\<rparr>"

text \<open>The callback of the receiver, as the timer service runs it; \<open>None\<close> once an operation had no value.\<close>

fun um_exec :: "(um_callback, (rlc_um_rx \<times> um_out list) option) exec" where
  "um_exec um_timer_expired timer_id (h, None) = (h, None)"
| "um_exec um_timer_expired timer_id (h, Some (rx, out)) =
     (case um_rx_timer_expired timer_id (h, rx) of
        None \<Rightarrow> (h, None)
      | Some ((h, rx), out') \<Rightarrow> (h, Some (rx, out @ out')))"

section \<open>From the transmitter to the frames of a round\<close>

primrec um_build_all :: "u32 list \<Rightarrow> rlc_um_tx \<Rightarrow> (u8 list list \<times> rlc_um_tx) option" where
  "um_build_all [] tx = Some ([], tx)"
| "um_build_all (g # gs) tx =
     do {
       (pdu, tx) \<leftarrow> um_tx_build_data_pdu g tx;
       (pdus, tx) \<leftarrow> um_build_all gs tx;
       Some (if pdu = [] then pdus else pdu # pdus, tx)
     }"

text \<open>A PDU has bytes after the segments its length indicators describe.\<close>

definition um_has_tail :: "rlc_umd_sn_size_t \<Rightarrow> u8 list \<Rightarrow> bool" where
  "um_has_tail sz pdu \<longleftrightarrow>
     (case rlc_um_read_data_pdu_header pdu sz of
        None \<Rightarrow> False
      | Some h \<Rightarrow> rlc_um_packed_length h + sum_list (map unat (umd_li h)) < length pdu)"

text \<open>The SDUs a receiver that holds \<open>p\<close> still has to deliver.\<close>

definition um_owed :: "u8 list \<Rightarrow> rlc_um_tx \<Rightarrow> u8 list list" where
  "um_owed p tx = um_glue p (um_pending tx)"

definition um_feed :: "rlc_um_rx \<Rightarrow> nat \<Rightarrow> u8 list \<Rightarrow> rlc_um_tx \<Rightarrow> bool" where
  "um_feed e s p tx \<longleftrightarrow>
     um_tx_sz tx = um_rx_sn_field_length (rx_cfg e) \<and> um_tx_mod (rlc_um (tx_cfg tx)) = um_rx_mod (rx_cfg e) \<and>
     vt_us tx = um_sn e s \<and> queue_ok (tx_sdu_queue tx) \<and> length (um_pending tx) \<le> 512 \<and> (\<forall>x \<in> set (um_pending tx). x \<noteq> []) \<and>
     um_sdus_ok (um_owed p tx) \<and> (tx_sdu tx = None \<longleftrightarrow> p = [])"

lemma um_feed_tx_ok: "um_feed e s p tx \<Longrightarrow> um_tx_ok tx"
  by (cases "um_pending tx") (auto simp: um_feed_def um_tx_ok_def um_owed_def um_sdus_ok_def)

lemma um_cut_append:
  "um_cut pend segs rest q \<Longrightarrow> segs \<noteq> [] \<Longrightarrow>
   pend = (case rest of None \<Rightarrow> segs @ q | Some r \<Rightarrow> butlast segs @ (last segs @ r) # q)"
  by (induction pend segs rest q rule: um_cut.induct) (auto split: option.splits if_splits)

lemma um_glue_append: "xs \<noteq> [] \<Longrightarrow> um_glue p (xs @ ys) = um_glue p xs @ ys"
  by (cases xs) simp_all

lemma um_join_glue:
  "segs \<noteq> [] \<Longrightarrow> um_join p (st, en, segs) = (if en then ([], um_glue p segs) else (last (um_glue p segs), butlast (um_glue p segs)))"
  by (cases segs) (simp_all add: um_join_def)

text \<open>What the receiver makes of a cut, and what is left.\<close>

lemma um_cut_join:
  assumes "um_cut pend segs rest q" "segs \<noteq> []" "um_join p (st, rest = None, segs) = (p', out)"
  shows "out @ um_glue p' ((case rest of None \<Rightarrow> [] | Some r \<Rightarrow> [r]) @ q) = um_glue p pend"
proof -
  note pend = um_cut_append [OF assms(1,2)]
  show ?thesis
  proof (cases rest)
    case None
    then show ?thesis using assms(2,3) pend by (auto simp: um_join_glue um_glue_append)
  next
    case (Some r)
    have j: "p' = last (um_glue p segs)" "out = butlast (um_glue p segs)"
      using assms(2,3) Some by (simp_all add: um_join_glue)
    obtain ss t where segs: "segs = ss @ [t]" using assms(2) by (cases segs rule: rev_cases) auto
    show ?thesis using Some pend j by (cases ss) (simp_all add: segs)
  qed
qed

lemma um_cut_segs:
  assumes "um_cut pend segs rest q"
  shows "length segs \<le> length pend" "s \<in> set segs \<Longrightarrow> \<exists>x \<in> set pend. length s \<le> length x"
    "set q \<subseteq> set pend" "rest = Some r \<Longrightarrow> r \<noteq> []" "length q + length segs \<le> length pend" "segs \<noteq> [] \<Longrightarrow> length q < length pend"
  using assms by (induction pend segs rest q rule: um_cut.induct) auto

lemma um_cut_rest:
  "um_cut pend segs rest q \<Longrightarrow> rest = Some r \<Longrightarrow> r \<noteq> [] \<and> (\<exists>x \<in> set pend. length r \<le> length x)"
  by (induction pend segs rest q rule: um_cut.induct) auto

lemma um_feed_step:
  assumes "um_cfg_ok (rx_cfg e)" "um_feed e s p tx" "um_cut (um_pending tx) segs rest (queue_q qu)" "segs \<noteq> []"
    "\<forall>x \<in> set segs. x \<noteq> []" "queue_ok qu"
    "um_join p (tx_sdu tx = None, rest = None, segs) = (p', out)"
  shows "um_frame_ok p (tx_sdu tx = None, rest = None, segs)" "um_feed e (Suc s) p' (um_tx_next tx rest qu)"
    "out @ um_owed p' (um_tx_next tx rest qu) = um_owed p tx"
proof -
  note f = assms(2) [unfolded um_feed_def]
  have owed: "out @ um_owed p' (um_tx_next tx rest qu) = um_owed p tx"
    using um_cut_join [OF assms(3,4,7)] by (simp add: um_owed_def um_pending_def)
  then show "out @ um_owed p' (um_tx_next tx rest qu) = um_owed p tx" .
  have pend: "um_pending (um_tx_next tx rest qu) = (case rest of None \<Rightarrow> [] | Some r \<Rightarrow> [r]) @ queue_q qu"
    by (simp add: um_pending_def)
  note cut = um_cut_segs [OF assms(3)]
  have le: "length x < 2 ^ 11" if "x \<in> set (um_pending tx)" for x
    using um_feed_tx_ok [OF assms(2)] that by (simp add: um_tx_ok_def um_sdus_ok_def)
  have seg: "length x < 2 ^ 11" if "x \<in> set segs" for x using cut(2) [OF that] le by fastforce
  have p: "length p < 2 ^ 11"
  proof (cases "um_pending tx")
    case Nil
    then have "tx_sdu tx = None" by (simp add: um_pending_def split: option.splits)
    then have "p = []" using f by simp
    then show ?thesis by simp
  next
    case (Cons x xs)
    then show ?thesis using f by (auto simp: um_owed_def um_sdus_ok_def)
  qed
  show "um_frame_ok p (tx_sdu tx = None, rest = None, segs)"
    using assms(4,5) seg p cut(1) f by (auto simp: um_frame_ok_def)
  have p': "rest = None \<longleftrightarrow> p' = []"
  proof -
    have "last (um_glue p segs) \<noteq> []" using assms(4,5) by (cases segs) (auto dest: last_in_set)
    then show ?thesis using assms(7) unfolding um_join_glue [OF assms(4)] by (auto split: if_splits)
  qed
  have "um_sdus_ok (um_owed p' (um_tx_next tx rest qu))"
    using f unfolding owed [symmetric] by (simp add: um_sdus_ok_def)
  moreover have "\<forall>x \<in> set (um_pending (um_tx_next tx rest qu)). x \<noteq> []"
    unfolding pend using cut(3,4) f by (auto split: option.splits)
  moreover have "length (um_pending (um_tx_next tx rest qu)) \<le> 512"
    unfolding pend using cut(6) [OF assms(4)] f by (auto split: option.splits)
  ultimately show "um_feed e (Suc s) p' (um_tx_next tx rest qu)"
    using f p' assms(6) um_sn_Suc [OF assms(1), of s] by (auto simp: um_feed_def)
qed

lemma um_has_tail_pdu:
  assumes "um_cfg_ok (rx_cfg e)" "\<forall>x \<in> set segs. length x < 2 ^ 11" "length segs \<le> 513" "segs \<noteq> []"
    "sz = um_rx_sn_field_length (rx_cfg e)" "sn = u16_of (um_sn e k)"
  shows "um_has_tail sz (um_pdu sz sn st en segs) \<longleftrightarrow> last segs \<noteq> []"
proof -
  obtain ss t where segs: "segs = ss @ [t]" using assms(4) by (cases segs rule: rev_cases) auto
  have "length x < 2 ^ 16" if "x \<in> set ss" for x using assms(2) that by (force simp: segs)
  then have "(\<Sum>x\<leftarrow>ss. unat (of_nat (length x) :: u16)) = sum_list (map length ss)"
    by (intro arg_cong [where f = sum_list]) (auto simp: unat_of_nat)
  then have "sum_list (map unat (umd_li (um_header_of sz sn st en segs))) = length (concat ss)"
    by (simp add: um_header_of_def segs length_concat o_def)
  then show ?thesis
    unfolding um_has_tail_def um_read_segs [OF assms(1-3,5,6)] by (simp add: um_pdu_def length_um_write segs)
qed

definition um_built :: "rlc_um_rx \<Rightarrow> nat \<Rightarrow> u8 list \<Rightarrow> rlc_um_tx \<Rightarrow> u8 list list \<Rightarrow> rlc_um_tx \<Rightarrow> um_frame list \<Rightarrow> bool" where
  "um_built e s p tx pdus tx' fs \<longleftrightarrow>
     pdus = map (\<lambda>k. um_frame_pdu e (s + k) (fs ! k)) [0..<length fs] \<and> um_chain p fs \<and>
     um_feed e (s + length fs) (fst (um_join_all p fs)) tx' \<and> (\<forall>pdu \<in> set pdus. length pdu \<le> ROOM) \<and>
     snd (um_join_all p fs) @ um_owed (fst (um_join_all p fs)) tx' = um_owed p tx"

lemma um_built_Cons:
  assumes "um_frame_ok p f" "um_join p f = (p', out)" "um_built e (Suc s) p' tx1 pdus tx' fs"
    "out @ um_owed p' tx1 = um_owed p tx" "length (um_frame_pdu e s f) \<le> ROOM"
  shows "um_built e s p tx (um_frame_pdu e s f # pdus) tx' (f # fs)"
  using assms by (auto simp: um_built_def map_upt_Suc simp del: upt_Suc split: prod.splits)

text \<open>The PDUs of any grants are the frames of a round.\<close>

lemma um_build_all_frames:
  assumes "um_cfg_ok (rx_cfg e)" "um_feed e s p tx" "um_build_all gs tx = Some (pdus, tx')"
    "\<forall>pdu \<in> set pdus. um_has_tail (um_rx_sn_field_length (rx_cfg e)) pdu"
  shows "\<exists>fs. um_built e s p tx pdus tx' fs"
  using assms(2-4)
proof (induction gs arbitrary: s p tx pdus)
  case Nil
  then show ?case by (intro exI [of _ "[]"]) (simp add: um_built_def)
next
  case (Cons g gs)
  show ?case
  proof (cases "um_pending tx = [] \<or> \<not> um_grant_ok g tx")
    case True
    then show ?thesis using Cons um_build_none [OF True] by (auto split: bind_splits)
  next
    case False
    note f = Cons.prems(1) [unfolded um_feed_def] and ok = um_feed_tx_ok [OF Cons.prems(1)]
    from um_build [OF ok, of g] False obtain segs rest qu where b:
      "um_tx_build_data_pdu g tx = Some (um_tx_pdu tx (tx_sdu tx = None) rest segs, um_tx_next tx rest qu)" "segs \<noteq> []"
      "um_cut (um_pending tx) segs rest (queue_q qu)" "\<forall>s \<in> set (butlast segs). s \<noteq> []" "queue_ok qu"
      "length (um_tx_pdu tx (tx_sdu tx = None) rest segs) \<le> min (unat g) ROOM" by blast
    define f0 where "f0 = (tx_sdu tx = None, rest = None, segs)"
    have pdu: "um_tx_pdu tx (tx_sdu tx = None) rest segs = um_frame_pdu e s f0" using f by (simp add: f0_def)
    have ne: "um_frame_pdu e s f0 \<noteq> []"
      by (simp add: f0_def um_pdu_def rlc_um_write_data_pdu_header_def Let_def)
    obtain pdus1 where rec: "um_build_all gs (um_tx_next tx rest qu) = Some (pdus1, tx')" "pdus = um_frame_pdu e s f0 # pdus1"
      using Cons.prems(2) b(1) ne unfolding pdu by (auto split: bind_splits if_splits)
    have seg: "\<forall>x \<in> set segs. length x < 2 ^ 11" "length segs \<le> 513"
      using um_cut_segs [OF b(3)] ok by (fastforce simp: um_tx_ok_def um_sdus_ok_def)+
    have "um_has_tail (um_rx_sn_field_length (rx_cfg e)) (um_frame_pdu e s f0)" using Cons.prems(3) rec(2) by simp
    then have "last segs \<noteq> []" using um_has_tail_pdu [OF assms(1) seg b(2) refl refl] by (simp add: f0_def)
    then have all: "\<forall>x \<in> set segs. x \<noteq> []"
      using b(2,4) by (metis append_butlast_last_id in_set_conv_decomp rotate1.simps(2) set_ConsD set_rotate1)
    obtain p' out where j: "um_join p f0 = (p', out)" by fastforce
    note step = um_feed_step [OF assms(1) Cons.prems(1) b(3,2) all b(5) j [unfolded f0_def]]
    from Cons.IH [OF step(2) rec(1)] Cons.prems(3) rec(2) obtain fs where
      "um_built e (Suc s) p' (um_tx_next tx rest qu) pdus1 tx' fs" by auto
    from um_built_Cons [OF step(1) [folded f0_def] j this step(3)] b(6) pdu show ?thesis
      unfolding rec(2) by auto
  qed
qed

section \<open>A round over a channel that reorders and repeats\<close>

primrec um_receive :: "u8 list list \<Rightarrow> um_rx_state \<Rightarrow> (um_rx_state \<times> um_out list) option" where
  "um_receive [] st = Some (st, [])"
| "um_receive (pdu # pdus) st =
     do {
       (st, out) \<leftarrow> um_handle_data_pdu pdu st;
       (st, out') \<leftarrow> um_receive pdus st;
       Some (st, out @ out')
     }"

lemma um_receive_round:
  assumes "um_cfg_ok (rx_cfg e)" "um_chain p fs" "length fs \<le> um_W e" "\<forall>j \<in> set order. j < length fs"
    "\<forall>k < length fs. length (um_frame_pdu e (s + k) (fs ! k)) \<le> ROOM"
    "um_round s fs p A u h e" "u \<notin> A" "um_timer_ok s u h (tm, e)"
  shows "\<exists>u' h' tm' e' out.
    um_receive (map (\<lambda>j. um_frame_pdu e (s + j) (fs ! j)) order) (tm, e) = Some ((tm', e'), map (um_pdu_out e) out) \<and>
    um_round s fs p (set order \<union> A) u' h' e' \<and> u' \<notin> set order \<union> A \<and> um_timer_ok s u' h' (tm', e') \<and>
    rx_cfg e' = rx_cfg e \<and> rx_lcid e' = rx_lcid e \<and>
    snd (um_join_all p (take u' fs)) = snd (um_join_all p (take u fs)) @ out"
  using assms
proof (induction order arbitrary: A u h tm e)
  case Nil
  then show ?case
    by (intro exI [of _ u] exI [of _ h] exI [of _ tm] exI [of _ e] exI [of _ "[]"]) simp
next
  case (Cons j order)
  have j: "j < length fs" "length (um_frame_pdu e (s + j) (fs ! j)) \<le> ROOM" using Cons.prems(4,5) by simp_all
  from um_arrival [OF Cons.prems(1,6,7,3,2) j Cons.prems(8)] obtain u1 h1 tm1 e1 out1 where a:
    "um_handle_data_pdu (um_frame_pdu e (s + j) (fs ! j)) (tm, e) = Some ((tm1, e1), map (um_pdu_out e) out1)"
    "um_round s fs p (insert j A) u1 h1 e1" "u1 \<notin> insert j A" "um_timer_ok s u1 h1 (tm1, e1)" "rx_cfg e1 = rx_cfg e" "rx_lcid e1 = rx_lcid e"
    "snd (um_join_all p (take u1 fs)) = snd (um_join_all p (take u fs)) @ out1" by (elim exE conjE) (rule that)
  note cfg = um_sn_cfg [OF a(5)] a(5,6)
  have prems: "um_cfg_ok (rx_cfg e1)" "length fs \<le> um_W e1" "\<forall>j \<in> set order. j < length fs"
    "\<forall>k < length fs. length (um_frame_pdu e1 (s + k) (fs ! k)) \<le> ROOM"
    using Cons.prems(1,3,4,5) unfolding cfg by simp_all
  from Cons.IH [OF prems(1) Cons.prems(2) prems(2,3,4) a(2,3,4)] obtain u2 h2 tm2 e2 out2 where b:
    "um_receive (map (\<lambda>j. um_frame_pdu e (s + j) (fs ! j)) order) (tm1, e1) = Some ((tm2, e2), map (um_pdu_out e) out2)"
    "um_round s fs p (set order \<union> insert j A) u2 h2 e2" "u2 \<notin> set order \<union> insert j A" "um_timer_ok s u2 h2 (tm2, e2)"
    "rx_cfg e2 = rx_cfg e" "rx_lcid e2 = rx_lcid e" "snd (um_join_all p (take u2 fs)) = snd (um_join_all p (take u1 fs)) @ out2"
    unfolding cfg by (elim exE conjE) (rule that)
  show ?case
    by (rule exI [of _ u2], rule exI [of _ h2], rule exI [of _ tm2], rule exI [of _ e2], rule exI [of _ "out1 @ out2"])
      (use a b in auto)
qed

text \<open>Transmitter and receiver agree on the next sequence number and on the SDU that is under way; nothing is missing.\<close>

definition um_linked :: "rlc_um_tx \<Rightarrow> um_rx_state \<Rightarrow> bool" where
  "um_linked tx = (\<lambda>(tm, e).
     um_cfg_ok (rx_cfg e) \<and> um_feed e (unat (vt_us tx)) (um_sdu e) tx \<and>
     vr_ur e = vt_us tx \<and> vr_uh e = vt_us tx \<and> rx_window e = [] \<and> \<not> pdu_lost e \<and> um_pdu_belongs_to_rx_sdu e \<and>
     (case um_reordering_timer e of None \<Rightarrow> False | Some i \<Rightarrow> i < length (timer_list tm) \<and> \<not> is_running (impl tm i)))"

lemma um_sn_mod: "um_sn e (k mod um_M e) = um_sn e k"
  by (simp add: um_sn_def)

lemma um_linked_start:
  assumes "um_linked tx (tm, e)"
  shows "um_round (unat (vt_us tx)) fs (um_sdu e) {} 0 0 e" "um_timer_ok (unat (vt_us tx)) 0 0 (tm, e)"
  using assms by (auto simp: um_linked_def um_round_def um_timer_ok_def um_feed_def split: option.splits)

lemma um_linked_end:
  assumes "um_cfg_ok (rx_cfg e)" "um_round s fs p {..<length fs} u h e" "u \<notin> {..<length fs}" "um_timer_ok s u h (tm, e)"
    "um_feed e (s + length fs) (fst (um_join_all p fs)) tx"
  shows "um_linked tx (tm, e)" "u = length fs"
proof -
  note r = assms(2) [unfolded um_round_def]
  show u: "u = length fs" using r assms(3) by auto
  have h: "h = length fs" using r u by simp
  have us: "vt_us tx = um_sn e (s + length fs)" using assms(5) by (simp add: um_feed_def)
  have n: "unat (vt_us tx) = (s + length fs) mod um_M e" unfolding us by (rule unat_um_sn(1) [OF assms(1)])
  have "um_feed e (unat (vt_us tx)) (fst (um_join_all p fs)) tx"
    using assms(5) unfolding n um_feed_def um_sn_mod .
  moreover have "um_sdu e = fst (um_join_all p fs)" using r u by simp
  moreover have "rx_window e = []"
  proof -
    have none: "{j \<in> {..<length fs}. u \<le> j} = {}" using u by auto
    have "fst ` set (rx_window e) = (\<lambda>j. um_sn e (s + j)) ` {j \<in> {..<length fs}. u \<le> j}" using r by (elim conjE)
    then show ?thesis unfolding none by simp
  qed
  ultimately show "um_linked tx (tm, e)"
    using r assms(1,4) us u h by (auto simp: um_linked_def um_timer_ok_def)
qed

lemma um_build_all_total:
  assumes "um_tx_ok tx"
  shows "\<exists>pdus tx'. um_build_all gs tx = Some (pdus, tx')"
  using assms
proof (induction gs arbitrary: tx)
  case (Cons g gs)
  show ?case
  proof (cases "um_pending tx = [] \<or> \<not> um_grant_ok g tx")
    case True
    then show ?thesis using Cons.IH [OF Cons.prems] um_build_none [OF True] by auto
  next
    case False
    from um_build [OF Cons.prems, of g] False obtain segs rest qu where b:
      "um_tx_build_data_pdu g tx = Some (um_tx_pdu tx (tx_sdu tx = None) rest segs, um_tx_next tx rest qu)" "segs \<noteq> []"
      "um_cut (um_pending tx) segs rest (queue_q qu)" "queue_ok qu" by blast
    have "um_tx_ok (um_tx_next tx rest qu)"
      using Cons.prems um_cut_segs(3,6) [OF b(3)] um_cut_rest [OF b(3)] b(2,4)
      by (fastforce simp: um_tx_ok_def um_sdus_ok_def um_pending_def [of "um_tx_next tx rest qu"] split: option.splits)
    then obtain pdus tx' where "um_build_all gs (um_tx_next tx rest qu) = Some (pdus, tx')" using Cons.IH by blast
    then show ?thesis using b(1) by simp
  qed
qed simp

text \<open>C6. A round over a channel that reorders and repeats: after any grants, a transmitter and a receiver that agree stay in step.
If the PDUs, at most a window of them, all arrive, in any order and any number of times, the receiver delivers the SDUs in the
order in which they were written, and those not delivered are still owed. No PDU may end in an empty segment (see the next
property).\<close>

theorem um_any_order:
  assumes "um_linked tx (tm, e)"
  shows "\<exists>pdus tx'. um_build_all gs tx = Some (pdus, tx') \<and>
    (\<forall>order. length pdus \<le> um_W e \<and> (\<forall>pdu \<in> set pdus. um_has_tail (um_rx_sn_field_length (rx_cfg e)) pdu) \<and>
        set order = {..<length pdus} \<longrightarrow>
      (\<exists>tm' e' sdus. um_receive (map ((!) pdus) order) (tm, e) = Some ((tm', e'), map (um_pdu_out e) sdus) \<and>
        um_linked tx' (tm', e') \<and> sdus @ um_owed (um_sdu e') tx' = um_owed (um_sdu e) tx))"
proof -
  let ?s = "unat (vt_us tx)" and ?p = "um_sdu e"
  have cfg: "um_cfg_ok (rx_cfg e)" and feed: "um_feed e ?s ?p tx" using assms by (simp_all add: um_linked_def)
  obtain pdus tx' where build: "um_build_all gs tx = Some (pdus, tx')" using um_build_all_total [OF um_feed_tx_ok [OF feed]] by blast
  have "\<exists>tm' e' sdus. um_receive (map ((!) pdus) order) (tm, e) = Some ((tm', e'), map (um_pdu_out e) sdus) \<and>
        um_linked tx' (tm', e') \<and> sdus @ um_owed (um_sdu e') tx' = um_owed ?p tx"
    if *: "length pdus \<le> um_W e \<and> (\<forall>pdu \<in> set pdus. um_has_tail (um_rx_sn_field_length (rx_cfg e)) pdu) \<and> set order = {..<length pdus}"
    for order
  proof -
    from um_build_all_frames [OF cfg feed build] * obtain fs where built: "um_built e ?s ?p tx pdus tx' fs" by blast
    then have pdus: "pdus = map (\<lambda>k. um_frame_pdu e (?s + k) (fs ! k)) [0..<length fs]" and chain: "um_chain ?p fs"
      and feed1: "um_feed e (?s + length fs) (fst (um_join_all ?p fs)) tx'" and small: "\<forall>pdu \<in> set pdus. length pdu \<le> ROOM"
      and owed: "snd (um_join_all ?p fs) @ um_owed (fst (um_join_all ?p fs)) tx' = um_owed ?p tx"
      unfolding um_built_def by simp_all
    have len: "length fs = length pdus" by (simp add: pdus)
    have pdu: "pdus ! k = um_frame_pdu e (?s + k) (fs ! k)" if "k < length fs" for k by (subst pdus) (use that in simp)
    then have nth: "map ((!) pdus) order = map (\<lambda>j. um_frame_pdu e (?s + j) (fs ! j)) order" using * by (simp add: len)
    have bound: "\<forall>k < length fs. length (um_frame_pdu e (?s + k) (fs ! k)) \<le> ROOM"
      using small pdu len by (metis nth_mem)
    have order: "length fs \<le> um_W e" "\<forall>j \<in> set order. j < length fs" using * by (simp_all add: len)
    have z: "0 \<notin> ({} :: nat set)" by simp
    have "\<exists>u h tm' e' out. um_receive (map ((!) pdus) order) (tm, e) = Some ((tm', e'), map (um_pdu_out e) out) \<and>
      um_round ?s fs ?p (set order \<union> {}) u h e' \<and> u \<notin> set order \<union> {} \<and> um_timer_ok ?s u h (tm', e') \<and>
      rx_cfg e' = rx_cfg e \<and> rx_lcid e' = rx_lcid e \<and>
      snd (um_join_all ?p (take u fs)) = snd (um_join_all ?p (take 0 fs)) @ out"
      unfolding nth by (rule um_receive_round [OF cfg chain order bound um_linked_start(1) [OF assms] z um_linked_start(2) [OF assms]])
    then obtain u h tm' e' out where r: "um_receive (map ((!) pdus) order) (tm, e) = Some ((tm', e'), map (um_pdu_out e) out)"
      "um_round ?s fs ?p (set order) u h e'" "u \<notin> set order" "um_timer_ok ?s u h (tm', e')" "rx_cfg e' = rx_cfg e" "rx_lcid e' = rx_lcid e"
      "snd (um_join_all ?p (take u fs)) = out"
      unfolding Un_empty_right take_0 um_join_all.simps snd_conv append_Nil by (elim exE conjE) (rule that)
    have A: "set order = {..<length fs}" using * len by simp
    have feed': "um_feed e' (?s + length fs) (fst (um_join_all ?p fs)) tx'" using feed1 unfolding um_feed_def r(5) um_sn_cfg [OF r(5)] .
    have cfg': "um_cfg_ok (rx_cfg e')" using cfg r(5) by simp
    note l = um_linked_end [OF cfg' r(2) [unfolded A] r(3) [unfolded A] r(4) feed']
    have "um_sdu e' = fst (um_join_all ?p fs)" using r(2) l(2) by (simp add: um_round_def)
    then have "out @ um_owed (um_sdu e') tx' = um_owed ?p tx" using owed r(7) l(2) by simp
    then show ?thesis using r(1) l(1) by blast
  qed
  then show ?thesis using build by blast
qed

text \<open>A transmitter with two SDUs and a receiver, as configured for sequence numbers of five bits.\<close>

definition um_example_tx :: rlc_um_tx where
  "um_example_tx =
     (let tx = snd (um_tx_configure (default_rlc_um_config 5) new_um_tx)
      in the (um_tx_write_sdu (Some [7, 8, 9]) (the (um_tx_write_sdu (Some [1, 2, 3, 4, 5, 6]) tx))))"

definition um_example_tm :: "um_callback timer_handler" where
  "um_example_tm = fst (snd (um_rx_configure (new_um_rx (rlc_um (default_rlc_um_config 5)) 3 new_timer_handler)))"

definition um_example_rx :: rlc_um_rx where
  "um_example_rx = snd (snd (um_rx_configure (new_um_rx (rlc_um (default_rlc_um_config 5)) 3 new_timer_handler)))"

lemma um_example_linked: "um_linked um_example_tx (um_example_tm, um_example_rx)"
proof -
  have tx: "um_tx_sz um_example_tx = umd_size5bits" "um_tx_mod (rlc_um (tx_cfg um_example_tx)) = 32" "vt_us um_example_tx = 0"
    "tx_sdu um_example_tx = None" "queue_q (tx_sdu_queue um_example_tx) = [[1, 2, 3, 4, 5, 6], [7, 8, 9]]"
    "unread_bytes (tx_sdu_queue um_example_tx) = 9" by code_simp+
  have rx: "rx_cfg um_example_rx = rlc_um (default_rlc_um_config 5)" "rx_sdu um_example_rx = None"
    "vr_ur um_example_rx = 0" "vr_uh um_example_rx = 0" "vr_ur_in_rx_sdu um_example_rx = 0"
    "rx_window um_example_rx = []" "pdu_lost um_example_rx = False" "um_reordering_timer um_example_rx = Some 0"
    "length (timer_list um_example_tm) = 1" "is_running (impl um_example_tm 0) = False" by code_simp+
  show ?thesis
    by (simp add: um_linked_def um_feed_def um_cfg_ok_def um_owed_def um_pending_def um_sdu_def um_sdus_ok_def queue_ok_def um_sn_def
        um_pdu_belongs_to_rx_sdu_def default_rlc_um_config_def Let_def tx rx)
qed

lemma um_any_order_witness:
  "\<exists>st. um_receive [[161, 0, 16, 6, 7, 8, 9], [64, 1, 2, 3, 4, 5], [161, 0, 16, 6, 7, 8, 9]] (um_example_tm, um_example_rx) =
     Some (st, [Pdcp_write_pdu 3 [1, 2, 3, 4, 5, 6], Pdcp_write_pdu 3 [7, 8, 9]])"
proof -
  let ?pdus = "[[64, 1, 2, 3, 4, 5], [161, 0, 16, 6, 7, 8, 9]] :: u8 list list"
  have build: "map_option (\<lambda>(pdus, tx). (pdus, um_pending tx)) (um_build_all [6, 40] um_example_tx) = Some (?pdus, [])" by code_simp
  have rx: "unat (um_rx_window_size (rx_cfg um_example_rx)) = 16" "um_rx_sn_field_length (rx_cfg um_example_rx) = umd_size5bits"
    "um_is_mrb (rx_cfg um_example_rx) = False" "rx_lcid um_example_rx = 3" by code_simp+
  have tail: "\<forall>pdu \<in> set ?pdus. um_has_tail umd_size5bits pdu" by code_simp
  have owed: "um_owed (um_sdu um_example_rx) um_example_tx = [[1, 2, 3, 4, 5, 6], [7, 8, 9]]" by code_simp
  from um_any_order [OF um_example_linked, of "[6, 40]"] obtain pdus tx' where
    p: "um_build_all [6, 40] um_example_tx = Some (pdus, tx')"
    and recv: "length pdus \<le> 16 \<and> (\<forall>pdu \<in> set pdus. um_has_tail umd_size5bits pdu) \<and> set order = {..<length pdus} \<Longrightarrow>
      \<exists>tm' e' sdus. um_receive (map ((!) pdus) order) (um_example_tm, um_example_rx) =
        Some ((tm', e'), map (Pdcp_write_pdu 3) sdus) \<and> um_linked tx' (tm', e') \<and>
        sdus @ um_owed (um_sdu e') tx' = [[1, 2, 3, 4, 5, 6], [7, 8, 9]]" for order
    unfolding rx owed if_False by (elim exE conjE) (rule that, assumption, erule allE, erule mp)
  have "pdus = ?pdus" "um_pending tx' = []" using build unfolding p by simp_all
  moreover have "set [1, 0, 1] = {..<length ?pdus}" by auto
  ultimately obtain st sdus where "um_receive (map ((!) ?pdus) [1, 0, 1]) (um_example_tm, um_example_rx) =
      Some (st, map (Pdcp_write_pdu 3) sdus)" "sdus = [[1, 2, 3, 4, 5, 6], [7, 8, 9]]"
    using recv [of "[1, 0, 1]"] tail by (auto simp: um_owed_def)
  then show ?thesis by simp
qed
text \<open>C9. A cut of no bytes loses an SDU: when the grant ends right after the header that announces the second of two SDUs, the PDU
has an empty last segment and the whole second SDU remains; the next PDU carries all of it but is marked as not start
aligned, and a receiver with nothing in its reassembly buffer delivers nothing of it.\<close>

theorem um_empty_segment_loses_sdu:
  assumes "um_tx_ok tx" "tx_sdu tx = None" "queue_q (tx_sdu_queue tx) = [s1, s2]" "unat g \<le> ROOM"
    "unat g = (if um_tx_sz tx = umd_size5bits then 1 else 2) + 2 + length s1"
    "unat g' > (if um_tx_sz tx = umd_size5bits then 1 else 2) + length s2" "um_grant_ok g' tx" "rx_sdu e = Some []"
  shows "\<exists>tx1 tx2 e'.
    um_tx_build_data_pdu g tx = Some (um_pdu (um_tx_sz tx) (u16_of (vt_us tx)) True False [s1, []], tx1) \<and>
    um_tx_build_data_pdu g' tx1 = Some (um_pdu (um_tx_sz tx) (u16_of (vt_us tx1)) False True [s2], tx2) \<and> um_pending tx2 = [] \<and>
    um_reassemble_pdu (um_header_of (um_tx_sz tx) (u16_of (vt_us tx1)) False True [s2], s2) e = Some (e', [])"
proof -
  let ?k = "if um_tx_sz tx = umd_size5bits then 1 else 2 :: nat"
  have pend: "um_pending tx = [s1, s2]" using assms(2,3) by (simp add: um_pending_def)
  have s: "s1 \<noteq> []" "s2 \<noteq> []" "length s2 < 2 ^ 11" using assms(1) pend by (simp_all add: um_tx_ok_def um_sdus_ok_def)
  have grant: "um_grant_ok g tx" using assms(5) s(1) by (cases s1) (auto simp: um_grant_iff)
  have ne: "um_pending tx \<noteq> []" using pend by simp
  from um_build [OF assms(1) ne grant] obtain segs rest qu where
    b: "um_tx_build_data_pdu g tx = Some (um_tx_pdu tx True rest segs, um_tx_next tx rest qu)" "segs \<noteq> []"
      "um_cut [s1, s2] segs rest (queue_q qu)" "queue_ok qu" "length (um_tx_pdu tx True rest segs) \<le> min (unat g) ROOM"
    unfolding pend by (auto simp: assms(2))
  let ?tx1 = "um_tx_next tx rest qu"
  have fills: "um_pending ?tx1 \<noteq> [] \<Longrightarrow> unat g \<le> length (um_tx_pdu tx True rest segs) + 1"
    using um_build_fills [OF assms(1) grant b(1)] assms(4) by (simp del: ROOM)
  note len = length_um_pdu [OF b(2), of "um_tx_sz tx" "u16_of (vt_us tx)" True "rest = None"]
  have cut: "segs = [s1, []] \<and> rest = Some s2 \<and> queue_q qu = []"
  proof (cases segs)
    case (Cons x t)
    show ?thesis
    proof (cases t)
      case Nil
      have "length (concat segs) \<le> length s1" "um_pending ?tx1 \<noteq> []"
        using b(3) s(2) unfolding Cons Nil by (auto simp: um_pending_def)
      then show ?thesis using fills len assms(5) by (simp add: Cons Nil)
    next
      case (Cons y u)
      then have segs: "segs = [s1, y]" using b(3) \<open>segs = x # t\<close> by (cases u) auto
      have "length y = 0" using len b(5) assms(5) by (simp add: segs)
      then show ?thesis using b(3) s(2) by (auto simp: segs)
    qed
  qed (use b(2) in simp)
  then have seg: "segs = [s1, []]" and rest: "rest = Some s2" and qu: "queue_q qu = []" by simp_all
  have pend1: "um_pending ?tx1 = [s2]" by (simp add: um_pending_def rest qu)
  have ok1: "um_tx_ok ?tx1" using s(2,3) b(4) by (simp add: um_tx_ok_def pend1 um_sdus_ok_def)
  have ne1: "um_pending ?tx1 \<noteq> []" and grant1: "um_grant_ok g' ?tx1" using pend1 assms(7) by (simp_all add: um_grant_ok_def)
  from um_build [OF ok1 ne1 grant1] obtain segs' rest' qu' where
    b': "um_tx_build_data_pdu g' ?tx1 = Some (um_tx_pdu ?tx1 False rest' segs', um_tx_next ?tx1 rest' qu')" "segs' \<noteq> []"
      "um_cut [s2] segs' rest' (queue_q qu')" unfolding pend1 by (auto simp: rest)
  note len' = length_um_pdu [OF b'(2), of "um_tx_sz tx" "u16_of (vt_us ?tx1)" False "rest' = None"]
  have seg': "segs' = [s2] \<and> rest' = None \<and> queue_q qu' = []"
  proof (cases segs')
    case (Cons y t)
    then have t: "segs' = [y]" using b'(3) by (cases t) auto
    show ?thesis
    proof (rule ccontr)
      assume "\<not> ?thesis"
      then have y: "length y < length s2" and left: "um_pending (um_tx_next ?tx1 rest' qu') \<noteq> []"
        using b'(3) by (auto simp: t um_pending_def)
      from um_build_fills [OF ok1 grant1 b'(1) left] have "min (unat g') ROOM \<le> length (um_tx_pdu ?tx1 False rest' segs') + 1" .
      then show False using len' y assms(6) s(3) by (simp add: t split: if_splits)
    qed
  qed (use b'(2) in simp)
  have drop: "\<exists>e'. um_reassemble_pdu (um_header_of sz sn False True [s2], s2) e = Some (e', [])" for sz sn
    using assms(8) by (simp add: um_reassemble_pdu_def um_header_of_def um_last_segment_def um_sdu_def)
  show ?thesis
    using b(1) b'(1) seg' drop [of "um_tx_sz tx" "u16_of (vt_us ?tx1)"]
    by (simp add: seg rest um_pending_def)
qed

lemma um_example_ok:
  "um_tx_ok um_example_tx" "tx_sdu um_example_tx = None" "queue_q (tx_sdu_queue um_example_tx) = [[1, 2, 3, 4, 5, 6], [7, 8, 9]]"
  "um_tx_sz um_example_tx = umd_size5bits" "um_pending um_example_tx \<noteq> []" "vt_us um_example_tx = 0"
proof -
  show "um_tx_ok um_example_tx" using um_example_linked unfolding um_linked_def by (auto intro: um_feed_tx_ok)
qed code_simp+

lemma um_empty_segment_loses_sdu_witness:
  "map_option snd (um_receive [[96, 0, 96, 1, 2, 3, 4, 5, 6], [129, 7, 8, 9]] (um_example_tm, um_example_rx)) =
     Some [Pdcp_write_pdu 3 [1, 2, 3, 4, 5, 6]] \<and>
   (\<exists>tx1 tx2. um_tx_build_data_pdu 9 um_example_tx = Some ([96, 0, 96, 1, 2, 3, 4, 5, 6], tx1) \<and>
      um_tx_build_data_pdu 40 tx1 = Some (um_pdu umd_size5bits (u16_of (vt_us tx1)) False True [[7, 8, 9]], tx2) \<and> um_pending tx2 = [])"
proof -
  have pdu: "um_pdu umd_size5bits (u16_of 0) True False [[1, 2, 3, 4, 5, 6], []] = [96, 0, 96, 1, 2, 3, 4, 5, 6]" by code_simp
  have "rx_sdu (um_example_rx\<lparr>rx_sdu := Some []\<rparr>) = Some []" by simp
  from um_empty_segment_loses_sdu [OF um_example_ok(1-3), of 9 40, OF _ _ _ _ this] have
    "\<exists>tx1 tx2. um_tx_build_data_pdu 9 um_example_tx = Some ([96, 0, 96, 1, 2, 3, 4, 5, 6], tx1) \<and>
      um_tx_build_data_pdu 40 tx1 = Some (um_pdu umd_size5bits (u16_of (vt_us tx1)) False True [[7, 8, 9]], tx2) \<and> um_pending tx2 = []"
    unfolding um_example_ok(4,6) pdu by (auto simp: um_grant_iff um_example_ok(4))
  moreover have "map_option snd (um_receive [[96, 0, 96, 1, 2, 3, 4, 5, 6], [129, 7, 8, 9]] (um_example_tm, um_example_rx)) =
     Some [Pdcp_write_pdu 3 [1, 2, 3, 4, 5, 6]]" by code_simp
  ultimately show ?thesis by simp
qed

text \<open>C8. A PDU fits its grant, and if it leaves something behind, at most one byte of the grant is unused.\<close>

theorem um_pdu_fills_grant:
  assumes "um_tx_ok e" "um_pending e \<noteq> []" "um_grant_ok g e"
  shows "\<exists>pdu e'. um_tx_build_data_pdu g e = Some (pdu, e') \<and> pdu \<noteq> [] \<and> length pdu \<le> min (unat g) ROOM \<and>
    (um_pending e' \<noteq> [] \<longrightarrow> min (unat g) ROOM \<le> length pdu + 1)"
proof -
  from um_build [OF assms] obtain segs rest qu where
    b: "um_tx_build_data_pdu g e = Some (um_tx_pdu e (tx_sdu e = None) rest segs, um_tx_next e rest qu)" "segs \<noteq> []"
      "length (um_tx_pdu e (tx_sdu e = None) rest segs) \<le> min (unat g) ROOM" by blast
  show ?thesis
    by (rule exI, rule exI, rule conjI, rule b(1)) (intro conjI impI um_pdu_nonempty b(3) um_build_fills [OF assms(1,3) b(1)])
qed

lemma um_pdu_fills_grant_witness:
  "\<exists>pdu e'. um_tx_build_data_pdu 6 um_example_tx = Some (pdu, e') \<and> pdu \<noteq> [] \<and> length pdu \<le> 6"
  using um_pdu_fills_grant [OF um_example_ok(1,5), of 6] by (auto simp: um_grant_iff um_example_ok(4))

text \<open>C7. A grant of as many bytes as the entity reports in its buffer state empties the transmitter in one PDU.\<close>

theorem um_buffer_state_suffices:
  assumes "um_tx_ok e" "um_pending e \<noteq> []" "unat (um_tx_get_buffer_state e) \<le> ROOM"
    "um_is_mrb (rlc_um (tx_cfg e)) \<Longrightarrow> um_tx_sz e = umd_size5bits"
  shows "\<exists>pdu e'. um_tx_build_data_pdu (um_tx_get_buffer_state e) e = Some (pdu, e') \<and> pdu \<noteq> [] \<and> um_pending e' = []"
proof -
  let ?g = "um_tx_get_buffer_state e" and ?fixed = "if um_tx_sz e = umd_size5bits then 1 else 2 :: nat"
  let ?n = "length (um_pending e)"
  have ne: "\<forall>x \<in> set (um_pending e). x \<noteq> []" using assms(1) by (simp add: um_tx_ok_def um_sdus_ok_def)
  have G: "unat ?g \<ge> length (concat (um_pending e)) + (3 * (?n - 1) + 1) div 2 + ?fixed + 1"
    using um_buffer_state [OF assms(1,2)] assms(4) by (auto split: if_splits)
  have "concat (um_pending e) \<noteq> []" using ne assms(2) by (cases "um_pending e") auto
  then have "unat ?g > ?fixed + 1" using G by (cases "concat (um_pending e)") simp_all
  then have grant: "um_grant_ok ?g e" by (simp add: um_grant_iff split: if_splits)
  from um_build [OF assms(1,2) grant] obtain segs rest qu where
    b: "um_tx_build_data_pdu ?g e = Some (um_tx_pdu e (tx_sdu e = None) rest segs, um_tx_next e rest qu)" "segs \<noteq> []"
      "um_cut (um_pending e) segs rest (queue_q qu)" by blast
  note len = length_um_pdu [OF b(2), of "um_tx_sz e" "u16_of (vt_us e)" "tx_sdu e = None" "rest = None"]
  have "um_pending (um_tx_next e rest qu) = []"
  proof (rule ccontr)
    assume left: "um_pending (um_tx_next e rest qu) \<noteq> []"
    then have "rest \<noteq> None \<or> queue_q qu \<noteq> []" by (auto simp: um_pending_def split: option.splits)
    note cut = um_cut_left(1) [OF b(3) ne] um_cut_left(2) [OF b(3) ne this]
    have "unat ?g \<le> length (um_tx_pdu e (tx_sdu e = None) rest segs) + 1"
      using um_build_fills [OF assms(1) grant b(1) left] assms(3) by (simp del: ROOM)
    then show False using G len cut(2) um_ext_mono [OF cut(1)] by linarith
  qed
  then show ?thesis by (intro exI [of _ "um_tx_next e rest qu"] exI conjI) (rule b(1), rule um_pdu_nonempty)
qed

lemma um_buffer_state_suffices_witness:
  "\<exists>pdu e'. um_tx_build_data_pdu 14 um_example_tx = Some (pdu, e') \<and> um_pending e' = []"
proof -
  have "um_tx_get_buffer_state um_example_tx = 14" by code_simp
  then show ?thesis using um_buffer_state_suffices [OF um_example_ok(1,5)] by (auto simp: um_example_ok(4))
qed

end
