(* ===== verification/Spec2Isabelle.thy ===== *)
theory Spec2Isabelle
  imports Pdcp_Nr Rijndael Aka Rlc_Um
begin

text \<open>
  A verification development for srsLTE: the security functions, the packet data convergence protocol with its
  timers, the unacknowledged mode of the radio link control below it, and authentication and key agreement between the UE
  and the core network.

  The program. srsLTE is an LTE/NR stack in three programs: the UE (\<open>srsue\<close>), the base station (\<open>srsenb\<close>) and the
  core network (\<open>srsepc\<close>), over a common library (\<open>lib\<close>). A subscriber is authenticated once: the server of the
  core network (\<open>srsepc/src/hss/hss.cc\<close>) computes a challenge, the card of the UE
  (\<open>srsue/src/stack/upper/usim.cc\<close>) answers it, and both derive K_ASME. From that key a hierarchy of keys is derived
  (\<open>lib/src/common/liblte_security.cc\<close>, \<open>security.cc\<close>), down to the keys of each radio bearer. The PDCP entities
  (\<open>lib/src/upper/pdcp_entity_lte.cc\<close>, \<open>pdcp_entity_nr.cc\<close>) number, cipher and protect the packets of a bearer with
  them, through the algorithms of \<open>liblte_security.cc\<close>, \<open>snow_3g.cc\<close> and \<open>zuc.cc\<close>; the NR entity runs its
  reordering and discard timers on \<open>lib/include/srslte/common/timers.h\<close>. Below PDCP the RLC entity of the bearer
  (\<open>lib/src/upper/rlc_um_lte.cc\<close>, \<open>rlc_um_base.cc\<close>) cuts the packets to the grants of the MAC and puts them together again.

  Theories and the code they model.
  \<^item> \<open>Prelude\<close>: machine integers, byte lists, flat memories, shared lemmas; the collection \<open>seceval\<close>.
  \<^item> \<open>Common\<close>: \<open>byte_buffer_t\<close> (\<open>common.h\<close>), \<open>int_helpers.h\<close>, TTI arithmetic.
  \<^item> \<open>Liblte_Tables\<close>, \<open>Liblte_Stream\<close>: tables and keystream loops of \<open>liblte_security.cc\<close>; the locale \<open>xor_cipher\<close> is
    the interface of a stream cipher and gives the round trip of each EEA algorithm.
  \<^item> \<open>Snow3g\<close> (\<open>snow_3g.cc\<close>), \<open>S3g\<close> (the other SNOW 3G and EEA1, \<open>liblte_security.cc\<close>), \<open>Zuc\<close> (\<open>zuc.cc\<close>, EEA3, EIA3),
    \<open>Rijndael\<close> and \<open>Milenage\<close> (\<open>liblte_security.cc\<close>), \<open>Liblte_Security\<close> (key derivation, EEA2, EIA2),
    \<open>Security\<close> (\<open>security.cc\<close>).
  \<^item> \<open>Timers\<close> (\<open>timers.h\<close>): \<open>timer_handler\<close> is a record, each method an operation on it; the environment of a
    callback is a parameter.
  \<^item> \<open>Pdcp_Base\<close> (\<open>pdcp_entity_base.cc\<close>), \<open>Pdcp_Lte\<close> (\<open>pdcp_entity_lte.cc\<close>), \<open>Pdcp_Nr\<close> (\<open>pdcp_entity_nr.cc\<close>): the class
    members are records, the LTE and NR entities extend the base record as the classes do. A buffer handed to RLC, GW
    or RRC is part of the result.
  \<^item> \<open>Rlc_Common\<close> (the RLC part of \<open>rrc_interface_types.h\<close>, \<open>rlc_common.h\<close>, \<open>rlc_tx_queue.h\<close> on \<open>block_queue.h\<close>),
    \<open>Rlc_Um_Header\<close>, \<open>Rlc_Um_Tx\<close>, \<open>Rlc_Um_Rx\<close> (\<open>rlc_um_lte.cc\<close>), \<open>Rlc_Um\<close> (\<open>rlc_um_base.cc\<close> and the entity): transmitter and
    receiver are records; the receiver runs on the timer service of \<open>Timers\<close>. \<open>Rlc_Um_Window\<close> holds the invariant of a
    round of at most a window of PDUs.
  \<^item> \<open>Bcd\<close> (\<open>bcd_helpers.h\<close>, \<open>plmn_id_t\<close> of \<open>rrc_interface_types.h\<close>).
  \<^item> \<open>Aka_Algorithm\<close>, \<open>Usim\<close> (\<open>usim.cc\<close>), \<open>Hss\<close> (\<open>hss.cc\<close>), \<open>Aka\<close> (both together with the check of
    \<open>srsepc/src/mme/nas.cc\<close>): the locale \<open>aka_algorithm\<close> is the interface of an authentication algorithm, interpreted on
    MILENAGE and on XOR.

  Conventions. Memory the code can leave is made explicit: an operation that indexes arrays returns an option and \<open>None\<close>
  is an access outside an array. A pointer that may be \<open>NULL\<close> is an option. Output arrays are given with their contents and
  returned. Integers are words of the width of the code and wrap. Loops are structural where the code counts; the loop
  of \<open>step_all\<close> (\<open>run_due\<close>) and the loop of \<open>generate_as_keys_ho\<close> (\<open>nh_chain\<close>) need not end and are
  \<open>partial_function\<close>s: that they return is proved where they do (\<open>Timers.reachable_step_all\<close>,
  \<open>Usim.handover_key_chain\<close>) and that they do not where they do not (\<open>Timers.zero_duration_rearm_loops\<close>). The loops of the
  UM receiver over its window (\<open>um_catch_up\<close>, \<open>um_in_sequence\<close>, \<open>um_skip_to_ux\<close>) are \<open>partial_function\<close>s as well, and
  \<open>Rlc_Um.um_any_order\<close> includes that the first two return during a round. There is no fuel anywhere in the development.

  What the lemmas show.
  \<^item> Ciphers: both SNOW 3G generators produce one keystream; the ZUC register stays in its range; every EEA is an
    involution; UIA2, EIA2 and EIA3 are the MACs of their specifications, which have
    products, subkeys and parities of their own.
  \<^item> Keys: each derivation hashes the string of the standard for its purpose, and the strings of different derivations
    never coincide; MILENAGE never repeats CK or IK.
  \<^item> Timers: the queue order, exactly-once firing, and where the counter wraps.
  \<^item> PDCP: round trips between two entities, COUNT reconstruction, the COUNTs of a series of PDUs, in-order delivery of a
    series through \<open>write_sdu\<close> and \<open>write_pdu\<close> (\<open>nr_send_all\<close>, \<open>nr_receive_all\<close>), the invariant of the reordering timer, and the
    inputs on which the code deviates from TS 36.323 and TS 38.323.
  \<^item> RLC UM: header and data of a PDU round trip; a PDU fits its grant and uses it but for a byte; the buffer state is
    enough; SDUs survive segmentation, reordering and repetition in a round, except those cut into an empty segment.
  \<^item> AKA: agreement of card and server, freshness of the sequence numbers in the challenges of the server and its absence on the card,
    the key chain at handover.

  Parameters. AES and SHA-256 come from mbedtls or polarssl and are the fields of a record \<open>crypto_lib\<close>; \<open>crypto_lib_ok\<close>
  states the lengths of their results. The results of \<open>rand ()\<close> and the contents of uninitialised arrays are arguments.

  Not modelled. Generated ASN.1 codecs and everything built on their types (RRC, S1AP, the NAS procedures, most of the
  MME); the physical layer (floating-point signal processing, mostly C); sockets, threads, logging, packet capture; RLC AM,
  TM and NR, the multiplexers \<open>rlc.cc\<close> and \<open>pdcp.cc\<close>, the MAC layer, GTP-U and the file of the user database. Failure of memory allocation and concurrent calls are
  not modelled: each operation is one step.
\<close>

end
